(* ===== verification/Lore_Prelude.thy ===== *)
theory Lore_Prelude
  imports Main "HOL-Library.Word"
begin

text \<open>
  Shared vocabulary of the development: the machine integer types of the Rust sources, the error
  values an operation of the storage crates can answer with, results as sums, and the generic facts
  on lists and on the little-endian layout of words that the component theories share.

  A \<open>usize\<close> or \<open>u64\<close> that the sources only compare, add and subtract under checks is a \<open>nat\<close>
  here, with the bound \<open>2 ^ 64\<close> written out where the sources check it. A field with a fixed
  layout, a flag word, and every value that is truncated by a cast is a \<open>word\<close>.
\<close>

unbundle bit_operations_syntax

type_synonym u8 = "8 word"
type_synonym u32 = "32 word"
type_synonym u64 = "64 word"
type_synonym byte = "8 word"
type_synonym bytes = "byte list"

named_theorems flag_simps \<open>the values of the fragment flag masks\<close>
named_theorems res_simps \<open>unfolding of sequencing over results\<close>

section \<open>Errors and results\<close>

text \<open>
  The error values of \<open>StorageError\<close>, \<open>StoreError\<close>, \<open>FragmentError\<close> and
  \<open>CompressFragmentError\<close>. The sources forward the kinds between these sets unchanged and
  wrap anything else as \<open>Internal\<close> with a message; a message is kept without its formatted
  numbers, so that the branches of one operation stay distinguishable.
\<close>

datatype storage_error =
    AddressNotFound
  | PayloadNotFound
  | SlowDown
  | Oversized
  | NotFound
  | Disconnected
  | NotConnected
  | NotAuthorized
  | NotAuthenticated
  | Maintenance
  | NoRemote
  | NotSupported
  | InefficientCompression
  | Internal string

type_synonym 'a result = "storage_error + 'a"

definition is_ok :: "'a result \<Rightarrow> bool" where
  "is_ok r = (case r of Inl _ \<Rightarrow> False | Inr _ \<Rightarrow> True)"

lemma is_ok_simps [simp]: "is_ok (Inr x)" "\<not> is_ok (Inl e)"
  by (simp_all add: is_ok_def)

lemma is_ok_iff: "is_ok r \<longleftrightarrow> (\<exists>x. r = Inr x)"
  by (cases r) auto

text \<open>The question-mark operator: go on with the value, or return the error.\<close>

definition bind_result :: "'a result \<Rightarrow> ('a \<Rightarrow> 'b result) \<Rightarrow> 'b result" where
  "bind_result r f = (case r of Inl e \<Rightarrow> Inl e | Inr x \<Rightarrow> f x)"

lemma bind_result_simps [simp, res_simps]:
  "bind_result (Inl e) f = Inl e"
  "bind_result (Inr x) f = f x"
  by (simp_all add: bind_result_def)

lemma bind_result_Inr_iff: "bind_result r f = Inr y \<longleftrightarrow> (\<exists>x. r = Inr x \<and> f x = Inr y)"
  by (cases r) auto

lemma bind_result_assoc:
  "bind_result (bind_result r f) g = bind_result r (\<lambda>x. bind_result (f x) g)"
  by (cases r) auto

text \<open>\<open>Result::and\<close>: the second result, unless the first is an error.\<close>

definition and_result :: "'a result \<Rightarrow> 'b result \<Rightarrow> 'b result" where
  "and_result r s = (case r of Inl e \<Rightarrow> Inl e | Inr _ \<Rightarrow> s)"

lemma and_result_simps [simp, res_simps]:
  "and_result (Inl e) s = Inl e"
  "and_result (Inr x) s = s"
  by (simp_all add: and_result_def)

section \<open>Fallible steps on a state\<close>

text \<open>
  An operation that changes a state and may fail. A failed operation answers with the state it left:
  what it changed before failing stays changed, as in the sources.
\<close>

type_synonym ('s, 'a) op = "'s \<Rightarrow> 'a result \<times> 's"

definition return_op :: "'a \<Rightarrow> ('s, 'a) op" where
  "return_op x s = (Inr x, s)"

definition fail_op :: "storage_error \<Rightarrow> ('s, 'a) op" where
  "fail_op e s = (Inl e, s)"

definition bind_op :: "('s, 'a) op \<Rightarrow> ('a \<Rightarrow> ('s, 'b) op) \<Rightarrow> ('s, 'b) op" where
  "bind_op m f s = (case m s of (Inl e, s') \<Rightarrow> (Inl e, s') | (Inr x, s') \<Rightarrow> f x s')"

definition get_op :: "('s \<Rightarrow> 'a) \<Rightarrow> ('s, 'a) op" where
  "get_op f s = (Inr (f s), s)"

definition modify_op :: "('s \<Rightarrow> 's) \<Rightarrow> ('s, unit) op" where
  "modify_op f s = (Inr (), f s)"

text \<open>An operation whose error is ignored.\<close>

definition ignore_op :: "('s, 'a) op \<Rightarrow> ('s, unit) op" where
  "ignore_op m s = (Inr (), snd (m s))"

lemma op_simps [simp]:
  "return_op x s = (Inr x, s)" "fail_op e s = (Inl e, s)" "get_op f s = (Inr (f s), s)"
  "modify_op g s = (Inr (), g s)" "ignore_op m s = (Inr (), snd (m s))"
  by (simp_all add: return_op_def fail_op_def get_op_def modify_op_def ignore_op_def)

lemma bind_op_Inr [simp]: "m s = (Inr x, s') \<Longrightarrow> bind_op m f s = f x s'"
  by (simp add: bind_op_def)

lemma bind_op_Inl [simp]: "m s = (Inl e, s') \<Longrightarrow> bind_op m f s = (Inl e, s')"
  by (simp add: bind_op_def)

lemma bind_op_cases:
  assumes "bind_op m f s = (r, s'')"
  obtains (failed) e where "m s = (Inl e, s'')" "r = Inl e"
    | (went) x s' where "m s = (Inr x, s')" "f x s' = (r, s'')"
  using assms by (auto simp: bind_op_def split: prod.splits sum.splits)

text \<open>What an operation keeps whatever it answers.\<close>

definition keeps_op :: "('s \<Rightarrow> bool) \<Rightarrow> ('s, 'a) op \<Rightarrow> bool" where
  "keeps_op P m \<longleftrightarrow> (\<forall>s. P s \<longrightarrow> P (snd (m s)))"

lemma keeps_opD: "keeps_op P m \<Longrightarrow> P s \<Longrightarrow> m s = (r, s') \<Longrightarrow> P s'"
  by (auto simp: keeps_op_def dest: spec [of _ s])

lemma keeps_op_simps [simp]:
  "keeps_op P (return_op x)" "keeps_op P (fail_op e)" "keeps_op P (get_op f)"
  "keeps_op P (ignore_op m) = keeps_op P m"
  by (simp_all add: keeps_op_def)

lemma keeps_bind_op: "keeps_op P m \<Longrightarrow> (\<And>x. keeps_op P (f x)) \<Longrightarrow> keeps_op P (bind_op m f)"
  by (auto simp: keeps_op_def bind_op_def split: prod.splits sum.splits dest: spec)

lemma keeps_modify_op: "(\<And>s. P s \<Longrightarrow> P (g s)) \<Longrightarrow> keeps_op P (modify_op g)"
  by (simp add: keeps_op_def)

text \<open>
  An operation that may also not return: it runs a loop whose end is proved and not built into its
  definition.
\<close>

type_synonym ('s, 'a) run = "'s \<Rightarrow> ('a result \<times> 's) option"

definition run_op :: "('s, 'a) op \<Rightarrow> ('s, 'a) run" where
  "run_op m s = Some (m s)"

definition bind_run :: "('s, 'a) run \<Rightarrow> ('a \<Rightarrow> ('s, 'b) run) \<Rightarrow> ('s, 'b) run" where
  "bind_run m f s =
     (case m s of None \<Rightarrow> None | Some (Inl e, s') \<Rightarrow> Some (Inl e, s') | Some (Inr x, s') \<Rightarrow> f x s')"

lemma run_op_simps [simp]: "run_op m s = Some (m s)"
  by (simp add: run_op_def)

lemma bind_run_simps [simp]:
  "m s = Some (Inr x, s') \<Longrightarrow> bind_run m f s = f x s'" "m s = Some (Inl e, s') \<Longrightarrow> bind_run m f s = Some (Inl e, s')"
  by (simp_all add: bind_run_def)

lemma bind_run_cases:
  assumes "bind_run m f s = Some (r, s'')"
  obtains (failed) e where "m s = Some (Inl e, s'')" "r = Inl e"
    | (went) x s' where "m s = Some (Inr x, s')" "f x s' = Some (r, s'')"
  using assms by (auto simp: bind_run_def split: option.splits prod.splits sum.splits)

section \<open>Checked arithmetic\<close>

abbreviation U64_RANGE :: nat where
  "U64_RANGE \<equiv> 18446744073709551616"

definition checked_add :: "nat \<Rightarrow> nat \<Rightarrow> nat option" where
  "checked_add a b = (if a + b < U64_RANGE then Some (a + b) else None)"

definition checked_sub :: "nat \<Rightarrow> nat \<Rightarrow> nat option" where
  "checked_sub a b = (if b \<le> a then Some (a - b) else None)"

lemma checked_add_Some_iff: "checked_add a b = Some c \<longleftrightarrow> c = a + b \<and> a + b < U64_RANGE"
  by (auto simp: checked_add_def)

lemma checked_sub_Some_iff: "checked_sub a b = Some c \<longleftrightarrow> b \<le> a \<and> c = a - b"
  by (auto simp: checked_sub_def)

text \<open>\<open>ok_or_else\<close>: an absent value becomes the given error.\<close>

definition ok_or :: "'a option \<Rightarrow> storage_error \<Rightarrow> 'a result" where
  "ok_or x e = (case x of None \<Rightarrow> Inl e | Some y \<Rightarrow> Inr y)"

lemma ok_or_simps [simp, res_simps]: "ok_or None e = Inl e" "ok_or (Some y) e = Inr y"
  by (simp_all add: ok_or_def)

lemma unat_less_u64: "unat (w :: u64) < U64_RANGE"
  using unsigned_less [of w] by simp

lemma unat_word_of_nat: "n < 2 ^ LENGTH('a::len) \<Longrightarrow> unat (word_of_nat n :: 'a word) = n"
  by (simp add: unsigned_of_nat take_bit_nat_eq_self)

section \<open>Slices\<close>

definition slice_of :: "nat \<Rightarrow> nat \<Rightarrow> 'a list \<Rightarrow> 'a list" where
  "slice_of a b xs = take (b - a) (drop a xs)"

lemma length_slice_of [simp]: "length (slice_of a b xs) = min (b - a) (length xs - a)"
  by (simp add: slice_of_def)

lemma slice_of_append: "a \<le> b \<Longrightarrow> b \<le> c \<Longrightarrow> slice_of a b xs @ slice_of b c xs = slice_of a c xs"
proof -
  assume ab: "a \<le> b" and bc: "b \<le> c"
  have "take (c - a) (drop a xs) = take (b - a) (drop a xs) @ take (c - b) (drop (b - a) (drop a xs))"
    using ab bc by (metis diff_diff_left diff_le_mono
        le_add_diff_inverse take_add)
  then show ?thesis using ab by (simp add: slice_of_def)
qed

lemma slice_of_mid:
  "length xs = a \<Longrightarrow> b = a + length ys \<Longrightarrow> slice_of a b (xs @ ys @ zs) = ys"
  by (auto simp: slice_of_def)

lemma slice_of_slice_of:
  "y \<le> b - a \<Longrightarrow> slice_of x y (slice_of a b xs) = slice_of (a + x) (a + y) xs"
  by (simp add: slice_of_def drop_take min_def add.commute)

lemma slice_of_0_all [simp]: "slice_of 0 (length xs) xs = xs"
  by (simp add: slice_of_def)

lemma slice_of_empty [simp]: "b \<le> a \<Longrightarrow> slice_of a b xs = []"
  by (simp add: slice_of_def)

lemma slice_of_0: "slice_of 0 n xs = take n xs"
  by (simp add: slice_of_def)

lemma drop_eq_slice_of: "drop a xs = slice_of a (length xs) xs"
  by (simp add: slice_of_def)

section \<open>Little-endian words\<close>

text \<open>
  \<open>to_le_bytes\<close> and \<open>from_le_bytes\<close> of a word of \<open>n\<close> bytes. Both are read off the
  bits, which makes the two directions of the round trip one lemma each.
\<close>

definition le_bytes :: "nat \<Rightarrow> 'a::len word \<Rightarrow> bytes" where
  "le_bytes n w = map (\<lambda>i. ucast (drop_bit (8 * i) w)) [0..<n]"

fun le_word :: "bytes \<Rightarrow> 'a::len word" where
  "le_word [] = 0"
| "le_word (b # bs) = ucast b OR push_bit 8 (le_word bs)"

lemma length_le_bytes [simp]: "length (le_bytes n w) = n"
  by (simp add: le_bytes_def)

lemma bit_le_word:
  "bit (le_word bs :: 'a::len word) k \<longleftrightarrow>
     k < LENGTH('a) \<and> k div 8 < length bs \<and> bit (bs ! (k div 8)) (k mod 8)"
proof (induction bs arbitrary: k)
  case Nil
  then show ?case by simp
next
  case (Cons b bs)
  show ?case
  proof (cases "k < 8")
    case True
    then show ?thesis by (auto simp: bit_simps dest: bit_imp_le_length)
  next
    case False
    then have "k div 8 = Suc ((k - 8) div 8)" and "(k - 8) mod 8 = k mod 8"
      by (simp_all add: le_div_geq le_mod_geq)
    moreover have "\<not> bit b k" using False by (auto dest!: bit_imp_le_length)
    ultimately show ?thesis
      using False by (auto simp: bit_simps Cons.IH dest: bit_imp_le_length)
  qed
qed

lemma bit_nth_le_bytes:
  "i < n \<Longrightarrow> bit (le_bytes n w ! i) j \<longleftrightarrow> j < 8 \<and> bit w (8 * i + j)"
  by (auto simp: le_bytes_def bit_simps add.commute)

lemma le_word_le_bytes [simp]:
  "8 * n = LENGTH('a) \<Longrightarrow> le_word (le_bytes n (w :: 'a::len word)) = w"
  by (rule bit_word_eqI) (auto simp: bit_le_word bit_nth_le_bytes less_mult_imp_div_less)

lemma le_bytes_le_word [simp]:
  "length bs = n \<Longrightarrow> 8 * n = LENGTH('a) \<Longrightarrow> le_bytes n (le_word bs :: 'a::len word) = bs"
proof (rule nth_equalityI)
  fix i
  assume n: "length bs = n" "8 * n = LENGTH('a)" and i: "i < length (le_bytes n (le_word bs :: 'a word))"
  show "le_bytes n (le_word bs :: 'a word) ! i = bs ! i"
  proof (rule bit_word_eqI)
    fix j
    assume j: "j < LENGTH(8)"
    have "(8 * i + j) div 8 = i" and "(8 * i + j) mod 8 = j" and "8 * i + j < LENGTH('a)"
      using i j n by simp_all
    then show "bit (le_bytes n (le_word bs :: 'a word) ! i) j = bit (bs ! i) j"
      using i j n by (simp add: bit_nth_le_bytes bit_le_word)
  qed
qed simp

end
