(* ===== verification/Lore_Types.thy ===== *)
theory Lore_Types
  imports Lore_Prelude
begin

text \<open>
  The identifiers and headers of \<open>lore-base/src/types\<close>: content hashes, contexts,
  partitions, addresses, fragment headers and fragment references with their byte layouts and
  textual forms, the fragment flag word, the key types and the match levels of a store.

  A \<open>[u8; N]\<close> identifier is the word of \<open>8 * N\<close> bits read from its bytes in big-endian
  order. That order makes the derived \<open>Ord\<close> of the byte array, which is lexicographic, the
  order of the words; \<open>hash_less_iff_bytes\<close> below states the correspondence.

  The hexadecimal codec is the \<open>hex\<close> crate, so \<open>encode\<close> and \<open>decode_to_slice\<close> are
  parameters of the definitions that use them.
\<close>

section \<open>Identifiers\<close>

datatype hash = Hash (hash_data: "256 word")
datatype lore_context = Context (context_data: "128 word")
datatype partition = Partition (partition_data: "128 word")

instantiation hash :: linorder
begin
definition less_eq_hash :: "hash \<Rightarrow> hash \<Rightarrow> bool" where
  "less_eq_hash h k \<longleftrightarrow> hash_data h \<le> hash_data k"
definition less_hash :: "hash \<Rightarrow> hash \<Rightarrow> bool" where
  "less_hash h k \<longleftrightarrow> hash_data h < hash_data k"
instance
  by standard (auto simp: less_eq_hash_def less_hash_def hash.expand)
end

instantiation lore_context :: linorder
begin
definition less_eq_lore_context :: "lore_context \<Rightarrow> lore_context \<Rightarrow> bool" where
  "less_eq_lore_context h k \<longleftrightarrow> context_data h \<le> context_data k"
definition less_lore_context :: "lore_context \<Rightarrow> lore_context \<Rightarrow> bool" where
  "less_lore_context h k \<longleftrightarrow> context_data h < context_data k"
instance
  by standard (auto simp: less_eq_lore_context_def less_lore_context_def lore_context.expand)
end

instantiation partition :: linorder
begin
definition less_eq_partition :: "partition \<Rightarrow> partition \<Rightarrow> bool" where
  "less_eq_partition h k \<longleftrightarrow> partition_data h \<le> partition_data k"
definition less_partition :: "partition \<Rightarrow> partition \<Rightarrow> bool" where
  "less_partition h k \<longleftrightarrow> partition_data h < partition_data k"
instance
  by standard (auto simp: less_eq_partition_def less_partition_def partition.expand)
end

definition hash_default :: hash where
  "hash_default = Hash 0"

definition context_default :: lore_context where
  "context_default = Context 0"

definition partition_default :: partition where
  "partition_default = Partition 0"

definition hash_is_zero :: "hash \<Rightarrow> bool" where
  "hash_is_zero h \<longleftrightarrow> hash_data h = 0"

definition context_is_zero :: "lore_context \<Rightarrow> bool" where
  "context_is_zero c \<longleftrightarrow> context_data c = 0"

definition partition_is_zero :: "partition \<Rightarrow> bool" where
  "partition_is_zero p \<longleftrightarrow> partition_data p = 0"

datatype address = Address (addr_hash: hash) (addr_context: lore_context)

definition address_is_zero :: "address \<Rightarrow> bool" where
  "address_is_zero a \<longleftrightarrow> hash_is_zero (addr_hash a)"

definition zero_context_hash :: "hash \<Rightarrow> address" where
  "zero_context_hash h = Address h context_default"

section \<open>Byte layouts of the identifiers\<close>

definition hash_as_bytes :: "hash \<Rightarrow> bytes" where
  "hash_as_bytes h = rev (le_bytes 32 (hash_data h))"

definition context_as_bytes :: "lore_context \<Rightarrow> bytes" where
  "context_as_bytes c = rev (le_bytes 16 (context_data c))"

definition partition_as_bytes :: "partition \<Rightarrow> bytes" where
  "partition_as_bytes p = rev (le_bytes 16 (partition_data p))"

definition hash_of_array :: "bytes \<Rightarrow> hash" where
  "hash_of_array bs = Hash (le_word (rev bs))"

definition context_of_array :: "bytes \<Rightarrow> lore_context" where
  "context_of_array bs = Context (le_word (rev bs))"

definition partition_of_array :: "bytes \<Rightarrow> partition" where
  "partition_of_array bs = Partition (le_word (rev bs))"

text \<open>
  \<open>From<&[u8]>\<close>: the value at the front of the slice, or the default where the slice is too
  short to hold one.
\<close>

definition hash_from_slice :: "bytes \<Rightarrow> hash" where
  "hash_from_slice bs = (if 32 \<le> length bs then hash_of_array (take 32 bs) else hash_default)"

definition context_from_slice :: "bytes \<Rightarrow> lore_context" where
  "context_from_slice bs =
     (if 16 \<le> length bs then context_of_array (take 16 bs) else context_default)"

definition partition_from_slice :: "bytes \<Rightarrow> partition" where
  "partition_from_slice bs =
     (if 16 \<le> length bs then partition_of_array (take 16 bs) else partition_default)"

definition address_as_bytes :: "address \<Rightarrow> bytes" where
  "address_as_bytes a = hash_as_bytes (addr_hash a) @ context_as_bytes (addr_context a)"

definition address_from_slice :: "bytes \<Rightarrow> address" where
  "address_from_slice bs =
     (if 48 \<le> length bs
      then Address (hash_of_array (take 32 bs)) (context_of_array (take 16 (drop 32 bs)))
      else Address hash_default context_default)"

definition address_visit_bytes :: "bytes \<Rightarrow> address option" where
  "address_visit_bytes bs = (if length bs \<noteq> 48 then None else Some (address_from_slice bs))"

lemma length_as_bytes [simp]:
  "length (hash_as_bytes h) = 32" "length (context_as_bytes c) = 16"
  "length (partition_as_bytes p) = 16" "length (address_as_bytes a) = 48"
  by (simp_all add: hash_as_bytes_def context_as_bytes_def partition_as_bytes_def
      address_as_bytes_def)

lemma of_array_as_bytes [simp]:
  "hash_of_array (hash_as_bytes h) = h"
  "context_of_array (context_as_bytes c) = c"
  "partition_of_array (partition_as_bytes p) = p"
  by (simp_all add: hash_of_array_def hash_as_bytes_def context_of_array_def context_as_bytes_def
      partition_of_array_def partition_as_bytes_def)

lemma as_bytes_of_array:
  "length bs = 32 \<Longrightarrow> hash_as_bytes (hash_of_array bs) = bs"
  "length cs = 16 \<Longrightarrow> context_as_bytes (context_of_array cs) = cs"
  by (simp_all add: hash_of_array_def hash_as_bytes_def context_of_array_def context_as_bytes_def)

lemma hash_as_bytes_inject: "hash_as_bytes h = hash_as_bytes k \<longleftrightarrow> h = k"
  by (metis of_array_as_bytes(1))

lemma address_from_slice_as_bytes [simp]: "address_from_slice (address_as_bytes a) = a"
  by (simp add: address_from_slice_def address_as_bytes_def)

section \<open>Hashes that carry small values\<close>

text \<open>
  A \<open>u64\<close> is kept in the first eight bytes of a hash, little-endian, and a context in the
  first sixteen; the rest is zero.
\<close>

definition hash_from_u64 :: "u64 \<Rightarrow> hash" where
  "hash_from_u64 v = hash_of_array (le_bytes 8 v @ replicate 24 0)"

definition hash_to_u64 :: "hash \<Rightarrow> u64" where
  "hash_to_u64 h = le_word (take 8 (hash_as_bytes h))"

definition hash_from_context :: "lore_context \<Rightarrow> hash" where
  "hash_from_context c = hash_of_array (context_as_bytes c @ replicate 16 0)"

definition hash_to_context :: "hash \<Rightarrow> lore_context" where
  "hash_to_context h = context_from_slice (take 16 (hash_as_bytes h))"

lemma hash_to_u64_from_u64 [simp]: "hash_to_u64 (hash_from_u64 v) = v"
  by (simp add: hash_to_u64_def hash_from_u64_def as_bytes_of_array)

lemma hash_to_context_from_context [simp]: "hash_to_context (hash_from_context c) = c"
  by (simp add: hash_to_context_def hash_from_context_def as_bytes_of_array context_from_slice_def)

section \<open>Order of the identifiers\<close>

text \<open>
  The derived order of a byte array compares bytes from the front. On arrays of one length it is the
  order of the big-endian words.
\<close>

fun be_val :: "bytes \<Rightarrow> nat" where
  "be_val [] = 0"
| "be_val (b # bs) = unat b * 256 ^ length bs + be_val bs"

fun array_less :: "bytes \<Rightarrow> bytes \<Rightarrow> bool" where
  "array_less (a # as) (b # bs) = (a < b \<or> a = b \<and> array_less as bs)"
| "array_less _ _ = False"

lemma be_val_bound: "be_val bs < 256 ^ length bs"
proof (induction bs)
  case Nil
  then show ?case by simp
next
  case (Cons b bs)
  have "unat b < 2 ^ LENGTH(8)" by (rule unsigned_less)
  then have "unat b \<le> 255" by simp
  then have "unat b * 256 ^ length bs \<le> 255 * 256 ^ length bs" by simp
  from add_le_less_mono [OF this Cons.IH] show ?case by simp
qed

lemma array_less_iff_be_val:
  "length as = length bs \<Longrightarrow> array_less as bs \<longleftrightarrow> be_val as < be_val bs"
proof (induction as bs rule: array_less.induct)
  case (1 a as b bs)
  then have len: "length as = length bs" by simp
  have va: "be_val as < 256 ^ length bs" using be_val_bound [of as] len by simp
  have vb: "be_val bs < 256 ^ length bs" by (rule be_val_bound)
  have step: "unat x < unat y \<Longrightarrow> v < 256 ^ length bs \<Longrightarrow>
      unat x * 256 ^ length bs + v < unat y * 256 ^ length bs + w" for x y :: byte and v w
  proof -
    assume "unat x < unat y" and v: "v < 256 ^ length bs"
    then have "Suc (unat x) * 256 ^ length bs \<le> unat y * 256 ^ length bs"
      by (intro mult_le_mono1) simp
    with v show ?thesis by simp
  qed
  show ?case
  proof (cases a b rule: linorder_cases)
    case less
    then show ?thesis using step [of a b] va len by (simp add: word_less_nat_alt)
  next
    case equal
    then show ?thesis using 1 len by simp
  next
    case greater
    then have "be_val (b # bs) < be_val (a # as)"
      using step [of b a] vb len by (simp add: word_less_nat_alt)
    with greater show ?thesis by auto
  qed
qed auto

lemma be_val_append: "be_val (xs @ ys) = be_val xs * 256 ^ length ys + be_val ys"
  by (induction xs) (auto simp: algebra_simps power_add)

lemma le_word_eq_of_nat: "(le_word bs :: 'a::len word) = word_of_nat (be_val (rev bs))"
proof (induction bs)
  case Nil
  then show ?case by simp
next
  case (Cons b bs)
  have disj: "ucast b AND push_bit 8 (le_word bs :: 'a word) = 0"
    by (rule bit_word_eqI) (auto simp: bit_simps dest: bit_imp_le_length)
  have "le_word (b # bs) = ucast b + push_bit 8 (le_word bs :: 'a word)"
    using disjunctive_add_eq_or [OF disj] by simp
  also have "\<dots> = word_of_nat (unat b) + word_of_nat (be_val (rev bs)) * 256"
    by (simp add: Cons push_bit_eq_mult)
  finally show ?case by (simp add: be_val_append)
qed

lemma unat_le_word:
  "8 * length bs = LENGTH('a) \<Longrightarrow> unat (le_word bs :: 'a::len word) = be_val (rev bs)"
proof -
  assume "8 * length bs = LENGTH('a)"
  then have "(2::nat) ^ LENGTH('a) = (2 ^ 8) ^ length bs"
    by (metis power_mult)
  then have "be_val (rev bs) < 2 ^ LENGTH('a)"
    using be_val_bound [of "rev bs"] by simp
  then show ?thesis by (simp add: le_word_eq_of_nat unat_of_nat)
qed

lemma hash_less_iff_bytes: "h < k \<longleftrightarrow> array_less (hash_as_bytes h) (hash_as_bytes k)"
proof -
  have "unat (hash_data x) = be_val (hash_as_bytes x)" for x
    using unat_le_word [where 'a = 256, of "le_bytes 32 (hash_data x)"]
    by (simp add: hash_as_bytes_def)
  then show ?thesis
    by (simp add: less_hash_def word_less_nat_alt array_less_iff_be_val)
qed

section \<open>Textual forms\<close>

datatype from_hex_error = InvalidHexCharacter | OddLength | InvalidStringLength

definition from_hex ::
  "(string \<Rightarrow> from_hex_error + bytes) \<Rightarrow> nat \<Rightarrow> string \<Rightarrow> from_hex_error + bytes" where
  "from_hex decode size_of s =
     (if size_of * 2 \<noteq> length s then Inl InvalidStringLength else decode s)"

definition hash_from_str :: "(string \<Rightarrow> from_hex_error + bytes) \<Rightarrow> string \<Rightarrow> from_hex_error + hash" where
  "hash_from_str decode s =
     (case from_hex decode 32 s of Inl e \<Rightarrow> Inl e | Inr bs \<Rightarrow> Inr (hash_of_array bs))"

definition context_from_str ::
  "(string \<Rightarrow> from_hex_error + bytes) \<Rightarrow> string \<Rightarrow> from_hex_error + lore_context" where
  "context_from_str decode s =
     (case from_hex decode 16 s of Inl e \<Rightarrow> Inl e | Inr bs \<Rightarrow> Inr (context_of_array bs))"

definition partition_from_str ::
  "(string \<Rightarrow> from_hex_error + bytes) \<Rightarrow> string \<Rightarrow> from_hex_error + partition" where
  "partition_from_str decode s =
     (case from_hex decode 16 s of Inl e \<Rightarrow> Inl e | Inr bs \<Rightarrow> Inr (partition_of_array bs))"

text \<open>\<open>str::split\<close> on a character: the pieces between the separators, at least one.\<close>

fun split_char :: "char \<Rightarrow> string \<Rightarrow> string list" where
  "split_char c [] = [[]]"
| "split_char c (x # xs) =
     (if x = c then [] # split_char c xs
      else case split_char c xs of [] \<Rightarrow> [[x]] | p # ps \<Rightarrow> (x # p) # ps)"

definition address_from_str ::
  "(string \<Rightarrow> from_hex_error + bytes) \<Rightarrow> string \<Rightarrow> from_hex_error + address" where
  "address_from_str decode s =
     (case split_char (CHR ''-'') s of
        [] \<Rightarrow> Inr (Address hash_default context_default)
      | [h] \<Rightarrow>
          (case hash_from_str decode h of
             Inl e \<Rightarrow> Inl e
           | Inr hash \<Rightarrow> Inr (Address hash context_default))
      | [h, c] \<Rightarrow>
          (case hash_from_str decode h of
             Inl e \<Rightarrow> Inl e
           | Inr hash \<Rightarrow>
               (case context_from_str decode c of
                  Inl e \<Rightarrow> Inl e
                | Inr ctx \<Rightarrow> Inr (Address hash ctx)))
      | _ \<Rightarrow> Inl InvalidStringLength)"

definition display_hash :: "(bytes \<Rightarrow> string) \<Rightarrow> hash \<Rightarrow> string" where
  "display_hash encode h = encode (hash_as_bytes h)"

definition display_context :: "(bytes \<Rightarrow> string) \<Rightarrow> lore_context \<Rightarrow> string" where
  "display_context encode c = encode (context_as_bytes c)"

definition display_partition :: "(bytes \<Rightarrow> string) \<Rightarrow> partition \<Rightarrow> string" where
  "display_partition encode p = encode (partition_as_bytes p)"

definition display_address :: "(bytes \<Rightarrow> string) \<Rightarrow> address \<Rightarrow> string" where
  "display_address encode a =
     display_hash encode (addr_hash a) @ ''-'' @ display_context encode (addr_context a)"

lemma split_char_no_sep: "c \<notin> set s \<Longrightarrow> split_char c s = [s]"
  by (induction s) auto

lemma split_char_append_sep:
  "c \<notin> set s \<Longrightarrow> split_char c (s @ c # t) = s # split_char c t"
  by (induction s) auto

section \<open>Fragment headers and references\<close>

record fragment =
  flags :: u32
  size_payload :: u32
  size_content :: u64

definition fragment_default :: fragment where
  "fragment_default = \<lparr>flags = 0, size_payload = 0, size_content = 0\<rparr>"

datatype fragment_reference = FragmentReference (ref_hash: hash) (offset_content: u64)

text \<open>The layouts of \<open>repr(C)\<close>: the fields in order, no padding at these alignments.\<close>

definition fragment_as_bytes :: "fragment \<Rightarrow> bytes" where
  "fragment_as_bytes f =
     le_bytes 4 (flags f) @ le_bytes 4 (size_payload f) @ le_bytes 8 (size_content f)"

definition fragment_from_slice :: "bytes \<Rightarrow> fragment" where
  "fragment_from_slice bs =
     (if 16 \<le> length bs
      then \<lparr>flags = le_word (take 4 bs), size_payload = le_word (take 4 (drop 4 bs)),
            size_content = le_word (take 8 (drop 8 bs))\<rparr>
      else fragment_default)"

definition size_of_FragmentReference :: nat where
  "size_of_FragmentReference = 40"

definition reference_as_bytes :: "fragment_reference \<Rightarrow> bytes" where
  "reference_as_bytes r = hash_as_bytes (ref_hash r) @ le_bytes 8 (offset_content r)"

definition reference_of_array :: "bytes \<Rightarrow> fragment_reference" where
  "reference_of_array bs =
     FragmentReference (hash_of_array (take 32 bs)) (le_word (take 8 (drop 32 bs)))"

definition reference_from_slice :: "bytes \<Rightarrow> fragment_reference" where
  "reference_from_slice bs =
     (if 40 \<le> length bs then reference_of_array (take 40 bs)
      else FragmentReference hash_default 0)"

text \<open>
  \<open>as_type_slice::<FragmentReference>\<close> of a buffer: its whole references, a trailing partial
  one ignored; \<open>list_as_bytes\<close> is the buffer a list of references is written to.
\<close>

definition reference_count :: "bytes \<Rightarrow> nat" where
  "reference_count bs = length bs div size_of_FragmentReference"

definition as_type_slice :: "bytes \<Rightarrow> fragment_reference list" where
  "as_type_slice bs =
     map (\<lambda>i. reference_of_array (take 40 (drop (40 * i) bs))) [0..<reference_count bs]"

definition list_as_bytes :: "fragment_reference list \<Rightarrow> bytes" where
  "list_as_bytes rs = concat (map reference_as_bytes rs)"

lemma length_reference_as_bytes [simp]: "length (reference_as_bytes r) = 40"
  by (simp add: reference_as_bytes_def)

lemma reference_of_array_as_bytes [simp]: "reference_of_array (reference_as_bytes r) = r"
  by (simp add: reference_of_array_def reference_as_bytes_def)

lemma length_list_as_bytes [simp]: "length (list_as_bytes rs) = 40 * length rs"
  by (induction rs) (simp_all add: list_as_bytes_def)

lemma list_as_bytes_simps [simp]:
  "list_as_bytes [] = []"
  "list_as_bytes (r # rs) = reference_as_bytes r @ list_as_bytes rs"
  "list_as_bytes (rs @ ss) = list_as_bytes rs @ list_as_bytes ss"
  by (simp_all add: list_as_bytes_def)

lemma drop_list_as_bytes: "drop (40 * i) (list_as_bytes rs) = list_as_bytes (drop i rs)"
proof (induction rs arbitrary: i)
  case Nil
  then show ?case by simp
next
  case (Cons r rs)
  then show ?case by (cases i) (simp_all add: drop_append)
qed

lemma take_list_as_bytes: "take (40 * i) (list_as_bytes rs) = list_as_bytes (take i rs)"
proof (induction rs arbitrary: i)
  case Nil
  then show ?case by simp
next
  case (Cons r rs)
  then show ?case by (cases i) (simp_all add: take_append)
qed

lemma length_as_type_slice [simp]: "length (as_type_slice bs) = length bs div 40"
  by (simp add: as_type_slice_def reference_count_def size_of_FragmentReference_def)

lemma as_type_slice_list_as_bytes [simp]: "as_type_slice (list_as_bytes rs) = rs"
proof (rule nth_equalityI)
  fix i
  assume "i < length (as_type_slice (list_as_bytes rs))"
  then have i: "i < length rs" by simp
  then have "drop i rs = rs ! i # drop (Suc i) rs" by (simp add: Cons_nth_drop_Suc)
  then have "take 40 (drop (40 * i) (list_as_bytes rs)) = reference_as_bytes (rs ! i)"
    by (simp add: drop_list_as_bytes)
  with i show "as_type_slice (list_as_bytes rs) ! i = rs ! i"
    by (simp add: as_type_slice_def reference_count_def size_of_FragmentReference_def)
qed simp

lemma list_as_bytes_inject: "list_as_bytes rs = list_as_bytes ss \<longleftrightarrow> rs = ss"
  by (metis as_type_slice_list_as_bytes)

lemma reference_as_bytes_of_array: "length bs = 40 \<Longrightarrow> reference_as_bytes (reference_of_array bs) = bs"
  by (simp add: reference_as_bytes_def reference_of_array_def as_bytes_of_array)

lemma list_as_bytes_surj: "length bs = 40 * n \<Longrightarrow> \<exists>rs. bs = list_as_bytes rs \<and> length rs = n"
proof (induction n arbitrary: bs)
  case 0
  then show ?case by (intro exI [of _ "[]"]) simp
next
  case (Suc n)
  then obtain rs where "drop 40 bs = list_as_bytes rs" "length rs = n"
    by (metis diff_add_inverse length_drop mult_Suc_right)
  moreover have "reference_as_bytes (reference_of_array (take 40 bs)) = take 40 bs"
    using Suc.prems by (simp add: reference_as_bytes_of_array)
  ultimately show ?case
    by (intro exI [of _ "reference_of_array (take 40 bs) # rs"])
      (metis append_take_drop_id length_Cons list_as_bytes_simps(2))
qed

section \<open>Properties\<close>

text \<open>
  The \<open>hex\<close> crate enters through its documented behaviour: two lower-case digits per byte,
  and decoding undoes encoding. The functions below are an instance of it.
\<close>

definition hex_digits :: "char set" where
  "hex_digits = set ''0123456789abcdef''"

definition hex_codec :: "(bytes \<Rightarrow> string) \<Rightarrow> (string \<Rightarrow> from_hex_error + bytes) \<Rightarrow> bool" where
  "hex_codec encode decode \<longleftrightarrow>
     (\<forall>bs. length (encode bs) = 2 * length bs \<and> set (encode bs) \<subseteq> hex_digits \<and>
        decode (encode bs) = Inr bs)"

definition hex_digit :: "nat \<Rightarrow> char" where
  "hex_digit n = (if n < 10 then char_of (48 + n) else char_of (87 + n))"

definition hex_undigit :: "char \<Rightarrow> nat" where
  "hex_undigit c = (if (of_char c :: nat) < 58 then of_char c - 48 else of_char c - 87)"

definition hex_encode :: "bytes \<Rightarrow> string" where
  "hex_encode bs = concat (map (\<lambda>b. [hex_digit (unat b div 16), hex_digit (unat b mod 16)]) bs)"

fun hex_decode :: "string \<Rightarrow> from_hex_error + bytes" where
  "hex_decode [] = Inr []"
| "hex_decode [c] = Inl OddLength"
| "hex_decode (c # d # cs) =
     (if set [c, d] \<subseteq> hex_digits then
        case hex_decode cs of
          Inl e \<Rightarrow> Inl e
        | Inr bs \<Rightarrow> Inr (word_of_nat (16 * hex_undigit c + hex_undigit d) # bs)
      else Inl InvalidHexCharacter)"

lemma hex_digit_cases:
  "n < 16 \<Longrightarrow> hex_digit n \<in> hex_digits \<and> hex_undigit (hex_digit n) = n"
proof -
  assume "n < 16"
  then have "n \<in> set [0, 1, 2, 3, 4, 5, 6, 7, 8, 9, 10, 11, 12, 13, 14, 15]"
    by (simp, arith)
  moreover have "\<forall>n \<in> set [0, 1, 2, 3, 4, 5, 6, 7, 8, 9, 10, 11, 12, 13, 14, 15 :: nat].
      hex_digit n \<in> hex_digits \<and> hex_undigit (hex_digit n) = n"
    by (simp add: hex_digits_def hex_digit_def hex_undigit_def char_of_def bit_0)
  ultimately show ?thesis by blast
qed

lemma hex_codec_instance: "hex_codec hex_encode hex_decode"
proof -
  have "length (hex_encode bs) = 2 * length bs \<and> set (hex_encode bs) \<subseteq> hex_digits \<and>
      hex_decode (hex_encode bs) = Inr bs" for bs
  proof (induction bs)
    case Nil
    then show ?case by (simp add: hex_encode_def)
  next
    case (Cons b bs)
    have "unat b < 2 ^ LENGTH(8)" by (rule unsigned_less)
    then have "unat b div 16 < 16" "unat b mod 16 < 16" by (auto simp: less_mult_imp_div_less)
    note d = this [THEN hex_digit_cases]
    have "16 * (unat b div 16) + unat b mod 16 = unat b" by simp
    then have "word_of_nat (16 * (unat b div 16) + unat b mod 16) = b" by (simp only: of_nat_unat ucast_id)
    with Cons d show ?case
      by (simp add: hex_encode_def)
  qed
  then show ?thesis by (simp add: hex_codec_def)
qed

text \<open>
  C17. The textual form of an address, the hash and the context in hexadecimal joined by a dash,
  reads back as the address, and the text of the hash alone reads as the address with the zero
  context.
\<close>

theorem address_from_str_display:
  assumes "hex_codec encode decode"
  shows "address_from_str decode (display_address encode a) = Inr a \<and>
    address_from_str decode (display_hash encode h) = Inr (zero_context_hash h)"
proof -
  have no_dash: "CHR ''-'' \<notin> set (encode bs)" for bs
    using assms unfolding hex_codec_def hex_digits_def by auto
  have len: "length (encode bs) = 2 * length bs" "decode (encode bs) = Inr bs" for bs
    using assms unfolding hex_codec_def by auto
  have "address_from_str decode (display_address encode a) = Inr a"
    by (simp add: address_from_str_def display_address_def display_hash_def display_context_def
        split_char_append_sep split_char_no_sep no_dash hash_from_str_def context_from_str_def
        from_hex_def len)
  moreover have "address_from_str decode (display_hash encode h) = Inr (zero_context_hash h)"
    by (simp add: address_from_str_def display_hash_def split_char_no_sep no_dash
        hash_from_str_def from_hex_def len zero_context_hash_def)
  ultimately show ?thesis ..
qed

theorem address_from_str_display_witness:
  "hex_codec hex_encode hex_decode \<and>
   address_from_str hex_decode (display_address hex_encode (Address (Hash 255) (Context 7)))
     = Inr (Address (Hash 255) (Context 7))"
  using address_from_str_display [OF hex_codec_instance] hex_codec_instance by blast

text \<open>
  C18. The byte layouts are inverse to their readers: an address, a fragment header and a list of
  fragment references read back from their bytes, whatever follows them in the buffer for the
  first two; a visited address of any other length is refused rather than read as the zero address.
\<close>

theorem layouts_roundtrip:
  "address_from_slice (address_as_bytes a @ rest) = a \<and>
   (address_visit_bytes bs = Some a \<longleftrightarrow> bs = address_as_bytes a) \<and>
   fragment_from_slice (fragment_as_bytes f @ rest) = f \<and>
   reference_from_slice (reference_as_bytes r @ rest) = r \<and>
   as_type_slice (list_as_bytes rs) = rs"
proof -
  have from_slice: "address_from_slice (address_as_bytes a @ rest) = a" for a rest
    by (simp add: address_from_slice_def address_as_bytes_def)
  have "address_as_bytes (address_from_slice bs) = bs" if "length bs = 48"
  proof -
    have "take 16 (drop 32 bs) = drop 32 bs" using that by simp
    with that show ?thesis
      by (simp add: address_from_slice_def address_as_bytes_def as_bytes_of_array)
  qed
  then have "address_visit_bytes bs = Some a \<longleftrightarrow> bs = address_as_bytes a"
    using from_slice [of a "[]"] by (auto simp: address_visit_bytes_def)
  with from_slice show ?thesis
    by (simp add: fragment_from_slice_def fragment_as_bytes_def reference_from_slice_def)
qed

end
