(* ===== verification/Fragment_Flags.thy ===== *)
theory Fragment_Flags
  imports Lore_Types
begin

text \<open>
  The flag word of a fragment (\<open>lore-base/src/types/fragment_flags.rs\<close>), the enumerations
  of \<open>store_types.rs\<close> and \<open>verify_types.rs\<close>, and the bit-level facts the checks on flag
  words rest on.
\<close>

section \<open>Flag masks\<close>

definition PayloadFragmented :: u32 where [flag_simps]: "PayloadFragmented = 0x1"
definition PayloadCompressedLZ4 :: u32 where [flag_simps]: "PayloadCompressedLZ4 = 0x2"
definition PayloadCompressedOodle2 :: u32 where [flag_simps]: "PayloadCompressedOodle2 = 0x4"
definition PayloadCompressedZstd :: u32 where [flag_simps]: "PayloadCompressedZstd = 0x8"
definition PayloadCompressed :: u32 where [flag_simps]: "PayloadCompressed = 0xFE"
definition PayloadObliterated :: u32 where [flag_simps]: "PayloadObliterated = 0x100"
definition PayloadObliterating :: u32 where [flag_simps]: "PayloadObliterating = 0x200"
definition PayloadObliteration :: u32 where [flag_simps]: "PayloadObliteration = 0x300"
definition PayloadLocalCachePriority :: u32 where [flag_simps]: "PayloadLocalCachePriority = 0x10000"
definition PayloadRevisionState :: u32 where [flag_simps]: "PayloadRevisionState = 0x20000"
definition PayloadStoredDurable :: u32 where [flag_simps]: "PayloadStoredDurable = 0x40000"
definition PayloadStoredLocal :: u32 where [flag_simps]: "PayloadStoredLocal = 0x100000"
definition PayloadStored :: u32 where [flag_simps]: "PayloadStored = 0x1C0000"
definition PayloadDoNotReplicate :: u32 where [flag_simps]: "PayloadDoNotReplicate = 0x200000"

definition all_flags :: u32 where
  [flag_simps]: "all_flags = 0x3F03FF"

text \<open>\<open>FragmentFlags::all()\<close> is the union of the declared masks.\<close>

lemma all_flags_union:
  "all_flags = PayloadFragmented OR PayloadCompressedLZ4 OR PayloadCompressedOodle2
     OR PayloadCompressedZstd OR PayloadCompressed OR PayloadObliterated OR PayloadObliterating
     OR PayloadObliteration OR PayloadLocalCachePriority OR PayloadRevisionState
     OR PayloadStoredDurable OR PayloadStoredLocal OR PayloadStored OR PayloadDoNotReplicate"
  by (simp add: flag_simps)

definition compression_label :: "u32 \<Rightarrow> string" where
  "compression_label fl =
     (if fl AND PayloadCompressed = 0 then ''not_compressed''
      else if fl AND PayloadCompressedLZ4 \<noteq> 0 then ''lz4''
      else if fl AND PayloadCompressedOodle2 \<noteq> 0 then ''oodle2''
      else if fl AND PayloadCompressedZstd \<noteq> 0 then ''zstd''
      else ''unknown'')"

abbreviation has_flag :: "fragment \<Rightarrow> u32 \<Rightarrow> bool" where
  "has_flag f m \<equiv> flags f AND m \<noteq> 0"

section \<open>Bits of flag words\<close>

text \<open>
  A mask of one bit reads a bit of the word; every statement about a mask reduces to bits this way.
\<close>

lemma and_1_eq_0_iff: "(w :: u32) AND 1 = 0 \<longleftrightarrow> \<not> bit w 0"
  by (simp add: and_one_eq even_iff_mod_2_eq_zero [symmetric] bit_0)

lemma and_mask_bit: "(w :: 'a::len word) AND push_bit n 1 = 0 \<longleftrightarrow> \<not> (bit w n \<and> n < LENGTH('a))"
proof -
  have "bit (w AND push_bit n 1) k \<longleftrightarrow> k = n \<and> bit w n \<and> n < LENGTH('a)" for k
    by (auto simp: bit_simps dest: bit_imp_le_length)
  then show ?thesis by (auto simp: bit_eq_iff)
qed

text \<open>
  \<open>x & (x - 1) == 0\<close> holds exactly of the words with at most one bit set, which the
  diagnostic paths test with \<open>count_ones\<close>.
\<close>

definition count_ones :: "u32 \<Rightarrow> nat" where
  "count_ones w = length (filter (bit w) [0..<32])"

lemma bit_Suc_double: "bit (Suc (2 * n)) k \<longleftrightarrow> k = 0 \<or> bit n (k - 1)"
  by (cases k) (simp_all add: bit_0 bit_Suc)

lemma bit_double_nat: "bit (2 * n :: nat) k \<longleftrightarrow> k \<noteq> 0 \<and> bit n (k - 1)"
  by (simp add: bit_double_iff)

lemma and_eq_0_iff_bits: "(a :: nat) AND b = 0 \<longleftrightarrow> (\<forall>k. \<not> (bit a k \<and> bit b k))"
  by (auto simp: bit_eq_iff bit_and_iff)

lemma and_pred_eq_0_iff_nat:
  "(n :: nat) AND (n - 1) = 0 \<longleftrightarrow> (\<forall>i j. bit n i \<longrightarrow> bit n j \<longrightarrow> i = j)"
proof (induction n rule: nat_bit_induct)
  case zero
  then show ?case by simp
next
  case (even n)
  then have pred: "2 * n - 1 = Suc (2 * (n - 1))" by simp
  have "(2 * n) AND (2 * n - 1) = 0 \<longleftrightarrow> n AND (n - 1) = 0"
    unfolding and_eq_0_iff_bits pred bit_double_nat bit_Suc_double
    by (metis Suc_neq_Zero diff_Suc_1)
  moreover have "(\<forall>i j. bit (2 * n) i \<longrightarrow> bit (2 * n) j \<longrightarrow> i = j) \<longleftrightarrow>
      (\<forall>i j. bit n i \<longrightarrow> bit n j \<longrightarrow> i = j)"
    unfolding bit_double_nat by (metis Suc_inject Suc_neq_Zero Suc_pred diff_Suc_1 not_gr_zero)
  ultimately show ?case using even by simp
next
  case (odd n)
  have "Suc (2 * n) AND (Suc (2 * n) - 1) = 0 \<longleftrightarrow> n = 0"
    unfolding and_eq_0_iff_bits diff_Suc_1 bit_double_nat bit_Suc_double
    by (metis (no_types, lifting) Suc_neq_Zero bit_0_eq bit_eq_iff bot_apply bot_bool_def diff_Suc_1)
  moreover have "(\<forall>i j. bit (Suc (2 * n)) i \<longrightarrow> bit (Suc (2 * n)) j \<longrightarrow> i = j) \<longleftrightarrow> n = 0"
    unfolding bit_Suc_double
    by (metis (no_types, lifting) Suc_neq_Zero bit_0_eq bit_eq_iff bot_apply bot_bool_def diff_Suc_1)
  ultimately show ?case by simp
qed

lemma length_filter_le_1_iff:
  "length (filter P [0..<n]) \<le> 1 \<longleftrightarrow> (\<forall>i < n. \<forall>j < n. P i \<longrightarrow> P j \<longrightarrow> i = j)"
proof -
  have "length (filter P [0..<n]) = card {i. i < n \<and> P i}"
    by (subst distinct_card [symmetric]) (auto intro: arg_cong [where f = card])
  then show ?thesis
    by (auto simp: card_le_Suc0_iff_eq)
qed

lemma count_ones_le_1_iff: "count_ones w \<le> 1 \<longleftrightarrow> w AND (w - 1) = 0"
proof (cases "w = 0")
  case True
  then show ?thesis by (simp add: count_ones_def)
next
  case False
  have bit_nat: "bit (unat w) i \<longleftrightarrow> i < 32 \<and> bit w i" for i
    by (auto simp: bit_unsigned_iff dest: bit_imp_le_length)
  have "unat (w AND (w - 1)) = unat w AND (unat w - 1)"
    using False by (simp add: unsigned_and_eq unat_minus_one)
  then have "w AND (w - 1) = 0 \<longleftrightarrow> unat w AND (unat w - 1) = 0"
    by (metis unsigned_0 unsigned_word_eqI)
  also have "\<dots> \<longleftrightarrow> (\<forall>i < 32. \<forall>j < 32. bit w i \<longrightarrow> bit w j \<longrightarrow> i = j)"
    by (auto simp only: and_pred_eq_0_iff_nat bit_nat)
  finally show ?thesis
    by (simp only: count_ones_def length_filter_le_1_iff)
qed

section \<open>Enumerations\<close>

datatype key_type =
    Untyped | BranchMetadata | BranchId | BranchLatestPointer | RepositoryMetadata
  | RepositoryId | Instance | Resolve

fun key_type_code :: "key_type \<Rightarrow> nat" where
  "key_type_code Untyped = 0"
| "key_type_code BranchMetadata = 1"
| "key_type_code BranchId = 2"
| "key_type_code BranchLatestPointer = 3"
| "key_type_code RepositoryMetadata = 4"
| "key_type_code RepositoryId = 5"
| "key_type_code Instance = 6"
| "key_type_code Resolve = 7"

definition key_type_try_from_u8 :: "u8 \<Rightarrow> u8 + key_type" where
  "key_type_try_from_u8 v =
     (if v = 0 then Inr Untyped
      else if v = 1 then Inr BranchMetadata
      else if v = 2 then Inr BranchId
      else if v = 3 then Inr BranchLatestPointer
      else if v = 4 then Inr RepositoryMetadata
      else if v = 5 then Inr RepositoryId
      else if v = 6 then Inr Instance
      else if v = 7 then Inr Resolve
      else Inl v)"

definition key_type_try_from_u32 :: "u32 \<Rightarrow> u32 + key_type" where
  "key_type_try_from_u32 v =
     (if v > 255 then Inl v
      else case key_type_try_from_u8 (ucast v) of Inl _ \<Rightarrow> Inl v | Inr k \<Rightarrow> Inr k)"

lemma key_type_try_from_u8_code [simp]:
  "key_type_try_from_u8 (word_of_nat (key_type_code k)) = Inr k"
  by (cases k) (simp_all add: key_type_try_from_u8_def)

lemma key_type_try_from_u32_code [simp]:
  "key_type_try_from_u32 (word_of_nat (key_type_code k)) = Inr k"
  by (cases k) (simp_all add: key_type_try_from_u32_def key_type_try_from_u8_def)

datatype store_match = MatchNone | MatchHash | MatchPartition | MatchFull

fun store_match_u8 :: "store_match \<Rightarrow> u8" where
  "store_match_u8 MatchNone = 0"
| "store_match_u8 MatchHash = 1"
| "store_match_u8 MatchPartition = 2"
| "store_match_u8 MatchFull = 3"

definition store_match_try_from :: "u8 \<Rightarrow> store_match option" where
  "store_match_try_from v =
     (if v = 0 then Some MatchNone
      else if v = 1 then Some MatchHash
      else if v = 2 then Some MatchPartition
      else if v = 3 then Some MatchFull
      else None)"

fun store_match_next :: "store_match \<Rightarrow> store_match option" where
  "store_match_next MatchNone = Some MatchHash"
| "store_match_next MatchHash = Some MatchPartition"
| "store_match_next MatchPartition = Some MatchFull"
| "store_match_next MatchFull = None"

fun store_match_prev :: "store_match \<Rightarrow> store_match option" where
  "store_match_prev MatchNone = None"
| "store_match_prev MatchHash = Some MatchNone"
| "store_match_prev MatchPartition = Some MatchHash"
| "store_match_prev MatchFull = Some MatchPartition"

definition is_partial :: "store_match \<Rightarrow> bool" where
  "is_partial m \<longleftrightarrow> m \<noteq> MatchFull"

instantiation store_match :: linorder
begin
definition less_eq_store_match :: "store_match \<Rightarrow> store_match \<Rightarrow> bool" where
  "less_eq_store_match a b \<longleftrightarrow> store_match_u8 a \<le> store_match_u8 b"
definition less_store_match :: "store_match \<Rightarrow> store_match \<Rightarrow> bool" where
  "less_store_match a b \<longleftrightarrow> store_match_u8 a < store_match_u8 b"
instance
proof
  fix x y :: store_match
  show "x \<le> y \<Longrightarrow> y \<le> x \<Longrightarrow> x = y"
    by (cases x; cases y) (simp_all add: less_eq_store_match_def word_le_nat_alt)
qed (auto simp: less_eq_store_match_def less_store_match_def)
end

lemma store_match_try_from_u8 [simp]: "store_match_try_from (store_match_u8 m) = Some m"
  by (cases m) (simp_all add: store_match_try_from_def)

lemma store_match_less_simps [simp]:
  "MatchNone < m \<longleftrightarrow> m \<noteq> MatchNone"
  "m < MatchFull \<longleftrightarrow> m \<noteq> MatchFull"
  "\<not> m < MatchNone"
  "\<not> MatchFull < m"
  "m < MatchHash \<longleftrightarrow> m = MatchNone"
  "m < MatchPartition \<longleftrightarrow> m = MatchNone \<or> m = MatchHash"
  by (cases m; simp add: less_store_match_def word_less_nat_alt)+

lemma store_match_le_simps [simp]: "m \<le> MatchFull" "MatchNone \<le> m"
  using store_match_less_simps(3,4) not_le by blast+

lemma store_match_next_less: "store_match_next m = Some n \<Longrightarrow> m < n \<and> store_match_prev n = Some m"
  by (cases m) (auto simp: less_store_match_def)

datatype heal_result = NotAttempted | Healed | Failed

definition heal_result_from_u8 :: "u8 \<Rightarrow> heal_result" where
  "heal_result_from_u8 v = (if v = 0 then NotAttempted else if v = 1 then Healed else Failed)"

text \<open>The conversion from \<open>i32\<close> truncates to the low byte first.\<close>

definition heal_result_from_i32 :: "32 word \<Rightarrow> heal_result" where
  "heal_result_from_i32 v = heal_result_from_u8 (ucast v)"

end
