(* ===== verification/Fragment_Validation.thy ===== *)
theory Fragment_Validation
  imports Fragment_Flags
begin

text \<open>
  The checks a fragment passes at the boundaries of the system: the size and metadata checks of
  \<open>lore-storage/src/immutable_store.rs\<close> (ingress of a put, and the local store's own put gate),
  the check of a fragment list's payload, and the permissive check of a peer's answer in
  \<open>lore-base/src/types/mod.rs\<close>.

  The ingress checks exist twice in the sources, as one expression that says whether a fragment is
  valid and as a sequence of early returns that says which check fails; the lemmas here show that
  both describe the same set of fragments, which is the set the documentation lists. A
  \<open>usize\<close> is 64 bits wide.
\<close>

section \<open>Sizes\<close>

definition FRAGMENT_SIZE_THRESHOLD :: nat where
  "FRAGMENT_SIZE_THRESHOLD = 256 * 1024"

definition validate_fragment_size :: "fragment \<Rightarrow> unit result" where
  "validate_fragment_size f =
     (if unat (size_payload f) > FRAGMENT_SIZE_THRESHOLD then Inl Oversized
      else if flags f AND PayloadFragmented = 0
           \<and> unat (size_content f) > FRAGMENT_SIZE_THRESHOLD then Inl Oversized
      else Inr ())"

definition validate_fragment_payload :: "fragment \<Rightarrow> nat \<Rightarrow> unit result" where
  "validate_fragment_payload f payload_len =
     bind_result (validate_fragment_size f) (\<lambda>_.
       if payload_len \<noteq> unat (size_payload f)
       then Inl (Internal ''fragment payload length mismatch'') else Inr ())"

definition payload_is_plain :: "fragment \<Rightarrow> bool" where
  "payload_is_plain f \<longleftrightarrow>
     \<not> (flags f AND PayloadFragmented = PayloadFragmented) \<and>
     \<not> (flags f AND PayloadCompressed \<noteq> 0)"

definition payload_is_content :: "fragment \<Rightarrow> bool" where
  "payload_is_content f \<longleftrightarrow> payload_is_plain f \<and> unat (size_payload f) = unat (size_content f)"

definition validate_plain_payload_size :: "fragment \<Rightarrow> unit result" where
  "validate_plain_payload_size f =
     (if payload_is_plain f \<and> unat (size_payload f) \<noteq> unat (size_content f)
      then Inl (Internal ''uncompressed unfragmented fragment has mismatching sizes'')
      else Inr ())"

definition validate_buffer_capacity :: "nat \<Rightarrow> nat \<Rightarrow> unit result" where
  "validate_buffer_capacity sz capacity = (if sz > capacity then Inl Oversized else Inr ())"

section \<open>Metadata at ingress\<close>

definition FRAGMENT_FLAGS_SERVER_MANAGED_INGRESS_REJECTED :: u32 where
  [flag_simps]: "FRAGMENT_FLAGS_SERVER_MANAGED_INGRESS_REJECTED =
     PayloadObliteration OR PayloadDoNotReplicate"

definition FRAGMENT_FLAGS_DEFINED_COMPRESSORS :: u32 where
  [flag_simps]: "FRAGMENT_FLAGS_DEFINED_COMPRESSORS =
     PayloadCompressedLZ4 OR PayloadCompressedOodle2 OR PayloadCompressedZstd"

definition fragment_is_consistent :: "fragment \<Rightarrow> bool" where
  "fragment_is_consistent f \<longleftrightarrow>
     (let fl = flags f;
          compressed = fl AND PayloadCompressed;
          fragmented = (fl AND PayloadFragmented \<noteq> 0);
          size_payload = unat (size_payload f);
          threshold = FRAGMENT_SIZE_THRESHOLD
      in fl AND FRAGMENT_FLAGS_SERVER_MANAGED_INGRESS_REJECTED = 0
       \<and> compressed AND (compressed - 1) = 0
       \<and> (compressed = 0 \<or> \<not> fragmented)
       \<and> size_payload \<noteq> 0
       \<and> size_payload \<le> threshold
       \<and> size_payload \<le> unat (size_content f)
       \<and> (fragmented \<or> unat (size_content f) \<le> threshold)
       \<and> (compressed \<noteq> 0 \<or> fragmented \<or> size_payload = unat (size_content f)))"

definition fragment_metadata_is_valid :: "fragment \<Rightarrow> bool" where
  "fragment_metadata_is_valid f \<longleftrightarrow>
     flags f AND NOT all_flags = 0
   \<and> flags f AND PayloadCompressed AND NOT FRAGMENT_FLAGS_DEFINED_COMPRESSORS = 0
   \<and> fragment_is_consistent f"

definition refuse_inconsistency :: "fragment \<Rightarrow> unit result" where
  "refuse_inconsistency f =
     bind_result (validate_fragment_size f) (\<lambda>_.
       if flags f AND FRAGMENT_FLAGS_SERVER_MANAGED_INGRESS_REJECTED \<noteq> 0
       then Inl (Internal ''server-managed bits not permitted on ingress'')
       else
         let compressed_bits = flags f AND PayloadCompressed;
             is_compressed = compressed_bits \<noteq> 0;
             is_fragmented = flags f AND PayloadFragmented \<noteq> 0
         in if count_ones compressed_bits > 1
            then Inl (Internal ''multiple compression flags set'')
            else if is_compressed \<and> is_fragmented
            then Inl (Internal ''cannot combine compressed and fragmented'')
            else if size_payload f = 0
            then Inl (Internal ''size_payload must be > 0'')
            else if unat (size_payload f) > unat (size_content f)
            then Inl (Internal ''size_payload exceeds size_content'')
            else if is_compressed \<and> unat (size_content f) > FRAGMENT_SIZE_THRESHOLD
            then Inl Oversized
            else validate_plain_payload_size f)"

definition refuse_fragment_metadata :: "fragment \<Rightarrow> unit result" where
  "refuse_fragment_metadata f =
     (if flags f AND NOT all_flags \<noteq> 0
      then Inl (Internal ''fragment flags contain unknown bits'')
      else if flags f AND PayloadCompressed AND NOT FRAGMENT_FLAGS_DEFINED_COMPRESSORS \<noteq> 0
      then Inl (Internal ''fragment has reserved compression bit set'')
      else refuse_inconsistency f)"

definition validate_fragment_metadata :: "fragment \<Rightarrow> unit result" where
  "validate_fragment_metadata f =
     (if fragment_metadata_is_valid f then Inr () else refuse_fragment_metadata f)"

definition put_is_valid :: "fragment \<Rightarrow> nat option \<Rightarrow> bool" where
  "put_is_valid f payload_len \<longleftrightarrow>
     fragment_is_consistent f
   \<and> (flags f AND PayloadFragmented = 0 \<or> unat (size_payload f) mod size_of_FragmentReference = 0)
   \<and> (case payload_len of None \<Rightarrow> True | Some len \<Rightarrow> len = unat (size_payload f))"

definition refuse_put :: "fragment \<Rightarrow> nat option \<Rightarrow> bool \<Rightarrow> unit result" where
  "refuse_put f payload_len enforced =
     (if \<not> enforced then
        (case payload_len of
           Some len \<Rightarrow> validate_fragment_payload f len
         | None \<Rightarrow> validate_fragment_size f)
      else
        bind_result (refuse_inconsistency f) (\<lambda>_.
          if flags f AND PayloadFragmented \<noteq> 0
             \<and> unat (size_payload f) mod size_of_FragmentReference \<noteq> 0
          then Inl (Internal ''fragment list is not a whole number of references'')
          else (case payload_len of
                  Some len \<Rightarrow> bind_result (validate_fragment_payload f len) (\<lambda>_. Inr ())
                | None \<Rightarrow> Inr ())))"

section \<open>Fragment lists\<close>

text \<open>The first index, from \<open>i\<close> on, whose offset does not exceed the one before it.\<close>

fun not_increasing_at :: "nat \<Rightarrow> u64 list \<Rightarrow> nat option" where
  "not_increasing_at i (a # b # os) =
     (if b \<le> a then Some i else not_increasing_at (Suc i) (b # os))"
| "not_increasing_at i os = None"

definition validate_fragment_list :: "fragment \<Rightarrow> bytes \<Rightarrow> unit result" where
  "validate_fragment_list f payload =
     (if unat (size_payload f) mod size_of_FragmentReference \<noteq> 0
      then Inl (Internal ''size_payload is not a multiple of FragmentReference size'')
      else if length payload \<noteq> unat (size_payload f)
      then Inl (Internal ''payload length does not match size_payload'')
      else
        let references = as_type_slice payload
        in if length references < 2
           then Inl (Internal ''fewer than 2 references'')
           else case not_increasing_at 1 (map offset_content references) of
             Some _ \<Rightarrow> Inl (Internal ''offsets are not strictly increasing'')
           | None \<Rightarrow>
               let first = unat (offset_content (references ! 0));
                   last = unat (offset_content (references ! (length references - 1)))
               in bind_result
                    (ok_or (checked_add first (unat (size_content f)))
                       (Internal ''first offset + size_content overflows u64''))
                    (\<lambda>content_end.
                       if last \<ge> content_end
                       then Inl (Internal ''last offset is outside content window'')
                       else Inr ()))"

section \<open>Behaviour flags, and a peer's answer\<close>

record behavior_flags =
  do_not_replicate :: bool

definition sanitise_fragment_behavior_flags :: "fragment \<Rightarrow> fragment \<times> behavior_flags" where
  "sanitise_fragment_behavior_flags f =
     (if flags f AND PayloadDoNotReplicate = PayloadDoNotReplicate
      then (f\<lparr>flags := flags f AND NOT PayloadDoNotReplicate\<rparr>, \<lparr>do_not_replicate = True\<rparr>)
      else (f, \<lparr>do_not_replicate = False\<rparr>))"

definition validate_fragment_response :: "fragment \<Rightarrow> string + unit" where
  "validate_fragment_response f =
     (if size_payload f = 0 then Inl ''size_payload == 0''
      else if unat (size_payload f) > FRAGMENT_SIZE_THRESHOLD
      then Inl ''size_payload exceeds FRAGMENT_SIZE_THRESHOLD''
      else if unat (size_payload f) > unat (size_content f)
      then Inl ''size_payload exceeds size_content''
      else
        let is_fragmented = flags f AND PayloadFragmented \<noteq> 0;
            is_compressed = flags f AND PayloadCompressed \<noteq> 0
        in if is_fragmented \<and> is_compressed
           then Inl ''both fragmented and compressed flags set''
           else if \<not> is_fragmented \<and> unat (size_content f) > FRAGMENT_SIZE_THRESHOLD
           then Inl ''size_content exceeds FRAGMENT_SIZE_THRESHOLD''
           else Inr ())"

section \<open>What the checks accept\<close>

lemma fragmented_bit: "(w :: u32) AND PayloadFragmented = PayloadFragmented \<longleftrightarrow> w AND PayloadFragmented \<noteq> 0"
  by (simp add: PayloadFragmented_def and_one_eq)

lemma payload_is_plain_iff:
  "payload_is_plain f \<longleftrightarrow> flags f AND PayloadFragmented = 0 \<and> flags f AND PayloadCompressed = 0"
  by (simp add: payload_is_plain_def fragmented_bit)

lemma unat_eq_0_u32: "(w :: u32) = 0 \<longleftrightarrow> unat w = 0"
  by (simp add: unat_eq_zero)

lemma count_ones_gt_1_iff: "1 < count_ones w \<longleftrightarrow> w AND (w - 1) \<noteq> 0"
  using count_ones_le_1_iff [of w] by (simp add: not_le [symmetric])

lemma refuse_inconsistency_ok_iff: "refuse_inconsistency f = Inr () \<longleftrightarrow> fragment_is_consistent f"
  unfolding refuse_inconsistency_def fragment_is_consistent_def validate_fragment_size_def
    validate_plain_payload_size_def payload_is_plain_iff unat_eq_0_u32 [of "size_payload f"]
  by (auto simp: Let_def not_less count_ones_gt_1_iff simp del: One_nat_def)

lemma refuse_fragment_metadata_ok_iff:
  "refuse_fragment_metadata f = Inr () \<longleftrightarrow> fragment_metadata_is_valid f"
  by (simp add: refuse_fragment_metadata_def fragment_metadata_is_valid_def
      refuse_inconsistency_ok_iff)

lemma validate_fragment_metadata_ok_iff:
  "validate_fragment_metadata f = Inr () \<longleftrightarrow> fragment_metadata_is_valid f"
  by (simp add: validate_fragment_metadata_def refuse_fragment_metadata_ok_iff)

lemma consistent_size_ok: "fragment_is_consistent f \<Longrightarrow> validate_fragment_size f = Inr ()"
  by (auto simp: fragment_is_consistent_def validate_fragment_size_def Let_def)

lemma validate_fragment_payload_ok_iff:
  "validate_fragment_payload f n = Inr () \<longleftrightarrow>
     validate_fragment_size f = Inr () \<and> n = unat (size_payload f)"
  by (auto simp: validate_fragment_payload_def bind_result_Inr_iff split: if_splits)

lemma not_increasing_at_None_iff: "not_increasing_at i os = None \<longleftrightarrow> sorted_wrt (<) os"
  by (induction i os rule: not_increasing_at.induct) (auto simp: not_le)

lemma sorted_wrt_less_last:
  "sorted_wrt (<) (os :: 'a::order list) \<Longrightarrow> x \<in> set os \<Longrightarrow> x \<le> last os"
  by (induction os) (auto simp: less_imp_le split: if_splits)

lemma sorted_wrt_less_hd:
  "sorted_wrt (<) (os :: 'a::order list) \<Longrightarrow> x \<in> set os \<Longrightarrow> hd os \<le> x"
  by (cases os) (auto simp: less_imp_le)

text \<open>
  What a fragment list that passed the check looks like, over its references: the window of the
  content starts at the first offset, is as long as the content, and holds every offset.
\<close>

definition list_window_ok :: "nat \<Rightarrow> fragment_reference list \<Rightarrow> bool" where
  "list_window_ok n rs \<longleftrightarrow>
     2 \<le> length rs \<and> sorted_wrt (<) (map offset_content rs) \<and>
     unat (offset_content (hd rs)) + n < U64_RANGE \<and>
     (\<forall>r\<in>set rs. unat (offset_content (hd rs)) \<le> unat (offset_content r) \<and>
        unat (offset_content r) < unat (offset_content (hd rs)) + n)"

lemma list_window_ok_alt:
  assumes "2 \<le> length rs" "sorted_wrt (<) (map offset_content rs)"
  shows "list_window_ok n rs \<longleftrightarrow>
     unat (offset_content (hd rs)) + n < U64_RANGE \<and>
     unat (offset_content (last rs)) < unat (offset_content (hd rs)) + n"
proof -
  have ne: "rs \<noteq> []" using assms(1) by auto
  have "offset_content r \<le> offset_content (last rs)" "offset_content (hd rs) \<le> offset_content r"
    if "r \<in> set rs" for r
    using sorted_wrt_less_last [OF assms(2), of "offset_content r"]
      sorted_wrt_less_hd [OF assms(2), of "offset_content r"] that ne
    by (auto simp: last_map hd_map)
  then show ?thesis
    unfolding list_window_ok_def using assms ne last_in_set [OF ne]
    by (fastforce simp: word_le_nat_alt)
qed

lemma validate_fragment_list_as_bytes:
  "validate_fragment_list f (list_as_bytes rs) = Inr () \<longleftrightarrow>
     unat (size_payload f) = 40 * length rs \<and> list_window_ok (unat (size_content f)) rs"
proof (cases "unat (size_payload f) = 40 * length rs \<and> 2 \<le> length rs \<and>
    sorted_wrt (<) (map offset_content rs)")
  case True
  then have "rs \<noteq> []" by auto
  with True show ?thesis
    using not_increasing_at_None_iff [of 1 "map offset_content rs"]
    by (auto simp: validate_fragment_list_def size_of_FragmentReference_def Let_def
        list_window_ok_alt checked_add_def hd_conv_nth last_conv_nth)
next
  case False
  moreover have "sorted_wrt (<) (map offset_content rs) \<longleftrightarrow>
      not_increasing_at 1 (map offset_content rs) = None"
    by (simp add: not_increasing_at_None_iff)
  ultimately show ?thesis
    by (auto simp: validate_fragment_list_def size_of_FragmentReference_def Let_def
        list_window_ok_def split: option.splits)
qed

section \<open>Properties\<close>

text \<open>
  C8. Metadata is accepted at ingress exactly when it meets the documented list: a payload size
  in the range (0, threshold], not above the content size; no unknown bit; at most one compression
  bit, from the defined ones; no server-managed bit; not compressed and fragmented at once;
  content of a compressed fragment within the threshold; and equal sizes for a plain fragment.
\<close>

theorem validate_fragment_metadata_accepts:
  "validate_fragment_metadata f = Inr () \<longleftrightarrow>
     0 < unat (size_payload f) \<and> unat (size_payload f) \<le> FRAGMENT_SIZE_THRESHOLD
   \<and> unat (size_payload f) \<le> unat (size_content f)
   \<and> flags f AND NOT all_flags = 0
   \<and> count_ones (flags f AND PayloadCompressed) \<le> 1
   \<and> flags f AND PayloadCompressed AND NOT FRAGMENT_FLAGS_DEFINED_COMPRESSORS = 0
   \<and> flags f AND PayloadObliteration = 0 \<and> flags f AND PayloadDoNotReplicate = 0
   \<and> \<not> (flags f AND PayloadCompressed \<noteq> 0 \<and> flags f AND PayloadFragmented \<noteq> 0)
   \<and> (flags f AND PayloadCompressed \<noteq> 0 \<longrightarrow> unat (size_content f) \<le> FRAGMENT_SIZE_THRESHOLD)
   \<and> (payload_is_plain f \<longrightarrow> unat (size_payload f) = unat (size_content f))"
proof -
  have server: "w AND FRAGMENT_FLAGS_SERVER_MANAGED_INGRESS_REJECTED = 0 \<longleftrightarrow>
      w AND PayloadObliteration = 0 \<and> w AND PayloadDoNotReplicate = 0" for w
    by (simp add: FRAGMENT_FLAGS_SERVER_MANAGED_INGRESS_REJECTED_def
        bit.conj_disj_distrib or_eq_0_iff)
  show ?thesis
    unfolding validate_fragment_metadata_ok_iff fragment_metadata_is_valid_def
      fragment_is_consistent_def Let_def count_ones_le_1_iff payload_is_plain_iff server
    by auto
qed

theorem validate_fragment_metadata_accepts_witness:
  "validate_fragment_metadata \<lparr>flags = 0x100008, size_payload = 100, size_content = 4000\<rparr> = Inr ()"
  unfolding validate_fragment_metadata_accepts
  by (simp add: flag_simps FRAGMENT_SIZE_THRESHOLD_def payload_is_plain_def count_ones_def upt_rec)

text \<open>
  C9. The local store's gate of a put is one check in two forms: when enforcement is on, the
  diagnostic path lets a put through exactly when the one-expression check holds, so a put is never
  stored with a refused header nor refused without a reason. A put that passes also passes the
  size checks that are made without enforcement.
\<close>

theorem refuse_put_iff_put_is_valid:
  "(refuse_put f payload_len True = Inr () \<longleftrightarrow> put_is_valid f payload_len) \<and>
   (put_is_valid f payload_len \<longrightarrow> refuse_put f payload_len False = Inr ())"
  by (auto simp: refuse_put_def put_is_valid_def bind_result_Inr_iff refuse_inconsistency_ok_iff
      validate_fragment_payload_ok_iff consistent_size_ok split: option.splits if_splits)

theorem refuse_put_iff_put_is_valid_witness:
  "put_is_valid \<lparr>flags = 1, size_payload = 80, size_content = 600000\<rparr> (Some 80) \<and>
   refuse_put \<lparr>flags = 1, size_payload = 80, size_content = 600000\<rparr> (Some 80) False = Inr ()"
proof -
  have "put_is_valid \<lparr>flags = 1, size_payload = 80, size_content = 600000\<rparr> (Some 80)"
    by (simp add: put_is_valid_def fragment_is_consistent_def flag_simps
        FRAGMENT_SIZE_THRESHOLD_def size_of_FragmentReference_def)
  with refuse_put_iff_put_is_valid show ?thesis by blast
qed

text \<open>
  C10. Every fragment the ingress check lets into a store is one a reader accepts as a peer's answer,
  and stays acceptable once the flags describing where it is stored are set on it.
\<close>

theorem ingress_valid_response_valid:
  assumes "validate_fragment_metadata f = Inr ()"
  shows "validate_fragment_response (f\<lparr>flags := flags f OR (m AND PayloadStored)\<rparr>) = Inr ()"
proof -
  have "(flags f OR (m AND PayloadStored)) AND PayloadFragmented = flags f AND PayloadFragmented"
    "(flags f OR (m AND PayloadStored)) AND PayloadCompressed = flags f AND PayloadCompressed"
    by (simp_all add: bit.conj_disj_distrib2 and.assoc flag_simps)
  with assms show ?thesis
    unfolding validate_fragment_metadata_ok_iff fragment_metadata_is_valid_def
      fragment_is_consistent_def validate_fragment_response_def unat_eq_0_u32 [of "size_payload _"]
    by (auto simp: Let_def)
qed

theorem ingress_valid_response_valid_witness:
  "validate_fragment_metadata \<lparr>flags = 1, size_payload = 80, size_content = 600000\<rparr> = Inr () \<and>
   validate_fragment_response
     \<lparr>flags = 0x100001, size_payload = 80, size_content = 600000\<rparr> = Inr ()"
proof -
  have "validate_fragment_metadata \<lparr>flags = 1, size_payload = 80, size_content = 600000\<rparr> = Inr ()"
    by (simp add: validate_fragment_metadata_def fragment_metadata_is_valid_def
        fragment_is_consistent_def flag_simps FRAGMENT_SIZE_THRESHOLD_def)
  from this ingress_valid_response_valid [OF this, of PayloadStoredLocal] show ?thesis
    by (simp add: flag_simps)
qed

text \<open>
  C11. A payload passes as a fragment list exactly when it is the layout of at least two references
  whose offsets increase strictly and all lie in the content window, which starts at the first
  offset, is as long as the content, and ends within 64 bits.
\<close>

theorem validate_fragment_list_accepts:
  "validate_fragment_list f payload = Inr () \<longleftrightarrow>
     (\<exists>rs. payload = list_as_bytes rs \<and> unat (size_payload f) = 40 * length rs \<and>
        2 \<le> length rs \<and> sorted_wrt (<) (map offset_content rs) \<and>
        unat (offset_content (hd rs)) + unat (size_content f) < U64_RANGE \<and>
        (\<forall>r\<in>set rs. unat (offset_content (hd rs)) \<le> unat (offset_content r) \<and>
           unat (offset_content r) < unat (offset_content (hd rs)) + unat (size_content f)))"
proof (cases "unat (size_payload f) mod 40 = 0 \<and> length payload = unat (size_payload f)")
  case True
  then obtain rs where "payload = list_as_bytes rs"
    using list_as_bytes_surj [of payload "unat (size_payload f) div 40"] by auto
  then show ?thesis
    by (auto simp: validate_fragment_list_as_bytes list_window_ok_def list_as_bytes_inject)
next
  case False
  then show ?thesis
    by (auto simp: validate_fragment_list_def size_of_FragmentReference_def)
qed

theorem validate_fragment_list_accepts_witness:
  "validate_fragment_list \<lparr>flags = 1, size_payload = 80, size_content = 600000\<rparr>
     (list_as_bytes [FragmentReference (Hash 7) 0, FragmentReference (Hash 9) 262144]) = Inr ()"
  unfolding validate_fragment_list_accepts
  by (intro exI [of _ "[FragmentReference (Hash 7) 0, FragmentReference (Hash 9) 262144]"]) simp

end
