(* ===== verification/Chunker.thy ===== *)
theory Chunker
  imports Fragment_Validation
begin

text \<open>
  Cutting content into chunks: \<open>chunk_boundaries\<close> of \<open>lore-storage/src/fragment_engine.rs\<close>
  cuts a buffer in one go, \<open>FileChunker\<close> of \<open>lore-storage/src/chunker.rs\<close> cuts a file
  through two windows and never holds it whole. The two must agree, since a boundary is part of
  every fragment hash in a repository; that they do is the main result of this theory.

  The \<open>fastcdc\<close> crate is a parameter \<open>cdc\<close>: the length of the first chunk it cuts from
  a source. Its iterator cuts the rest of the source the same way, so the position of an iterator is
  all its state. A file is a parameter \<open>rd\<close>: what an exact read of so many bytes at an offset
  gives, which is the bytes or an error. Uninitialised window memory is a parameter too.
\<close>

section \<open>The chunker of the \<open>fastcdc\<close> crate\<close>

type_synonym cdc = "bytes \<Rightarrow> nat"

definition fastcdc_next :: "cdc \<Rightarrow> bytes \<Rightarrow> nat \<Rightarrow> (nat \<times> nat) option" where
  "fastcdc_next cdc source pos =
     (if length source \<le> pos then None else Some (pos, cdc (drop pos source)))"

text \<open>
  What the crate documents and the sources rely on: a chunk is not empty and at most the maximum
  size, and where it ends depends on no byte beyond the maximum size.
\<close>

definition cdc_spec :: "cdc \<Rightarrow> bool" where
  "cdc_spec cdc \<longleftrightarrow>
     (\<forall>bs. bs \<noteq> [] \<longrightarrow>
        0 < cdc bs \<and> cdc bs \<le> length bs \<and> cdc bs \<le> FRAGMENT_SIZE_THRESHOLD \<and>
        cdc (take FRAGMENT_SIZE_THRESHOLD bs) = cdc bs)"

text \<open>
  Every chunk of a source from a position on. A chunk of length zero, which the documented
  behaviour excludes, ends the iteration here.
\<close>

function fastcdc_chunks :: "cdc \<Rightarrow> bytes \<Rightarrow> nat \<Rightarrow> (nat \<times> nat) list" where
  "fastcdc_chunks cdc source pos =
     (case fastcdc_next cdc source pos of
        None \<Rightarrow> []
      | Some (offset, len) \<Rightarrow>
          if len = 0 then [(offset, len)]
          else (offset, len) # fastcdc_chunks cdc source (offset + len))"
  by pat_completeness auto
termination
  by (relation "measure (\<lambda>(cdc, source, pos). length source - pos)")
    (auto simp: fastcdc_next_def split: if_splits)

section \<open>Cutting a buffer in one go\<close>

text \<open>The offsets \<open>(0..size).step_by(step)\<close>.\<close>

definition step_by :: "nat \<Rightarrow> nat \<Rightarrow> nat list" where
  "step_by sz step = map (\<lambda>i. i * step) [0..<(sz + step - 1) div step]"

definition chunk_boundaries :: "cdc \<Rightarrow> bytes \<Rightarrow> nat option \<Rightarrow> (nat \<times> nat) list" where
  "chunk_boundaries cdc buffer cut_size =
     (case cut_size of
        Some step \<Rightarrow>
          map (\<lambda>offset. (offset, min (offset + step) (length buffer))) (step_by (length buffer) step)
      | None \<Rightarrow>
          map (\<lambda>(offset, len). (offset, offset + len)) (fastcdc_chunks cdc buffer 0))"

section \<open>The file chunker\<close>

definition WINDOW_SIZE :: nat where
  "WINDOW_SIZE = 2 * FRAGMENT_SIZE_THRESHOLD"

datatype chunk = Chunk (chunk_offset: nat) (chunk_data: bytes)

datatype cut_mode = ContentDefined | FixedSize nat

type_synonym io_read = "nat \<Rightarrow> nat \<Rightarrow> bytes result"

record pending_read =
  task :: "bytes result"
  want :: nat

record file_chunker =
  window :: bytes
  head :: nat
  fc_length :: nat
  headroom :: nat
  decided :: nat
  ready :: "(nat \<times> nat) list"
  failed :: bool
  pending :: "pending_read option"
  spare :: "bytes option"
  base :: nat
  read_offset :: nat
  file_size :: nat
  eof :: bool
  mode :: cut_mode

text \<open>\<open>FileChunker::open\<close>; \<open>uninit n\<close> is fresh memory of \<open>n\<close> bytes.\<close>

definition open_chunker :: "(nat \<Rightarrow> bytes) \<Rightarrow> nat \<Rightarrow> cut_mode \<Rightarrow> file_chunker" where
  "open_chunker uninit sz m =
     (let capacity = min sz WINDOW_SIZE;
          single_read = sz \<le> WINDOW_SIZE;
          room = (if single_read then 0 else FRAGMENT_SIZE_THRESHOLD)
      in \<lparr>window = uninit capacity, head = room, fc_length = 0, headroom = room, decided = 0,
          ready = [], failed = False, pending = None,
          spare = (if \<not> single_read then Some (uninit capacity) else None),
          base = 0, read_offset = 0, file_size = sz, eof = False, mode = m\<rparr>)"

definition content_defined :: "(nat \<Rightarrow> bytes) \<Rightarrow> nat \<Rightarrow> file_chunker" where
  "content_defined uninit sz = open_chunker uninit sz ContentDefined"

definition fixed_size :: "(nat \<Rightarrow> bytes) \<Rightarrow> nat \<Rightarrow> nat \<Rightarrow> file_chunker" where
  "fixed_size uninit sz chunk_size =
     open_chunker uninit sz (FixedSize (max 1 (min chunk_size FRAGMENT_SIZE_THRESHOLD)))"

definition read_window :: "io_read \<Rightarrow> bytes \<Rightarrow> nat \<Rightarrow> nat \<Rightarrow> nat \<Rightarrow> bytes result" where
  "read_window rd buffer start n offset =
     bind_result (rd offset n) (\<lambda>bs. Inr (take start buffer @ bs @ drop (start + n) buffer))"

definition start_read :: "io_read \<Rightarrow> file_chunker \<Rightarrow> bytes \<Rightarrow> pending_read" where
  "start_read rd s buffer =
     (let start = headroom s;
          offset = read_offset s;
          remaining = file_size s - offset;
          n = min (length buffer - start) remaining
      in \<lparr>task = read_window rd buffer start n offset, want = n\<rparr>)"

definition issue_read :: "io_read \<Rightarrow> file_chunker \<Rightarrow> file_chunker" where
  "issue_read rd s =
     (if pending s \<noteq> None \<or> read_offset s \<ge> file_size s then s
      else case spare s of
        None \<Rightarrow> s
      | Some target \<Rightarrow>
          let s' = s\<lparr>spare := None\<rparr> in s'\<lparr>pending := Some (start_read rd s' target)\<rparr>)"

text \<open>
  The read to wait for: the one in flight, or one started now into the spare window or, for a file
  of a single read, into the window itself.
\<close>

definition claim_read :: "io_read \<Rightarrow> file_chunker \<Rightarrow> pending_read \<times> file_chunker" where
  "claim_read rd s =
     (case pending s of
        Some p \<Rightarrow> (p, s\<lparr>pending := None\<rparr>)
      | None \<Rightarrow>
          (case spare s of
             Some target \<Rightarrow> let s' = s\<lparr>spare := None\<rparr> in (start_read rd s' target, s')
           | None \<Rightarrow> let s' = s\<lparr>window := []\<rparr> in (start_read rd s' (window s), s')))"

definition take_read :: "io_read \<Rightarrow> file_chunker \<Rightarrow> (bytes \<times> nat) result \<times> file_chunker" where
  "take_read rd s =
     (let (p, s1) = claim_read rd s
      in case task p of
           Inl _ \<Rightarrow> (Inl (Internal ''read file for chunking''), s1)
         | Inr buffer \<Rightarrow>
             let s2 = s1\<lparr>read_offset := read_offset s1 + want p\<rparr>;
                 s3 = (if read_offset s2 \<ge> file_size s2 then s2\<lparr>eof := True\<rparr> else s2)
             in (Inr (buffer, want p), s3))"

definition swap_in :: "file_chunker \<Rightarrow> bytes \<Rightarrow> nat \<Rightarrow> file_chunker" where
  "swap_in s buffer rd_len =
     (let remainder = fc_length s - decided s;
          hd' = headroom s - remainder;
          carried = slice_of (head s + decided s) (head s + fc_length s) (window s);
          buffer' = take hd' buffer @ carried @ drop (headroom s) buffer
      in s\<lparr>spare := Some (window s), window := buffer', base := base s + decided s, head := hd',
           fc_length := remainder + rd_len, decided := 0\<rparr>)"

function cut_fixed_loop ::
  "nat \<Rightarrow> nat \<Rightarrow> bool \<Rightarrow> nat \<Rightarrow> nat \<Rightarrow> (nat \<times> nat) list \<Rightarrow> nat \<times> (nat \<times> nat) list" where
  "cut_fixed_loop hd' len at_eof sz dec rdy =
     (if dec < len then
        let remaining = len - dec
        in if remaining \<ge> sz then
             (if sz = 0 then (dec, rdy)
              else cut_fixed_loop hd' len at_eof sz (dec + sz) (rdy @ [(hd' + dec, sz)]))
           else if at_eof then
             cut_fixed_loop hd' len at_eof sz (dec + remaining) (rdy @ [(hd' + dec, remaining)])
           else (dec, rdy)
      else (dec, rdy))"
  by pat_completeness auto
termination
  by (relation "measure (\<lambda>(h, len, e, sz, dec, r). len - dec)") auto

definition cut_fixed :: "file_chunker \<Rightarrow> nat \<Rightarrow> file_chunker" where
  "cut_fixed s sz =
     (let (dec, rdy) = cut_fixed_loop (head s) (fc_length s) (eof s) sz 0 (ready s)
      in s\<lparr>ready := rdy, decided := dec\<rparr>)"

function cut_on_content_loop ::
  "cdc \<Rightarrow> nat \<Rightarrow> bytes \<Rightarrow> bool \<Rightarrow> nat \<Rightarrow> (nat \<times> nat) list \<Rightarrow> nat \<times> (nat \<times> nat) list" where
  "cut_on_content_loop cdc hd' source at_eof dec rdy =
     (if \<not> at_eof \<and> dec + FRAGMENT_SIZE_THRESHOLD > length source then (dec, rdy)
      else case fastcdc_next cdc source dec of
        None \<Rightarrow> (dec, rdy)
      | Some (offset, len) \<Rightarrow>
          if len = 0 then (dec, rdy)
          else cut_on_content_loop cdc hd' source at_eof (offset + len) (rdy @ [(hd' + offset, len)]))"
  by pat_completeness auto
termination
  by (relation "measure (\<lambda>(c, h, source, e, dec, r). length source - dec)")
    (auto simp: fastcdc_next_def split: if_splits)

definition cut_on_content :: "cdc \<Rightarrow> file_chunker \<Rightarrow> file_chunker" where
  "cut_on_content cdc s =
     (let source = slice_of (head s) (head s + fc_length s) (window s);
          (dec, rdy) = cut_on_content_loop cdc (head s) source (eof s) 0 (ready s)
      in s\<lparr>ready := rdy, decided := dec\<rparr>)"

definition cut :: "cdc \<Rightarrow> file_chunker \<Rightarrow> file_chunker" where
  "cut cdc s = (case mode s of ContentDefined \<Rightarrow> cut_on_content cdc s | FixedSize n \<Rightarrow> cut_fixed s n)"

definition advance :: "io_read \<Rightarrow> cdc \<Rightarrow> file_chunker \<Rightarrow> unit result \<times> file_chunker" where
  "advance rd cdc s =
     (case take_read rd s of
        (Inl e, s1) \<Rightarrow> (Inl e, s1)
      | (Inr (buffer, n), s1) \<Rightarrow> (Inr (), issue_read rd (cut cdc (swap_in s1 buffer n))))"

partial_function (option) next_chunk_loop ::
  "io_read \<Rightarrow> cdc \<Rightarrow> file_chunker \<Rightarrow> (chunk option result \<times> file_chunker) option" where
  "next_chunk_loop rd cdc s =
     (case ready s of
        (offset, len) # rest \<Rightarrow>
          Some (Inr (Some (Chunk (base s + (offset - head s))
                    (slice_of offset (offset + len) (window s)))), s\<lparr>ready := rest\<rparr>)
      | [] \<Rightarrow>
          if eof s then Some (Inr None, s)
          else case advance rd cdc s of
            (Inl e, s') \<Rightarrow> Some (Inl e, s'\<lparr>failed := True\<rparr>)
          | (Inr _, s') \<Rightarrow> next_chunk_loop rd cdc s')"

definition next_chunk ::
  "io_read \<Rightarrow> cdc \<Rightarrow> file_chunker \<Rightarrow> (chunk option result \<times> file_chunker) option" where
  "next_chunk rd cdc s =
     (if failed s then Some (Inl (Internal ''chunker was used again after a read failure''), s)
      else next_chunk_loop rd cdc s)"

text \<open>A caller's loop over \<open>next_chunk\<close>: every chunk up to the end, or the error.\<close>

partial_function (option) drain_chunks ::
  "io_read \<Rightarrow> cdc \<Rightarrow> file_chunker \<Rightarrow> chunk list \<Rightarrow> chunk list result option" where
  "drain_chunks rd cdc s acc =
     (case next_chunk rd cdc s of
        None \<Rightarrow> None
      | Some (Inl e, _) \<Rightarrow> Some (Inl e)
      | Some (Inr None, _) \<Rightarrow> Some (Inr acc)
      | Some (Inr (Some c), s') \<Rightarrow> drain_chunks rd cdc s' (acc @ [c]))"

declare fastcdc_chunks.simps [simp del] cut_fixed_loop.simps [simp del]
  cut_on_content_loop.simps [simp del]

section \<open>Cuts of a whole source\<close>

lemma fastcdc_chunks_end: "length source \<le> pos \<Longrightarrow> fastcdc_chunks cdc source pos = []"
  by (subst fastcdc_chunks.simps) (simp add: fastcdc_next_def)

lemma fastcdc_chunks_step:
  assumes "cdc_spec cdc" "pos < length source"
  shows "fastcdc_chunks cdc source pos =
    (pos, cdc (drop pos source)) # fastcdc_chunks cdc source (pos + cdc (drop pos source))"
proof -
  have "0 < cdc (drop pos source)" using assms by (simp add: cdc_spec_def)
  with assms(2) show ?thesis
    by (subst fastcdc_chunks.simps) (simp add: fastcdc_next_def)
qed

lemma cdc_bounds:
  assumes "cdc_spec cdc" "pos < length source"
  shows "0 < cdc (drop pos source)" "pos + cdc (drop pos source) \<le> length source"
    "cdc (drop pos source) \<le> FRAGMENT_SIZE_THRESHOLD"
proof -
  have "drop pos source \<noteq> []" using assms by simp
  with assms(1) have *: "0 < cdc (drop pos source) \<and> cdc (drop pos source) \<le> length (drop pos source) \<and>
      cdc (drop pos source) \<le> FRAGMENT_SIZE_THRESHOLD"
    unfolding cdc_spec_def by blast
  then show "0 < cdc (drop pos source)" "pos + cdc (drop pos source) \<le> length source"
    "cdc (drop pos source) \<le> FRAGMENT_SIZE_THRESHOLD"
    using assms(2) by auto
qed

text \<open>A fixed-size cut is a chunker of the same kind, one that looks at the length only.\<close>

abbreviation fixed_len :: "nat \<Rightarrow> cdc" where
  "fixed_len n \<equiv> (\<lambda>bs. min n (length bs))"

lemma cdc_spec_fixed_len: "0 < n \<Longrightarrow> n \<le> FRAGMENT_SIZE_THRESHOLD \<Longrightarrow> cdc_spec (fixed_len n)"
  by (auto simp: cdc_spec_def)

definition mode_len :: "cdc \<Rightarrow> cut_mode \<Rightarrow> cdc" where
  "mode_len cdc m = (case m of ContentDefined \<Rightarrow> cdc | FixedSize n \<Rightarrow> fixed_len n)"

text \<open>
  The result of cutting a window that holds \<open>n\<close> bytes of the source from \<open>pos\<close> on: the
  boundaries queued are the ones the whole source has there, all of the window is decided at the
  end of the file, and less than a maximum chunk of it stays undecided before.
\<close>

definition cut_ok :: "cdc \<Rightarrow> bytes \<Rightarrow> nat \<Rightarrow> nat \<Rightarrow> bool \<Rightarrow> nat \<Rightarrow> nat \<Rightarrow> (nat \<times> nat) list \<Rightarrow> bool" where
  "cut_ok len source pos n at_eof start dec bnds \<longleftrightarrow>
     dec \<le> n \<and> (at_eof \<longrightarrow> dec = n) \<and> (\<not> at_eof \<longrightarrow> n - dec < FRAGMENT_SIZE_THRESHOLD) \<and>
     fastcdc_chunks len source (pos + start) =
       map (\<lambda>(o', l). (pos + o', l)) bnds @ fastcdc_chunks len source (pos + dec) \<and>
     (\<forall>(o', l) \<in> set bnds. o' + l \<le> n)"

lemma cut_ok_stop:
  "dec \<le> n \<Longrightarrow> (at_eof \<Longrightarrow> dec = n) \<Longrightarrow> (\<not> at_eof \<Longrightarrow> n - dec < FRAGMENT_SIZE_THRESHOLD) \<Longrightarrow>
   cut_ok len source pos n at_eof dec dec []"
  by (auto simp: cut_ok_def)

lemma cut_ok_step:
  assumes "cdc_spec len" "pos + start < length source" "l = len (drop (pos + start) source)"
    "start + l \<le> n" "cut_ok len source pos n at_eof (start + l) dec bnds"
  shows "cut_ok len source pos n at_eof start dec ((start, l) # bnds)"
  using assms fastcdc_chunks_step [OF assms(1,2)] by (auto simp: cut_ok_def add.assoc)

lemma cut_fixed_loop_ok:
  assumes "0 < sz" "sz \<le> FRAGMENT_SIZE_THRESHOLD" "dec \<le> n" "pos + n \<le> length source"
    "at_eof \<longrightarrow> pos + n = length source"
  shows "\<exists>dec' bnds. cut_fixed_loop h n at_eof sz dec rdy =
      (dec', rdy @ map (\<lambda>(o', l). (h + o', l)) bnds) \<and>
      cut_ok (fixed_len sz) source pos n at_eof dec dec' bnds"
  using assms
proof (induction h n at_eof sz dec rdy rule: cut_fixed_loop.induct)
  case (1 h n at_eof sz dec rdy)
  note spec = cdc_spec_fixed_len [OF \<open>0 < sz\<close> \<open>sz \<le> FRAGMENT_SIZE_THRESHOLD\<close>]
  consider "dec = n" | "dec < n" "sz \<le> n - dec" | "dec < n" "n - dec < sz" "at_eof"
    | "dec < n" "n - dec < sz" "\<not> at_eof"
    using \<open>dec \<le> n\<close> by linarith
  then show ?case
  proof cases
    case 1
    then have "cut_fixed_loop h n at_eof sz dec rdy = (dec, rdy @ map (\<lambda>(o', l). (h + o', l)) [])"
      by (subst cut_fixed_loop.simps) simp
    with 1 show ?thesis
      using cut_ok_stop [of dec n at_eof "fixed_len sz" source pos]
      by (metis FRAGMENT_SIZE_THRESHOLD_def diff_self_eq_0 le_refl mult_is_0 not_gr_zero zero_neq_numeral)
  next
    case 2
    then have "dec + sz \<le> n" by linarith
    with 2 "1.prems" obtain dec' bnds where
      loop: "cut_fixed_loop h n at_eof sz (dec + sz) (rdy @ [(h + dec, sz)]) =
        (dec', (rdy @ [(h + dec, sz)]) @ map (\<lambda>(o', l). (h + o', l)) bnds)"
      and ok: "cut_ok (fixed_len sz) source pos n at_eof (dec + sz) dec' bnds"
      using "1.IH"(1) [of "n - dec"] by auto
    have "cut_ok (fixed_len sz) source pos n at_eof dec dec' ((dec, sz) # bnds)"
      using 2 "1.prems" by (intro cut_ok_step [OF spec _ _ _ ok]) auto
    moreover have "cut_fixed_loop h n at_eof sz dec rdy =
        (dec', rdy @ map (\<lambda>(o', l). (h + o', l)) ((dec, sz) # bnds))"
      using loop 2 "1.prems" by (subst cut_fixed_loop.simps) simp
    ultimately show ?thesis by blast
  next
    case 3
    with "1.prems" obtain dec' bnds where
      loop: "cut_fixed_loop h n at_eof sz (dec + (n - dec)) (rdy @ [(h + dec, n - dec)]) =
        (dec', (rdy @ [(h + dec, n - dec)]) @ map (\<lambda>(o', l). (h + o', l)) bnds)"
      and ok: "cut_ok (fixed_len sz) source pos n at_eof (dec + (n - dec)) dec' bnds"
      using "1.IH"(2) [of "n - dec"] by auto
    have "cut_ok (fixed_len sz) source pos n at_eof dec dec' ((dec, n - dec) # bnds)"
      using 3 "1.prems" by (intro cut_ok_step [OF spec _ _ _ ok]) auto
    moreover have "cut_fixed_loop h n at_eof sz dec rdy =
        (dec', rdy @ map (\<lambda>(o', l). (h + o', l)) ((dec, n - dec) # bnds))"
      using loop 3 "1.prems" by (subst cut_fixed_loop.simps) simp
    ultimately show ?thesis by blast
  next
    case 4
    then have "cut_fixed_loop h n at_eof sz dec rdy = (dec, rdy @ map (\<lambda>(o', l). (h + o', l)) [])"
      by (subst cut_fixed_loop.simps) simp
    moreover have "cut_ok (fixed_len sz) source pos n at_eof dec dec []"
      using 4 "1.prems" by (intro cut_ok_stop) auto
    ultimately show ?thesis by blast
  qed
qed

lemma cdc_window:
  assumes "cdc_spec cdc" "src = slice_of pos (pos + n) source" "pos + n \<le> length source" "dec < n"
    "at_eof \<longrightarrow> pos + n = length source" "at_eof \<or> dec + FRAGMENT_SIZE_THRESHOLD \<le> n"
  shows "cdc (drop dec src) = cdc (drop (pos + dec) source)"
proof -
  have same: "take FRAGMENT_SIZE_THRESHOLD (drop dec src) =
      take FRAGMENT_SIZE_THRESHOLD (drop (pos + dec) source)"
    using assms(2-) by (cases at_eof) (auto simp: slice_of_def drop_take min_def add.commute)
  have "drop dec src \<noteq> []" "drop (pos + dec) source \<noteq> []"
    using assms by (auto simp: slice_of_def)
  with assms(1) same show ?thesis
    unfolding cdc_spec_def by metis
qed

lemma cut_on_content_loop_ok:
  assumes "cdc_spec cdc" "src = slice_of pos (pos + n) source" "pos + n \<le> length source"
    "dec \<le> n" "at_eof \<longrightarrow> pos + n = length source"
  shows "\<exists>dec' bnds. cut_on_content_loop cdc h src at_eof dec rdy =
      (dec', rdy @ map (\<lambda>(o', l). (h + o', l)) bnds) \<and>
      cut_ok cdc source pos n at_eof dec dec' bnds"
  using assms
proof (induction cdc h src at_eof dec rdy rule: cut_on_content_loop.induct)
  case (1 cdc h src at_eof dec rdy)
  have len: "length src = n" using "1.prems" by simp
  show ?case
  proof (cases "dec < n \<and> (at_eof \<or> dec + FRAGMENT_SIZE_THRESHOLD \<le> n)")
    case False
    then have "cut_on_content_loop cdc h src at_eof dec rdy =
        (dec, rdy @ map (\<lambda>(o', l). (h + o', l)) [])"
      using len by (subst cut_on_content_loop.simps) (auto simp: fastcdc_next_def)
    moreover have "cut_ok cdc source pos n at_eof dec dec []"
      using False "1.prems" by (intro cut_ok_stop) (auto simp: FRAGMENT_SIZE_THRESHOLD_def)
    ultimately show ?thesis by blast
  next
    case True
    let ?l = "cdc (drop (pos + dec) source)"
    have same: "cdc (drop dec src) = ?l"
      using cdc_window [OF "1.prems"(1-3) _ "1.prems"(5)] True by blast
    have bounds: "0 < ?l" "dec + ?l \<le> n"
      using cdc_bounds [OF "1.prems"(1), of dec src] True len same by auto
    have next_eq: "fastcdc_next cdc src dec = Some (dec, ?l)"
      using True len same by (simp add: fastcdc_next_def)
    obtain dec' bnds where
      loop: "cut_on_content_loop cdc h src at_eof (dec + ?l) (rdy @ [(h + dec, ?l)]) =
        (dec', (rdy @ [(h + dec, ?l)]) @ map (\<lambda>(o', l). (h + o', l)) bnds)"
      and ok: "cut_ok cdc source pos n at_eof (dec + ?l) dec' bnds"
      using "1.IH" [OF _ next_eq, of dec ?l] True bounds "1.prems" len by auto
    have "cut_ok cdc source pos n at_eof dec dec' ((dec, ?l) # bnds)"
      using True "1.prems" bounds by (intro cut_ok_step [OF _ _ _ _ ok]) auto
    moreover have "cut_on_content_loop cdc h src at_eof dec rdy =
        (dec', rdy @ map (\<lambda>(o', l). (h + o', l)) ((dec, ?l) # bnds))"
      using loop next_eq True bounds len by (subst cut_on_content_loop.simps) auto
    ultimately show ?thesis by blast
  qed
qed

section \<open>The invariant of the file chunker\<close>

text \<open>
  \<open>rd\<close> reads \<open>source\<close>: an exact read within it gives its bytes. The window holds the bytes
  of the source from \<open>base\<close> to the read position, the queued boundaries lie in it, and unless
  the file is exhausted a buffer for the next read is at hand: the only window before the single
  read of a small file, or one of two equal windows, free or being read into.
\<close>

definition reads :: "io_read \<Rightarrow> bytes \<Rightarrow> bool" where
  "reads rd source \<longleftrightarrow> (\<forall>o' n. o' + n \<le> length source \<longrightarrow> rd o' n = Inr (slice_of o' (o' + n) source))"

definition mode_ok :: "cut_mode \<Rightarrow> bool" where
  "mode_ok m = (case m of ContentDefined \<Rightarrow> True
     | FixedSize n \<Rightarrow> 0 < n \<and> n \<le> FRAGMENT_SIZE_THRESHOLD)"

definition window_inv :: "bytes \<Rightarrow> file_chunker \<Rightarrow> bool" where
  "window_inv source s \<longleftrightarrow>
     file_size s = length source \<and> decided s \<le> fc_length s \<and>
     base s + fc_length s = read_offset s \<and> read_offset s \<le> length source \<and>
     slice_of (head s) (head s + fc_length s) (window s) =
       slice_of (base s) (base s + fc_length s) source \<and>
     (\<forall>(o', l) \<in> set (ready s). head s \<le> o' \<and> o' + l \<le> head s + fc_length s) \<and>
     mode_ok (mode s)"

definition next_buffer :: "io_read \<Rightarrow> file_chunker \<Rightarrow> bool" where
  "next_buffer rd s \<longleftrightarrow>
     (pending s = None \<and> spare s = None \<and> fc_length s = 0 \<and> headroom s = 0 \<and> base s = 0 \<and>
        length (window s) = file_size s) \<or>
     (headroom s = FRAGMENT_SIZE_THRESHOLD \<and> FRAGMENT_SIZE_THRESHOLD < length (window s) \<and>
        read_offset s < file_size s \<and>
        (\<exists>target. length target = length (window s) \<and>
           ((pending s = None \<and> spare s = Some target) \<or>
            (spare s = None \<and> pending s = Some (start_read rd s target)))))"

definition fc_inv :: "io_read \<Rightarrow> bytes \<Rightarrow> file_chunker \<Rightarrow> bool" where
  "fc_inv rd source s \<longleftrightarrow>
     window_inv source s \<and> \<not> failed s \<and>
     (eof s \<longrightarrow> decided s = fc_length s \<and> read_offset s = length source) \<and>
     (\<not> eof s \<longrightarrow> fc_length s - decided s \<le> headroom s \<and> next_buffer rd s)"

text \<open>The chunks still to come from a state: the queued ones, then the rest of the source's.\<close>

definition queued :: "file_chunker \<Rightarrow> (nat \<times> nat) list" where
  "queued s = map (\<lambda>(o', l). (base s + (o' - head s), l)) (ready s)"

definition to_come :: "cdc \<Rightarrow> bytes \<Rightarrow> file_chunker \<Rightarrow> (nat \<times> nat) list" where
  "to_come len source s = queued s @ fastcdc_chunks len source (base s + decided s)"

lemma start_read_update [simp]:
  "start_read rd (s\<lparr>spare := x\<rparr>) = start_read rd s"
  "start_read rd (s\<lparr>pending := y\<rparr>) = start_read rd s"
  "start_read rd (s\<lparr>window := w\<rparr>) = start_read rd s"
  "start_read rd (s\<lparr>ready := r\<rparr>) = start_read rd s"
  by (simp_all add: start_read_def fun_eq_iff Let_def)

lemma start_read_ok:
  assumes "reads rd source" "file_size s = length source" "read_offset s \<le> length source"
    "headroom s \<le> length target" "n = min (length target - headroom s) (length source - read_offset s)"
  shows "start_read rd s target =
    \<lparr>task = Inr (take (headroom s) target @ slice_of (read_offset s) (read_offset s + n) source
         @ drop (headroom s + n) target), want = n\<rparr>"
  using assms by (simp add: start_read_def read_window_def Let_def reads_def)

text \<open>What a read hands over, and what stays of the state.\<close>

lemma claim_read_ok:
  assumes "next_buffer rd s"
  shows "\<exists>target w. claim_read rd s =
      (start_read rd s target, s\<lparr>pending := None, spare := None, window := w\<rparr>) \<and>
    (w = window s \<or> fc_length s = 0) \<and> headroom s \<le> length target \<and>
    (headroom s = 0 \<and> base s = 0 \<and> fc_length s = 0 \<and> length target = file_size s \<or>
     headroom s = FRAGMENT_SIZE_THRESHOLD \<and> FRAGMENT_SIZE_THRESHOLD < length w \<and>
     length target = length w \<and> read_offset s < file_size s)"
  using assms [unfolded next_buffer_def]
proof (elim disjE conjE exE)
  assume a: "pending s = None" "spare s = None" "fc_length s = 0" "headroom s = 0" "base s = 0"
    "length (window s) = file_size s"
  then have "claim_read rd s =
      (start_read rd s (window s), s\<lparr>pending := None, spare := None, window := []\<rparr>)"
    by (simp add: claim_read_def Let_def)
  with a show ?thesis by auto
next
  fix target :: bytes
  assume a: "headroom s = FRAGMENT_SIZE_THRESHOLD" "FRAGMENT_SIZE_THRESHOLD < length (window s)"
    "read_offset s < file_size s" "length target = length (window s)"
    "pending s = None" "spare s = Some target"
  then have "claim_read rd s =
      (start_read rd s target, s\<lparr>pending := None, spare := None, window := window s\<rparr>)"
    by (simp add: claim_read_def Let_def)
  with a show ?thesis by (metis less_imp_le_nat)
next
  fix target :: bytes
  assume a: "headroom s = FRAGMENT_SIZE_THRESHOLD" "FRAGMENT_SIZE_THRESHOLD < length (window s)"
    "read_offset s < file_size s" "length target = length (window s)"
    "spare s = None" "pending s = Some (start_read rd s target)"
  then have "claim_read rd s =
      (start_read rd s target, s\<lparr>pending := None, spare := None, window := window s\<rparr>)"
    by (simp add: claim_read_def Let_def)
  with a show ?thesis by (metis less_imp_le_nat)
qed

lemma swap_in_ok:
  assumes inv: "window_inv source s" "ready s = []" "fc_length s - decided s \<le> headroom s"
    and w: "w = window s \<or> fc_length s = 0" and len: "headroom s + n \<le> length target"
    and n: "read_offset s + n \<le> length source"
    and buffer: "buffer = take (headroom s) target @
        slice_of (read_offset s) (read_offset s + n) source @ drop (headroom s + n) target"
    and s1: "s1 = s\<lparr>pending := None, spare := None, window := w, read_offset := read_offset s + n,
        eof := e\<rparr>"
    and s2: "s2 = swap_in s1 buffer n"
  shows "window_inv source s2" "base s2 = base s + decided s" "decided s2 = 0" "ready s2 = []"
    "length (window s2) = length target" "spare s2 = Some w"
proof -
  let ?r = "fc_length s - decided s"
  let ?carried = "slice_of (head s + decided s) (head s + fc_length s) w"
  have win: "decided s \<le> fc_length s" "base s + fc_length s = read_offset s" "file_size s = length source"
    "slice_of (head s) (head s + fc_length s) (window s) =
      slice_of (base s) (base s + fc_length s) source" "mode_ok (mode s)"
    using inv by (auto simp: window_inv_def)
  have carried: "?carried = slice_of (base s + decided s) (read_offset s) source"
  proof -
    have "drop (decided s) (slice_of (head s) (head s + fc_length s) (window s)) =
        drop (decided s) (slice_of (base s) (base s + fc_length s) source)"
      using win(4) by simp
    then show ?thesis
      using w win(1,2) by (auto simp: slice_of_def drop_take add.commute)
  qed
  have lc: "length ?carried = ?r"
    unfolding carried using win(1,2) n by simp
  have window2: "window s2 = take (headroom s - ?r) target @
      (?carried @ slice_of (read_offset s) (read_offset s + n) source) @ drop (headroom s + n) target"
    using s1 s2 buffer len by (simp add: swap_in_def Let_def)
  have fields: "head s2 = headroom s - ?r" "fc_length s2 = ?r + n" "decided s2 = 0" "ready s2 = []"
      "base s2 = base s + decided s" "read_offset s2 = read_offset s + n"
      "file_size s2 = length source" "mode s2 = mode s" "spare s2 = Some w"
    using s1 s2 inv(2) win(3) by (simp_all add: swap_in_def Let_def)
  have both: "?carried @ slice_of (read_offset s) (read_offset s + n) source =
      slice_of (base s + decided s) (read_offset s + n) source"
    unfolding carried by (rule slice_of_append) (use win(1,2) in auto)
  have "slice_of (head s2) (head s2 + fc_length s2) (window s2) =
      slice_of (base s + decided s) (read_offset s + n) source"
    unfolding window2 both fields(1,2)
    by (rule slice_of_mid) (use len inv(3) win(1,2) n in auto)
  moreover have "read_offset s + n = base s2 + fc_length s2"
    using fields win(1,2) by simp
  moreover have "length (window s2) = length target"
    using window2 lc len inv(3) n by simp
  ultimately show "window_inv source s2" "base s2 = base s + decided s" "decided s2 = 0"
    "ready s2 = []" "length (window s2) = length target" "spare s2 = Some w"
    using fields(3-) win(5) n by (auto simp: window_inv_def)
qed

lemma cut_inv:
  assumes inv: "window_inv source s" "ready s = []" "eof s \<longrightarrow> read_offset s = length source"
    and cdc: "cdc_spec (mode_len cdc (mode s))"
  shows "\<exists>dec bnds. cut cdc s = s\<lparr>ready := map (\<lambda>(o', l). (head s + o', l)) bnds, decided := dec\<rparr> \<and>
    cut_ok (mode_len cdc (mode s)) source (base s) (fc_length s) (eof s) 0 dec bnds"
proof -
  have w: "base s + fc_length s \<le> length source" "eof s \<longrightarrow> base s + fc_length s = length source"
    "slice_of (head s) (head s + fc_length s) (window s) =
      slice_of (base s) (base s + fc_length s) source" "mode_ok (mode s)"
    using inv by (auto simp: window_inv_def)
  show ?thesis
  proof (cases "mode s")
    case ContentDefined
    then have len: "mode_len cdc (mode s) = cdc" by (simp add: mode_len_def)
    with cdc obtain dec bnds where
      "cut_on_content_loop cdc (head s) (slice_of (head s) (head s + fc_length s) (window s)) (eof s)
        0 (ready s) = (dec, ready s @ map (\<lambda>(o', l). (head s + o', l)) bnds)"
      "cut_ok cdc source (base s) (fc_length s) (eof s) 0 dec bnds"
      using cut_on_content_loop_ok [OF _ w(3,1) _ w(2), of cdc 0 "head s" "ready s"] by auto
    with ContentDefined inv(2) show ?thesis
      unfolding len by (intro exI [of _ dec] exI [of _ bnds]) (simp add: cut_def cut_on_content_def)
  next
    case (FixedSize n)
    then have len: "mode_len cdc (mode s) = fixed_len n" by (simp add: mode_len_def)
    from FixedSize w(4) obtain dec bnds where
      "cut_fixed_loop (head s) (fc_length s) (eof s) n 0 (ready s) =
        (dec, ready s @ map (\<lambda>(o', l). (head s + o', l)) bnds)"
      "cut_ok (fixed_len n) source (base s) (fc_length s) (eof s) 0 dec bnds"
      using cut_fixed_loop_ok [OF _ _ _ w(1,2), of n 0 "head s" "ready s"]
      by (auto simp: mode_ok_def)
    with FixedSize inv(2) show ?thesis
      unfolding len by (intro exI [of _ dec] exI [of _ bnds]) (simp add: cut_def cut_fixed_def)
  qed
qed

lemma swap_in_fields [simp]:
  "headroom (swap_in s b n) = headroom s" "eof (swap_in s b n) = eof s"
  "failed (swap_in s b n) = failed s" "pending (swap_in s b n) = pending s"
  "mode (swap_in s b n) = mode s" "read_offset (swap_in s b n) = read_offset s"
  "file_size (swap_in s b n) = file_size s"
  by (simp_all add: swap_in_def Let_def)

lemma take_read_ok:
  assumes rd: "reads rd source" and inv: "window_inv source s" "\<not> eof s" "next_buffer rd s"
  shows "\<exists>n target w s1. take_read rd s =
      (Inr (take (headroom s) target @ slice_of (read_offset s) (read_offset s + n) source
         @ drop (headroom s + n) target, n), s1) \<and>
    s1 = s\<lparr>pending := None, spare := None, window := w, read_offset := read_offset s + n,
        eof := (length source \<le> read_offset s + n)\<rparr> \<and>
    (w = window s \<or> fc_length s = 0) \<and> headroom s + n \<le> length target \<and>
    read_offset s + n \<le> length source \<and> (eof s1 \<or> read_offset s < read_offset s1) \<and>
    (eof s1 \<or> headroom s = FRAGMENT_SIZE_THRESHOLD \<and> FRAGMENT_SIZE_THRESHOLD < length w \<and>
       length target = length w)"
proof -
  have w: "file_size s = length source" "read_offset s \<le> length source" "base s + fc_length s = read_offset s"
    using inv by (auto simp: window_inv_def)
  obtain target w where claim: "claim_read rd s =
        (start_read rd s target, s\<lparr>pending := None, spare := None, window := w\<rparr>)"
    and t: "w = window s \<or> fc_length s = 0" "headroom s \<le> length target"
    and c: "headroom s = 0 \<and> base s = 0 \<and> fc_length s = 0 \<and> length target = file_size s \<or>
     headroom s = FRAGMENT_SIZE_THRESHOLD \<and> FRAGMENT_SIZE_THRESHOLD < length w \<and>
     length target = length w \<and> read_offset s < file_size s"
    using claim_read_ok [OF inv(3)] by blast
  let ?n = "min (length target - headroom s) (length source - read_offset s)"
  let ?s1 = "s\<lparr>pending := None, spare := None, window := w, read_offset := read_offset s + ?n,
        eof := (length source \<le> read_offset s + ?n)\<rparr>"
  have take: "take_read rd s = (Inr (take (headroom s) target @
      slice_of (read_offset s) (read_offset s + ?n) source @ drop (headroom s + ?n) target, ?n), ?s1)"
    using inv(2) w(1) by (simp add: take_read_def claim Let_def start_read_ok [OF rd w(1,2) t(2) refl])
  have progress: "eof ?s1 \<or> read_offset s < read_offset ?s1" using c w by auto
  have buffers: "eof ?s1 \<or> headroom s = FRAGMENT_SIZE_THRESHOLD \<and>
      FRAGMENT_SIZE_THRESHOLD < length w \<and> length target = length w" using c w by auto
  show ?thesis
    by (rule exI [of _ ?n], rule exI [of _ target], rule exI [of _ w], rule exI [of _ ?s1])
      (use take progress buffers t w in \<open>intro conjI; simp\<close>)
qed

lemma cut_keeps_window_inv:
  assumes "window_inv source s" "cut_ok len source (base s) (fc_length s) e 0 dec bnds"
  shows "window_inv source (s\<lparr>ready := map (\<lambda>(o', l). (head s + o', l)) bnds, decided := dec\<rparr>)"
  using assms by (auto simp: window_inv_def cut_ok_def)

lemma cut_to_come:
  assumes "cut_ok len source (base s) (fc_length s) e 0 dec bnds" "decided s = 0" "ready s = []"
  shows "to_come len source (s\<lparr>ready := map (\<lambda>(o', l). (head s + o', l)) bnds, decided := dec\<rparr>) =
    to_come len source s"
  using assms by (simp add: cut_ok_def to_come_def queued_def split_def comp_def)

lemma issue_read_ok:
  assumes "window_inv source s" "\<not> failed s" "pending s = None"
    "eof s \<longleftrightarrow> length source \<le> read_offset s" "eof s \<longrightarrow> decided s = fc_length s"
    "\<not> eof s \<longrightarrow> fc_length s - decided s < FRAGMENT_SIZE_THRESHOLD"
    "\<not> eof s \<longrightarrow> headroom s = FRAGMENT_SIZE_THRESHOLD \<and> FRAGMENT_SIZE_THRESHOLD < length (window s) \<and>
       (\<exists>target. spare s = Some target \<and> length target = length (window s))"
  shows "fc_inv rd source (issue_read rd s) \<and> mode (issue_read rd s) = mode s \<and>
    to_come len source (issue_read rd s) = to_come len source s \<and>
    eof (issue_read rd s) = eof s \<and> read_offset (issue_read rd s) = read_offset s"
proof (cases "eof s")
  case True
  with assms have "issue_read rd s = s"
    by (simp add: issue_read_def window_inv_def)
  with True assms show ?thesis
    by (auto simp: fc_inv_def window_inv_def)
next
  case False
  with assms obtain target where "spare s = Some target" "length target = length (window s)" by auto
  with False assms have "issue_read rd s = s\<lparr>spare := None, pending := Some (start_read rd s target)\<rparr>"
    by (auto simp: issue_read_def window_inv_def Let_def)
  with False assms \<open>length target = _\<close> show ?thesis
    by (auto simp: fc_inv_def window_inv_def next_buffer_def to_come_def queued_def)
qed

lemma advance_ok:
  assumes rd: "reads rd source" and inv: "fc_inv rd source s" "\<not> eof s" "ready s = []"
    and cdc: "cdc_spec (mode_len cdc (mode s))"
  shows "\<exists>s'. advance rd cdc s = (Inr (), s') \<and> fc_inv rd source s' \<and> mode s' = mode s \<and>
    to_come (mode_len cdc (mode s)) source s' = to_come (mode_len cdc (mode s)) source s \<and>
    (eof s' \<or> read_offset s < read_offset s')"
proof -
  let ?len = "mode_len cdc (mode s)"
  have w: "window_inv source s" "fc_length s - decided s \<le> headroom s" "next_buffer rd s" "\<not> failed s"
    using inv by (auto simp: fc_inv_def)
  obtain n target w s1 where take: "take_read rd s =
      (Inr (take (headroom s) target @ slice_of (read_offset s) (read_offset s + n) source
         @ drop (headroom s + n) target, n), s1)"
    and s1: "s1 = s\<lparr>pending := None, spare := None, window := w, read_offset := read_offset s + n,
        eof := (length source \<le> read_offset s + n)\<rparr>"
    and t: "w = window s \<or> fc_length s = 0" "headroom s + n \<le> length target"
      "read_offset s + n \<le> length source"
    and progress: "eof s1 \<or> read_offset s < read_offset s1"
    and double: "eof s1 \<or> headroom s = FRAGMENT_SIZE_THRESHOLD \<and>
       FRAGMENT_SIZE_THRESHOLD < length w \<and> length target = length w"
    using take_read_ok [OF rd w(1) inv(2) w(3)] by blast
  obtain s2 where s2: "s2 = swap_in s1 (take (headroom s) target @
      slice_of (read_offset s) (read_offset s + n) source @ drop (headroom s + n) target) n" by blast
  note swap = swap_in_ok [OF w(1) inv(3) w(2) t refl s1 s2]
  have f2: "eof s2 = eof s1" "headroom s2 = headroom s" "mode s2 = mode s" "\<not> failed s2"
      "pending s2 = None" "read_offset s2 = read_offset s1"
    using w(4) by (simp_all add: s1 s2)
  have "eof s2 \<longrightarrow> read_offset s2 = length source"
    using t(3) by (auto simp: s1 s2)
  from cut_inv [OF swap(1,4) this, of cdc] cdc f2(3) obtain dec bnds
    where cut: "cut cdc s2 = s2\<lparr>ready := map (\<lambda>(o', l). (head s2 + o', l)) bnds, decided := dec\<rparr>"
      and ok: "cut_ok ?len source (base s2) (fc_length s2) (eof s2) 0 dec bnds" by auto
  define s3 where "s3 = cut cdc s2"
  have "to_come ?len source s3 = to_come ?len source s2"
    unfolding s3_def cut by (rule cut_to_come [OF ok swap(3,4)])
  also have "\<dots> = to_come ?len source s"
    using swap(2-4) inv(3) by (simp add: to_come_def queued_def)
  finally have come: "to_come ?len source s3 = to_come ?len source s" .
  have w3: "window_inv source s3"
    unfolding s3_def cut by (rule cut_keeps_window_inv [OF swap(1) ok])
  have "fc_inv rd source (issue_read rd s3) \<and> mode (issue_read rd s3) = mode s3 \<and>
    to_come ?len source (issue_read rd s3) = to_come ?len source s3 \<and>
    eof (issue_read rd s3) = eof s3 \<and> read_offset (issue_read rd s3) = read_offset s3"
    by (rule issue_read_ok [OF w3])
      (use f2 ok double swap(5,6) in \<open>auto simp: s3_def cut cut_ok_def s1\<close>)
  moreover have "advance rd cdc s = (Inr (), issue_read rd s3)"
    by (simp add: advance_def take s3_def s2)
  moreover have "mode s3 = mode s" "eof s3 = eof s1" "read_offset s3 = read_offset s1"
    using f2 by (simp_all add: s3_def cut)
  ultimately show ?thesis using come progress by auto
qed

lemma next_chunk_loop_ok:
  assumes "reads rd source" "fc_inv rd source s" "cdc_spec (mode_len cdc (mode s))"
  shows "case to_come (mode_len cdc (mode s)) source s of
      [] \<Rightarrow> \<exists>s'. next_chunk_loop rd cdc s = Some (Inr None, s')
    | (o', l) # rest \<Rightarrow>
        \<exists>s'. next_chunk_loop rd cdc s = Some (Inr (Some (Chunk o' (slice_of o' (o' + l) source))), s') \<and>
          fc_inv rd source s' \<and> mode s' = mode s \<and> to_come (mode_len cdc (mode s)) source s' = rest"
  using assms
proof (induction "if eof s then 0 else Suc (length source - read_offset s)" arbitrary: s
    rule: less_induct)
  case less
  have w: "window_inv source s" using less.prems by (simp add: fc_inv_def)
  consider o' l rest where "ready s = (o', l) # rest" | "ready s = []" "eof s" | "ready s = []" "\<not> eof s"
    by (metis list.exhaust surj_pair)
  then show ?case
  proof cases
    case 1
    have o': "head s \<le> o'" "o' + l \<le> head s + fc_length s"
      using w 1 by (auto simp: window_inv_def)
    have "slice_of (o' - head s) (o' - head s + l) (slice_of (head s) (head s + fc_length s) (window s)) =
        slice_of (o' - head s) (o' - head s + l) (slice_of (base s) (base s + fc_length s) source)"
      using w by (simp add: window_inv_def)
    then have "slice_of o' (o' + l) (window s) =
        slice_of (base s + (o' - head s)) (base s + (o' - head s) + l) source"
      using o' by (simp add: slice_of_def drop_take min_def add.commute split: if_splits)
    moreover have "fc_inv rd source (s\<lparr>ready := rest\<rparr>)"
      using less.prems(2) 1 by (auto simp: fc_inv_def window_inv_def next_buffer_def)
    ultimately show ?thesis
      using 1 by (subst next_chunk_loop.simps) (simp add: to_come_def queued_def)
  next
    case 2
    with less.prems(2) have "to_come (mode_len cdc (mode s)) source s = []"
      by (auto simp: to_come_def queued_def fc_inv_def window_inv_def fastcdc_chunks_end)
    with 2 show ?thesis by (subst next_chunk_loop.simps) simp
  next
    case 3
    obtain s' where s': "advance rd cdc s = (Inr (), s')" "fc_inv rd source s'" "mode s' = mode s"
      "to_come (mode_len cdc (mode s)) source s' = to_come (mode_len cdc (mode s)) source s"
      "eof s' \<or> read_offset s < read_offset s'"
      using advance_ok [OF less.prems(1,2) 3(2,1) less.prems(3)] by blast
    have "read_offset s' \<le> length source" using s'(2) by (simp add: fc_inv_def window_inv_def)
    with s'(5) 3(2) have "(if eof s' then 0 else Suc (length source - read_offset s')) <
        (if eof s then 0 else Suc (length source - read_offset s))" by auto
    note IH = less.hyps [OF this less.prems(1) s'(2)]
    have "next_chunk_loop rd cdc s = next_chunk_loop rd cdc s'"
      using 3 s'(1) by (subst next_chunk_loop.simps) simp
    moreover have "cdc_spec (mode_len cdc (mode s'))" using less.prems(3) s'(3) by simp
    ultimately show ?thesis using IH unfolding s'(3) s'(4) by metis
  qed
qed

definition chunk_at :: "bytes \<Rightarrow> nat \<times> nat \<Rightarrow> chunk" where
  "chunk_at source b = Chunk (fst b) (slice_of (fst b) (fst b + snd b) source)"

lemma drain_chunks_ok:
  assumes "reads rd source" "fc_inv rd source s" "cdc_spec (mode_len cdc (mode s))"
  shows "drain_chunks rd cdc s acc =
    Some (Inr (acc @ map (chunk_at source) (to_come (mode_len cdc (mode s)) source s)))"
  using assms
proof (induction "to_come (mode_len cdc (mode s)) source s" arbitrary: s acc)
  case Nil
  have "\<not> failed s" using Nil by (simp add: fc_inv_def)
  with next_chunk_loop_ok [OF Nil.prems] Nil(1) show ?case
    by (subst drain_chunks.simps) (auto simp: next_chunk_def simp flip: Nil(1))
next
  case (Cons b bs)
  have nf: "\<not> failed s" using Cons.prems by (simp add: fc_inv_def)
  obtain o' l where b: "b = (o', l)" by fastforce
  obtain s' where s': "next_chunk_loop rd cdc s = Some (Inr (Some (chunk_at source b)), s')"
    "fc_inv rd source s'" "mode s' = mode s" "bs = to_come (mode_len cdc (mode s)) source s'"
    using next_chunk_loop_ok [OF Cons.prems] Cons(2)[symmetric] by (auto simp: b chunk_at_def)
  have "drain_chunks rd cdc s' (acc @ [chunk_at source b]) =
      Some (Inr ((acc @ [chunk_at source b]) @ map (chunk_at source) bs))"
    using Cons.hyps(1) [of s' "acc @ [chunk_at source b]"] s' Cons.prems by simp
  with s'(1) nf show ?case
    by (subst drain_chunks.simps) (simp add: next_chunk_def flip: Cons(2))
qed

lemma open_chunker_inv:
  assumes "\<And>n. length (uninit n) = n" "mode_ok m"
  shows "fc_inv rd source (open_chunker uninit (length source) m)"
    and "to_come len source (open_chunker uninit (length source) m) = fastcdc_chunks len source 0"
    and "mode (open_chunker uninit (length source) m) = m"
  using assms
  by (auto simp: open_chunker_def Let_def fc_inv_def window_inv_def next_buffer_def WINDOW_SIZE_def
      FRAGMENT_SIZE_THRESHOLD_def to_come_def queued_def)

section \<open>Boundaries tile the content\<close>

fun tiled :: "nat \<Rightarrow> nat \<Rightarrow> (nat \<times> nat) list \<Rightarrow> bool" where
  "tiled a b [] \<longleftrightarrow> a = b"
| "tiled a b ((x, y) # bnds) \<longleftrightarrow> x = a \<and> a < y \<and> y \<le> a + FRAGMENT_SIZE_THRESHOLD \<and> tiled y b bnds"

lemma fastcdc_chunks_tiled:
  assumes "cdc_spec cdc" "pos \<le> length source"
  shows "tiled pos (length source) (map (\<lambda>(o', l). (o', o' + l)) (fastcdc_chunks cdc source pos))"
  using assms
proof (induction "length source - pos" arbitrary: pos rule: less_induct)
  case less
  show ?case
  proof (cases "pos < length source")
    case True
    note b = cdc_bounds [OF less.prems(1) True]
    have "tiled (pos + cdc (drop pos source)) (length source)
        (map (\<lambda>(o', l). (o', o' + l)) (fastcdc_chunks cdc source (pos + cdc (drop pos source))))"
      using less.hyps [of "pos + cdc (drop pos source)"] b less.prems by simp
    with b show ?thesis
      by (simp add: fastcdc_chunks_step [OF less.prems(1) True])
  next
    case False
    with less.prems show ?thesis by (simp add: fastcdc_chunks_end)
  qed
qed

lemma fixed_chunks_from:
  assumes "0 < step" "step \<le> FRAGMENT_SIZE_THRESHOLD" "k \<le> (length source + step - 1) div step"
  shows "map (\<lambda>(o', l). (o', o' + l)) (fastcdc_chunks (fixed_len step) source (k * step)) =
    map (\<lambda>i. (i * step, min (i * step + step) (length source)))
      [k..<(length source + step - 1) div step]"
  using assms(3)
proof (induction "(length source + step - 1) div step - k" arbitrary: k)
  case 0
  then have "k = (length source + step - 1) div step" by simp
  moreover have "length source \<le> (length source + step - 1) div step * step"
    using div_mult_mod_eq [of "length source + step - 1" step]
      mod_less_divisor [OF assms(1), of "length source + step - 1"] assms(1) by linarith
  ultimately show ?case by (simp add: fastcdc_chunks_end)
next
  case (Suc d)
  then have k: "k < (length source + step - 1) div step" by simp
  then have "Suc k * step \<le> (length source + step - 1) div step * step"
    by (intro mult_le_mono1) simp
  also have "\<dots> \<le> length source + step - 1" by (rule div_times_less_eq_dividend)
  finally have "Suc k * step \<le> length source + step - 1" .
  then have pos: "k * step < length source" using assms(1) by simp
  show ?case
  proof (cases "k * step + step \<le> length source")
    case True
    then have "min step (length source - k * step) = step" by simp
    with Suc.hyps(1) [of "Suc k"] Suc.hyps(2) k True pos show ?thesis
      by (simp add: fastcdc_chunks_step [OF cdc_spec_fixed_len [OF assms(1,2)]] upt_conv_Cons
          add.commute)
  next
    case False
    then have last: "(length source + step - 1) div step = Suc k"
      using pos assms(1) by (intro div_nat_eqI) (auto simp: algebra_simps)
    with False pos show ?thesis
      by (simp add: fastcdc_chunks_step [OF cdc_spec_fixed_len [OF assms(1,2)]] fastcdc_chunks_end)
  qed
qed

lemma chunk_boundaries_eq:
  assumes "\<And>step. cut_size = Some step \<Longrightarrow> 0 < step \<and> step \<le> FRAGMENT_SIZE_THRESHOLD"
  shows "chunk_boundaries cdc source cut_size =
    map (\<lambda>(o', l). (o', o' + l))
      (fastcdc_chunks (case cut_size of None \<Rightarrow> cdc | Some step \<Rightarrow> fixed_len step) source 0)"
  using assms fixed_chunks_from [of _ 0 source]
  by (auto simp: chunk_boundaries_def step_by_def comp_def split: option.splits)

lemma chunk_boundaries_tiled:
  assumes "cdc_spec cdc" "\<And>step. cut_size = Some step \<Longrightarrow> 0 < step \<and> step \<le> FRAGMENT_SIZE_THRESHOLD"
  shows "tiled 0 (length source) (chunk_boundaries cdc source cut_size)"
proof -
  have "chunk_boundaries cdc source cut_size = map (\<lambda>(o', l). (o', o' + l))
      (fastcdc_chunks (case cut_size of None \<Rightarrow> cdc | Some step \<Rightarrow> fixed_len step) source 0)"
    by (rule chunk_boundaries_eq) (rule assms(2))
  moreover have "cdc_spec (case cut_size of None \<Rightarrow> cdc | Some step \<Rightarrow> fixed_len step)"
    using assms by (cases cut_size) (auto simp: cdc_spec_fixed_len)
  ultimately show ?thesis by (simp add: fastcdc_chunks_tiled)
qed

lemma tiled_concat:
  "tiled a b bnds \<Longrightarrow> b \<le> length source \<Longrightarrow>
   a \<le> b \<and> concat (map (\<lambda>(x, y). slice_of x y source) bnds) = slice_of a b source"
proof (induction bnds arbitrary: a)
  case Nil
  then show ?case by simp
next
  case (Cons p bnds)
  then obtain y where p: "p = (a, y)" "a < y" "tiled y b bnds" by (cases p) auto
  with Cons have "y \<le> b \<and> concat (map (\<lambda>(x, y). slice_of x y source) bnds) = slice_of y b source"
    by blast
  with p show ?case by (simp add: slice_of_append)
qed

lemma tiled_sizes: "tiled a b bnds \<Longrightarrow> (x, y) \<in> set bnds \<Longrightarrow> x < y \<and> y - x \<le> FRAGMENT_SIZE_THRESHOLD"
  by (induction a b bnds rule: tiled.induct) auto

lemma next_chunk_loop_error:
  assumes "next_chunk_loop rd cdc s = Some y"
  shows "fst y = Inl e \<longrightarrow> failed (snd y)"
proof (rule next_chunk_loop.raw_induct [OF _ assms, of "\<lambda>rd cdc s y. fst y = Inl e \<longrightarrow> failed (snd y)"],
    goal_cases)
  case (1 loop rd cdc s y)
  show ?case
  proof (cases "ready s = [] \<and> \<not> eof s")
    case True
    with "1"(2) show ?thesis
      using "1"(1) by (cases "advance rd cdc s") (fastforce split: sum.splits)
  next
    case False
    with "1"(2) show ?thesis by (auto split: list.splits if_splits)
  qed
qed

section \<open>Properties\<close>

text \<open>
  C5. Streaming a file through the windows of the chunker gives exactly the chunks that cutting the
  whole content at once gives, in content-defined and in fixed-size mode, for files of any size and
  whatever the fresh memory of the windows holds; in particular the chunker returns.
\<close>

theorem file_chunker_matches_whole_buffer:
  assumes "cdc_spec cdc" "reads rd source" "\<And>n. length (uninit n) = n"
    and "\<And>step. cut_size = Some step \<Longrightarrow> 0 < step \<and> step \<le> FRAGMENT_SIZE_THRESHOLD"
  shows "drain_chunks rd cdc
      (case cut_size of
         None \<Rightarrow> content_defined uninit (length source)
       | Some step \<Rightarrow> fixed_size uninit (length source) step) [] =
    Some (Inr (map (\<lambda>(a, b). Chunk a (slice_of a b source)) (chunk_boundaries cdc source cut_size)))"
proof -
  define m where "m = (case cut_size of None \<Rightarrow> ContentDefined | Some step \<Rightarrow> FixedSize step)"
  have m: "mode_ok m" "cdc_spec (mode_len cdc m)"
      "mode_len cdc m = (case cut_size of None \<Rightarrow> cdc | Some step \<Rightarrow> fixed_len step)"
    using assms(1,4) by (cases cut_size; simp add: m_def mode_ok_def mode_len_def cdc_spec_fixed_len)+
  have clamp: "max 1 (min step FRAGMENT_SIZE_THRESHOLD) = step" if "cut_size = Some step" for step
    using assms(4) [OF that] by simp
  have opened: "(case cut_size of None \<Rightarrow> content_defined uninit (length source)
       | Some step \<Rightarrow> fixed_size uninit (length source) step) = open_chunker uninit (length source) m"
    using clamp by (cases cut_size) (simp_all add: m_def content_defined_def fixed_size_def)
  note inv = open_chunker_inv [OF assms(3) m(1), where source = source]
  have "drain_chunks rd cdc (open_chunker uninit (length source) m) [] =
      Some (Inr (map (chunk_at source) (fastcdc_chunks (mode_len cdc m) source 0)))"
    using drain_chunks_ok [OF assms(2) inv(1), of cdc "[]"] m(2) inv(2,3) by simp
  also have "map (chunk_at source) (fastcdc_chunks (mode_len cdc m) source 0) =
      map (\<lambda>(a, b). Chunk a (slice_of a b source)) (chunk_boundaries cdc source cut_size)"
    by (simp add: m(3) chunk_at_def split_def chunk_boundaries_eq [OF assms(4), simplified])
  finally show ?thesis unfolding opened .
qed

theorem file_chunker_matches_whole_buffer_witness:
  "drain_chunks (\<lambda>o' n. Inr (slice_of o' (o' + n) [1, 2, 3, 4, 5])) (fixed_len 4)
     (fixed_size (\<lambda>n. replicate n 0) 5 2) [] =
   Some (Inr [Chunk 0 [1, 2], Chunk 2 [3, 4], Chunk 4 [5]])"
proof -
  have spec: "cdc_spec (fixed_len 4)"
    by (rule cdc_spec_fixed_len) (simp_all add: FRAGMENT_SIZE_THRESHOLD_def)
  have rd: "reads (\<lambda>o' n. Inr (slice_of o' (o' + n) [1, 2, 3, 4, 5])) [1, 2, 3, 4, 5]"
    by (simp add: reads_def)
  have "chunk_boundaries (fixed_len 4) [1, 2, 3, 4, 5 :: byte] (Some 2) = [(0, 2), (2, 4), (4, 5)]"
    by (simp add: chunk_boundaries_def step_by_def upt_rec)
  moreover have "length [1, 2, 3, 4, 5 :: byte] = 5" by simp
  ultimately show ?thesis
    using file_chunker_matches_whole_buffer [OF spec rd, of "\<lambda>n. replicate n 0" "Some 2"]
    by (simp only: option.case) (simp add: FRAGMENT_SIZE_THRESHOLD_def slice_of_def)
qed

text \<open>
  C6. The chunks cover the content: in order and without gap or overlap, each of at least one byte
  and at most the fragment size threshold, and their concatenation is the content.
\<close>

theorem chunk_boundaries_cover:
  assumes "cdc_spec cdc"
    and "\<And>step. cut_size = Some step \<Longrightarrow> 0 < step \<and> step \<le> FRAGMENT_SIZE_THRESHOLD"
  shows "concat (map (\<lambda>(a, b). slice_of a b buffer) (chunk_boundaries cdc buffer cut_size)) = buffer
    \<and> tiled 0 (length buffer) (chunk_boundaries cdc buffer cut_size)
    \<and> (\<forall>(a, b) \<in> set (chunk_boundaries cdc buffer cut_size).
          a < b \<and> b - a \<le> FRAGMENT_SIZE_THRESHOLD \<and> b \<le> length buffer)"
proof -
  have t: "tiled 0 (length buffer) (chunk_boundaries cdc buffer cut_size)"
    by (rule chunk_boundaries_tiled) (use assms in auto)
  have "tiled a b bnds \<Longrightarrow> (x, y) \<in> set bnds \<Longrightarrow> y \<le> b" for a b x y bnds
  proof (induction a b bnds rule: tiled.induct)
    case (2 a b x' y' bnds)
    then show ?case using tiled_concat [of y' b bnds "replicate b (0::nat)"] by auto
  qed simp
  with t tiled_sizes [OF t] tiled_concat [OF t order_refl] show ?thesis
    by fastforce
qed

theorem chunk_boundaries_cover_witness:
  "cdc_spec (fixed_len 4) \<and>
   concat (map (\<lambda>(a, b). slice_of a b [1, 2, 3, 4, 5])
     (chunk_boundaries (fixed_len 4) [1, 2, 3, 4, 5] None)) = ([1, 2, 3, 4, 5] :: bytes)"
proof -
  have spec: "cdc_spec (fixed_len 4)"
    by (rule cdc_spec_fixed_len) (simp_all add: FRAGMENT_SIZE_THRESHOLD_def)
  with chunk_boundaries_cover [OF spec, of None "[1, 2, 3, 4, 5]"] show ?thesis by simp
qed

text \<open>
  C7. A failure is final: a call that answers with an error leaves a chunker whose every later call,
  whatever the file would give by then, answers with an error too, never with the end of the file.
\<close>

theorem next_chunk_failure_is_final:
  assumes "next_chunk rd cdc s = Some (Inl e, s')"
  shows "next_chunk rd' cdc' s' =
    Some (Inl (Internal ''chunker was used again after a read failure''), s')"
proof -
  have "failed s'"
    using assms next_chunk_loop_error [of rd cdc s "(Inl e, s')" e] by (auto simp: next_chunk_def split: if_splits)
  then show ?thesis by (simp add: next_chunk_def)
qed

theorem next_chunk_failure_is_final_witness:
  "\<exists>e s'. next_chunk (\<lambda>o' n. Inl NotFound) (fixed_len 4) (content_defined (\<lambda>n. replicate n 0) 5)
       = Some (Inl e, s') \<and>
     next_chunk (\<lambda>o' n. Inr (replicate n 7)) (fixed_len 4) s' =
       Some (Inl (Internal ''chunker was used again after a read failure''), s')"
proof -
  let ?s = "content_defined (\<lambda>n. replicate n 0) 5"
  have "fst (advance (\<lambda>o' n. Inl NotFound) (fixed_len 4) ?s) = Inl (Internal ''read file for chunking'')"
    by (simp add: content_defined_def open_chunker_def WINDOW_SIZE_def FRAGMENT_SIZE_THRESHOLD_def
        advance_def take_read_def claim_read_def start_read_def read_window_def Let_def)
  then obtain s1 where "advance (\<lambda>o' n. Inl NotFound) (fixed_len 4) ?s =
      (Inl (Internal ''read file for chunking''), s1)" by (metis prod.collapse)
  then have first: "next_chunk (\<lambda>o' n. Inl NotFound) (fixed_len 4) ?s =
      Some (Inl (Internal ''read file for chunking''), s1\<lparr>failed := True\<rparr>)"
    by (subst next_chunk_def, subst next_chunk_loop.simps)
      (simp add: content_defined_def open_chunker_def Let_def)
  from first next_chunk_failure_is_final [OF first] show ?thesis by blast
qed

end
