(* ===== verification/Fragment_Walk.thy ===== *)
theory Fragment_Walk
  imports Fragment_Validation
begin

text \<open>
  The walk over a fragment tree (\<open>lore-storage/src/defragment.rs\<close>): from the root's list of
  references down to the leaves a range of the content touches.

  \<open>load\<close> stands for \<open>load_fragment\<close> with the store, the options and the session a
  walk is started with. The channel to the fetch pool is the list of leaves sent so far, with a
  consumer that stays until the end; a walk that fails has sent some leaves already, so it gives
  both. Prefetched loads are awaited in order, which is the order of the model.
\<close>

type_synonym urange = "nat \<times> nat"
type_synonym loader = "address \<Rightarrow> (fragment \<times> bytes) result"

record leaf_reference =
  leaf_hash :: hash
  target_offset :: nat
  expected_size :: nat
  clip :: urange
  leaf_context :: lore_context

type_synonym walk_out = "leaf_reference list \<times> unit result"

definition MAX_FRAGMENT_TREE_DEPTH :: nat where
  "MAX_FRAGMENT_TREE_DEPTH = 8"

section \<open>One list of references\<close>

definition entry_window :: "fragment_reference list \<Rightarrow> nat \<Rightarrow> nat \<Rightarrow> urange result" where
  "entry_window fragment_list index level_end =
     (let start = unat (offset_content (fragment_list ! index))
      in if hash_is_zero (ref_hash (fragment_list ! index))
         then Inl (Internal ''fragment list entry has a zero hash'')
         else
           let fin = (if index + 1 < length fragment_list
                      then unat (offset_content (fragment_list ! (index + 1))) else level_end)
           in bind_result
                (ok_or (checked_sub fin start)
                   (Internal ''offset_content is not strictly increasing inside content window''))
                (\<lambda>sz. if sz = 0 then Inl (Internal ''fragment list chunk has zero size'')
                       else Inr (start, fin)))"

definition clip_to_window :: "urange \<Rightarrow> urange \<Rightarrow> urange option" where
  "clip_to_window entry window =
     (let start = max (fst entry) (fst window);
          fin = min (snd entry) (snd window)
      in if start < fin then Some (start - fst entry, fin - fst entry) else None)"

primrec wanted_loop ::
  "fragment_reference list \<Rightarrow> nat \<Rightarrow> urange \<Rightarrow> nat list \<Rightarrow> urange option \<Rightarrow> urange option result" where
  "wanted_loop fragment_list level_end window [] wanted = Inr wanted"
| "wanted_loop fragment_list level_end window (index # is) wanted =
     bind_result (entry_window fragment_list index level_end) (\<lambda>entry.
       wanted_loop fragment_list level_end window is
         (if clip_to_window entry window \<noteq> None then
            Some (case wanted of Some r \<Rightarrow> (fst r, index + 1) | None \<Rightarrow> (index, index + 1))
          else wanted))"

definition wanted_entries :: "fragment_reference list \<Rightarrow> nat \<Rightarrow> urange \<Rightarrow> urange option result" where
  "wanted_entries fragment_list level_end window =
     wanted_loop fragment_list level_end window [0..<length fragment_list] None"

primrec walk_leaf_loop ::
  "fragment_reference list \<Rightarrow> nat \<Rightarrow> urange \<Rightarrow> lore_context \<Rightarrow> nat list \<Rightarrow> walk_out" where
  "walk_leaf_loop fragment_list content_end window ctx [] = ([], Inr ())"
| "walk_leaf_loop fragment_list content_end window ctx (i # is) =
     (case entry_window fragment_list i content_end of
        Inl e \<Rightarrow> ([], Inl e)
      | Inr entry \<Rightarrow>
          let expected_content_size = snd entry - fst entry
          in if expected_content_size > FRAGMENT_SIZE_THRESHOLD
             then ([], Inl (Internal ''fragment list chunk size exceeds FRAGMENT_SIZE_THRESHOLD''))
             else
               let (leaves, r) = walk_leaf_loop fragment_list content_end window ctx is
               in case clip_to_window entry window of
                    None \<Rightarrow> (leaves, r)
                  | Some c \<Rightarrow>
                      (\<lparr>leaf_hash = ref_hash (fragment_list ! i),
                        target_offset = fst entry + fst c - fst window,
                        expected_size = expected_content_size, clip = c,
                        leaf_context = ctx\<rparr> # leaves, r))"

definition walk_leaf_level ::
  "fragment_reference list \<Rightarrow> nat \<Rightarrow> nat \<Rightarrow> urange \<Rightarrow> lore_context \<Rightarrow> walk_out" where
  "walk_leaf_level fragment_list total_content_size base_offset window ctx =
     (case checked_add base_offset total_content_size of
        None \<Rightarrow> ([], Inl (Internal ''base_offset + total_content_size overflows u64''))
      | Some content_end \<Rightarrow>
          walk_leaf_loop fragment_list content_end window ctx [0..<length fragment_list])"

definition sublist_coverage ::
  "fragment_reference \<Rightarrow> fragment_reference list \<Rightarrow> nat \<Rightarrow> urange \<Rightarrow> unit result" where
  "sublist_coverage parent sub_list sub_content_size window =
     (let po = unat (offset_content parent)
      in if hash_is_zero (ref_hash parent)
         then Inl (Internal ''fragment list entry has a zero hash'')
         else if po \<noteq> fst window \<or> snd window < fst window
         then Inl (Internal ''fragment list entry is given the wrong window'')
         else if sub_list = [] then Inl (Internal ''fragment sublist is empty'')
         else if sub_content_size = 0 then Inl (Internal ''fragment sublist expands to zero bytes'')
         else if unat (offset_content (sub_list ! 0)) \<noteq> po
         then Inl (Internal ''fragment sublist starts elsewhere than its parent entry'')
         else bind_result
                (ok_or (checked_add po sub_content_size)
                   (Internal ''fragment sublist offset + content size overflows u64''))
                (\<lambda>fin. if fin \<noteq> snd window
                        then Inl (Internal ''fragment sublist does not fill its window'')
                        else Inr ()))"

section \<open>The levels of the tree\<close>

text \<open>
  A child of an intermediate level is walked by \<open>walk_child\<close>, as leaves or one level deeper;
  \<open>recurse\<close> is the walk one level deeper. An error of an earlier child keeps the later ones,
  whose loads are under way, from being walked.
\<close>

definition walk_child ::
  "(fragment_reference list \<Rightarrow> nat \<Rightarrow> walk_out) \<Rightarrow> bool \<Rightarrow> urange \<Rightarrow> lore_context \<Rightarrow>
   fragment_reference list \<Rightarrow> nat \<Rightarrow> walk_out" where
  "walk_child recurse children_are_leaves window ctx sub_list sub_content_size =
     (if children_are_leaves
      then walk_leaf_level sub_list sub_content_size (unat (offset_content (sub_list ! 0))) window ctx
      else recurse sub_list sub_content_size)"

definition walk_prefetched ::
  "(fragment_reference list \<Rightarrow> nat \<Rightarrow> walk_out) \<Rightarrow> loader \<Rightarrow> lore_context \<Rightarrow>
   fragment_reference list \<Rightarrow> nat \<Rightarrow> urange \<Rightarrow> bool \<Rightarrow> nat \<Rightarrow> unit result \<Rightarrow> walk_out" where
  "walk_prefetched recurse load ctx fragment_list level_end window children_are_leaves index r =
     (case load (Address (ref_hash (fragment_list ! index)) ctx) of
        Inl e \<Rightarrow> ([], and_result r (Inl e))
      | Inr (sub_frag, sub_buf) \<Rightarrow>
          if \<not> is_ok r then ([], r)
          else if length sub_buf < unat (size_payload sub_frag)
          then ([], and_result r (Inl (Internal ''insufficient buffer'')))
          else
            let sub_list = as_type_slice sub_buf;
                sub_content_size = unat (size_content sub_frag)
            in case entry_window fragment_list index level_end of
                 Inl e \<Rightarrow> ([], and_result r (Inl e))
               | Inr entry \<Rightarrow>
                   (case sublist_coverage (fragment_list ! index) sub_list sub_content_size entry of
                      Inl e \<Rightarrow> ([], and_result r (Inl e))
                    | Inr _ \<Rightarrow>
                        let (leaves, subresult) =
                          walk_child recurse children_are_leaves window ctx sub_list sub_content_size
                        in (leaves, and_result r subresult)))"

primrec walk_remaining ::
  "(fragment_reference list \<Rightarrow> nat \<Rightarrow> walk_out) \<Rightarrow> loader \<Rightarrow> lore_context \<Rightarrow>
   fragment_reference list \<Rightarrow> nat \<Rightarrow> urange \<Rightarrow> bool \<Rightarrow> nat list \<Rightarrow> unit result \<Rightarrow> walk_out" where
  "walk_remaining recurse load ctx fragment_list level_end window children_are_leaves [] r = ([], r)"
| "walk_remaining recurse load ctx fragment_list level_end window children_are_leaves (i # is) r =
     (let (leaves, r') =
        walk_prefetched recurse load ctx fragment_list level_end window children_are_leaves i r;
          (leaves', r'') =
        walk_remaining recurse load ctx fragment_list level_end window children_are_leaves is r'
      in (leaves @ leaves', r''))"

definition walk_intermediate_level ::
  "(fragment_reference list \<Rightarrow> nat \<Rightarrow> walk_out) \<Rightarrow> loader \<Rightarrow> lore_context \<Rightarrow>
   fragment_reference list \<Rightarrow> nat \<Rightarrow> urange \<Rightarrow> urange \<Rightarrow> fragment \<Rightarrow> bytes \<Rightarrow> walk_out" where
  "walk_intermediate_level recurse load ctx fragment_list level_end window wanted first_frag first_buf =
     (let first_index = fst wanted;
          first_content_size = unat (size_content first_frag)
      in if length first_buf < unat (size_payload first_frag)
         then ([], Inl (Internal ''insufficient buffer''))
         else
           let first_list = as_type_slice first_buf
           in case entry_window fragment_list first_index level_end of
                Inl e \<Rightarrow> ([], Inl e)
              | Inr first_entry \<Rightarrow>
             (case sublist_coverage (fragment_list ! first_index) first_list first_content_size first_entry of
                Inl e \<Rightarrow> ([], Inl e)
              | Inr _ \<Rightarrow>
             (case wanted_entries first_list (snd first_entry) window of
                Inl e \<Rightarrow> ([], Inl e)
              | Inr None \<Rightarrow> ([], Inl (Internal ''fragment sublist holds none of the range''))
              | Inr (Some peek) \<Rightarrow>
             (case load (Address (ref_hash (first_list ! fst peek)) ctx) of
                Inl e \<Rightarrow> ([], Inl e)
              | Inr (peek_frag, _) \<Rightarrow>
                  let children_are_leaves =
                        (flags peek_frag AND PayloadFragmented \<noteq> PayloadFragmented);
                      (leaves, r) =
                        walk_child recurse children_are_leaves window ctx first_list first_content_size;
                      remaining = [first_index + 1..<snd wanted]
                  in if \<not> is_ok r \<or> remaining = [] then (leaves, r)
                     else
                       let (leaves', r') =
                         walk_remaining recurse load ctx fragment_list level_end window
                           children_are_leaves remaining r
                       in (leaves @ leaves', r')))))"

function walk_fragment_level ::
  "loader \<Rightarrow> lore_context \<Rightarrow> urange \<Rightarrow> nat \<Rightarrow> fragment_reference list \<Rightarrow> nat \<Rightarrow> walk_out" where
  "walk_fragment_level load ctx window depth fragment_list total_content_size =
     (if depth > MAX_FRAGMENT_TREE_DEPTH
      then ([], Inl (Internal ''fragment tree recursion depth exceeded''))
      else if fragment_list = [] then ([], Inl (Internal ''fragment list is empty''))
      else
        let base_offset = unat (offset_content (fragment_list ! 0))
        in case checked_add base_offset total_content_size of
             None \<Rightarrow> ([], Inl (Internal ''base_offset + total_content_size overflows u64''))
           | Some level_end \<Rightarrow>
          (case wanted_entries fragment_list level_end window of
             Inl e \<Rightarrow> ([], Inl e)
           | Inr None \<Rightarrow> ([], Inr ())
           | Inr (Some wanted) \<Rightarrow>
          (case load (Address (ref_hash (fragment_list ! fst wanted)) ctx) of
             Inl e \<Rightarrow> ([], Inl e)
           | Inr (first_frag, first_buf) \<Rightarrow>
               if flags first_frag AND PayloadFragmented = PayloadFragmented
               then walk_intermediate_level
                      (\<lambda>sub_list sz. walk_fragment_level load ctx window (depth + 1) sub_list sz)
                      load ctx fragment_list level_end window wanted first_frag first_buf
               else walk_leaf_level fragment_list total_content_size base_offset window ctx)))"
  by pat_completeness auto
termination
  by (relation "measure (\<lambda>(load, ctx, window, depth, fragment_list, sz).
      Suc MAX_FRAGMENT_TREE_DEPTH - depth)") auto

declare walk_fragment_level.simps [simp del]

definition walk_fragment_tree ::
  "loader \<Rightarrow> address \<Rightarrow> fragment \<Rightarrow> bytes \<Rightarrow> urange \<Rightarrow> walk_out" where
  "walk_fragment_tree load address fragment source_buffer rng =
     (if length source_buffer < unat (size_payload fragment)
      then ([], Inl (Internal ''insufficient buffer''))
      else
        let fragment_list = as_type_slice source_buffer;
            total_content_size = unat (size_content fragment)
        in if fragment_list = [] then ([], Inl (Internal ''fragment list is empty''))
           else
             let base_offset = unat (offset_content (fragment_list ! 0))
             in case (checked_add base_offset (fst rng), checked_add base_offset (snd rng)) of
                  (Some start, Some fin) \<Rightarrow>
                    walk_fragment_level load (addr_context address) (start, fin) 0 fragment_list
                      total_content_size
                | _ \<Rightarrow> ([], Inl (Internal ''content range offset overflow'')))"

section \<open>Windows and clamps\<close>

text \<open>
  Content positions are clamped to the window a read asks for. An entry that the window misses has
  both its ends clamped to the same position, and the part of an entry the window reaches lies
  between its clamped ends; so the parts of adjacent entries are adjacent.
\<close>

definition clamp :: "urange \<Rightarrow> nat \<Rightarrow> nat" where
  "clamp w x = max (fst w) (min (snd w) x)"

definition level_bound :: "fragment_reference list \<Rightarrow> nat \<Rightarrow> nat \<Rightarrow> nat" where
  "level_bound fl level_end i = (if i < length fl then unat (offset_content (fl ! i)) else level_end)"

definition overlaps :: "fragment_reference list \<Rightarrow> nat \<Rightarrow> urange \<Rightarrow> nat \<Rightarrow> bool" where
  "overlaps fl level_end w i \<longleftrightarrow>
     clip_to_window (level_bound fl level_end i, level_bound fl level_end (Suc i)) w \<noteq> None"

definition entry_ok :: "fragment_reference list \<Rightarrow> nat \<Rightarrow> nat \<Rightarrow> bool" where
  "entry_ok fl level_end i \<longleftrightarrow>
     \<not> hash_is_zero (ref_hash (fl ! i)) \<and> level_bound fl level_end i < level_bound fl level_end (Suc i)"

lemma entry_window_Inr_iff:
  assumes "i < length fl"
  shows "entry_window fl i le = Inr e \<longleftrightarrow>
    entry_ok fl le i \<and> e = (level_bound fl le i, level_bound fl le (Suc i))"
  using assms
  by (auto simp: entry_window_def entry_ok_def level_bound_def Let_def checked_sub_def split: if_splits)

lemma clip_None_clamp:
  assumes "clip_to_window (s, e) w = None" "s < e" "fst w \<le> snd w"
  shows "clamp w s = clamp w e"
  using assms by (auto simp: clip_to_window_def clamp_def Let_def max_def min_def split: if_splits)

lemma clip_Some_clamp:
  assumes "clip_to_window (s, e) w = Some c"
  shows "c = (clamp w s - s, clamp w e - s)" "clamp w s < clamp w e" "s \<le> clamp w s" "clamp w e \<le> e"
    "fst w \<le> clamp w s"
  using assms by (auto simp: clip_to_window_def clamp_def Let_def max_def min_def split: if_splits)

lemma clamp_not_overlaps:
  "entry_ok fl le i \<Longrightarrow> \<not> overlaps fl le w i \<Longrightarrow> fst w \<le> snd w \<Longrightarrow>
   clamp w (level_bound fl le i) = clamp w (level_bound fl le (Suc i))"
  unfolding overlaps_def entry_ok_def by (rule clip_None_clamp) blast+

lemma clamp_skip:
  assumes "i \<le> j" "\<And>k. i \<le> k \<Longrightarrow> k < j \<Longrightarrow> entry_ok fl le k \<and> \<not> overlaps fl le w k" "fst w \<le> snd w"
  shows "clamp w (level_bound fl le i) = clamp w (level_bound fl le j)"
  using assms(1,2)
proof (induction j rule: dec_induct)
  case base
  then show ?case by simp
next
  case (step j)
  have "entry_ok fl le j" "\<not> overlaps fl le w j" using step by auto
  with step show ?case by (simp add: clamp_not_overlaps [OF _ _ assms(3)])
qed

section \<open>Which entries a walk visits\<close>

text \<open>
  The range \<open>wanted_entries\<close> finds, over the entries seen so far: the first and the last
  one are reached by the window, and no entry outside it is.
\<close>

definition wanted_inv :: "fragment_reference list \<Rightarrow> nat \<Rightarrow> urange \<Rightarrow> nat \<Rightarrow> urange option \<Rightarrow> bool" where
  "wanted_inv fl le w i res \<longleftrightarrow>
     (\<forall>k < i. entry_ok fl le k) \<and>
     (case res of
        None \<Rightarrow> \<forall>k < i. \<not> overlaps fl le w k
      | Some (a, b) \<Rightarrow> a < b \<and> b \<le> i \<and> overlaps fl le w a \<and> overlaps fl le w (b - 1) \<and>
          (\<forall>k < i. k < a \<or> b \<le> k \<longrightarrow> \<not> overlaps fl le w k))"

lemma wanted_inv_None:
  "wanted_inv fl le w i None \<Longrightarrow> k < i \<Longrightarrow> entry_ok fl le k \<and> \<not> overlaps fl le w k"
  by (simp add: wanted_inv_def)

lemma wanted_inv_Some:
  assumes "wanted_inv fl le w i (Some (a, b))"
  shows "a < b" "b \<le> i" "overlaps fl le w a" "overlaps fl le w (b - 1)"
    "\<And>k. k < i \<Longrightarrow> entry_ok fl le k" "\<And>k. k < i \<Longrightarrow> k < a \<or> b \<le> k \<Longrightarrow> \<not> overlaps fl le w k"
  using assms unfolding wanted_inv_def by (simp, simp, simp, simp, simp, auto)

lemma wanted_inv_step:
  assumes "wanted_inv fl le w i res" "entry_ok fl le i"
  shows "wanted_inv fl le w (Suc i)
    (if overlaps fl le w i
     then Some (case res of Some r \<Rightarrow> (fst r, i + 1) | None \<Rightarrow> (i, i + 1)) else res)"
proof -
  have ok: "\<forall>k < Suc i. entry_ok fl le k"
    using assms unfolding wanted_inv_def less_Suc_eq by blast
  show ?thesis
  proof (cases res)
    case None
    have "\<forall>k < i. \<not> overlaps fl le w k" using assms(1) by (simp add: wanted_inv_def None)
    with None ok show ?thesis by (simp add: wanted_inv_def less_Suc_eq)
  next
    case (Some r)
    obtain a b where r: "r = (a, b)" by fastforce
    have inv: "a < b" "b \<le> i" "overlaps fl le w a" "overlaps fl le w (b - 1)"
      "\<forall>k < i. k < a \<or> b \<le> k \<longrightarrow> \<not> overlaps fl le w k"
      using assms(1) by (simp_all add: wanted_inv_def Some r)
    show ?thesis
    proof (cases "overlaps fl le w i")
      case True
      have "\<forall>k < Suc i. k < a \<or> Suc i \<le> k \<longrightarrow> \<not> overlaps fl le w k"
        using inv(1,2,5) by auto
      with True ok inv show ?thesis by (simp add: wanted_inv_def Some r)
    next
      case False
      have "\<forall>k < Suc i. k < a \<or> b \<le> k \<longrightarrow> \<not> overlaps fl le w k"
        using inv(5) False by (auto simp: less_Suc_eq)
      with False ok inv show ?thesis by (simp add: wanted_inv_def Some r)
    qed
  qed
qed

lemma wanted_loop_inv:
  assumes "wanted_loop fl le w [i..<length fl] res = Inr res'" "i \<le> length fl"
    "wanted_inv fl le w i res"
  shows "wanted_inv fl le w (length fl) res'"
  using assms
proof (induction "length fl - i" arbitrary: i res)
  case 0
  then show ?case by simp
next
  case (Suc n)
  then have i: "i < length fl" by simp
  then have upt: "[i..<length fl] = i # [Suc i..<length fl]" by (simp add: upt_conv_Cons)
  obtain e where e: "entry_window fl i le = Inr e"
    using Suc.prems(1) unfolding upt by (auto simp: bind_result_Inr_iff)
  then have ok: "entry_ok fl le i" "e = (level_bound fl le i, level_bound fl le (Suc i))"
    using i by (auto simp: entry_window_Inr_iff)
  have "wanted_loop fl le w [Suc i..<length fl]
      (if overlaps fl le w i
       then Some (case res of Some r \<Rightarrow> (fst r, i + 1) | None \<Rightarrow> (i, i + 1)) else res) = Inr res'"
    using Suc.prems(1) unfolding upt by (simp add: e overlaps_def ok(2))
  from Suc.hyps(1) [OF _ this] Suc.hyps(2) i wanted_inv_step [OF Suc.prems(3) ok(1)]
  show ?case by simp
qed

lemma wanted_entries_inv:
  "wanted_entries fl le w = Inr res \<Longrightarrow> wanted_inv fl le w (length fl) res"
  unfolding wanted_entries_def
  by (erule wanted_loop_inv) (auto simp: wanted_inv_def)

text \<open>Conversely, on a list whose entries are all in order the check passes.\<close>

lemma wanted_loop_ok:
  assumes "i \<le> length fl" "\<And>k. i \<le> k \<Longrightarrow> k < length fl \<Longrightarrow> entry_ok fl le k"
  shows "\<exists>res'. wanted_loop fl le w [i..<length fl] res = Inr res'"
  using assms
proof (induction "length fl - i" arbitrary: i res)
  case 0
  then show ?case by simp
next
  case (Suc n)
  then have i: "i < length fl" by simp
  then have upt: "[i..<length fl] = i # [Suc i..<length fl]" by (simp add: upt_conv_Cons)
  have "entry_window fl i le = Inr (level_bound fl le i, level_bound fl le (Suc i))"
    using Suc.prems(2) i by (simp add: entry_window_Inr_iff)
  with Suc i show ?case unfolding upt by simp
qed

lemma wanted_entries_ok:
  "(\<And>k. k < length fl \<Longrightarrow> entry_ok fl le k) \<Longrightarrow>
   \<exists>res. wanted_entries fl le w = Inr res \<and> wanted_inv fl le w (length fl) res"
  using wanted_loop_ok [of 0 fl le w None] wanted_entries_inv [of fl le w]
  by (auto simp: wanted_entries_def)

section \<open>The leaves of a walk tile its range\<close>

definition leaf_len :: "leaf_reference \<Rightarrow> nat" where
  "leaf_len l = snd (clip l) - fst (clip l)"

fun leaves_tile :: "urange \<Rightarrow> nat \<Rightarrow> nat \<Rightarrow> leaf_reference list \<Rightarrow> bool" where
  "leaves_tile w a b [] \<longleftrightarrow> a = b"
| "leaves_tile w a b (l # ls) \<longleftrightarrow>
     a < b \<and> target_offset l = a - fst w \<and> fst (clip l) < snd (clip l) \<and>
     snd (clip l) \<le> expected_size l \<and> expected_size l \<le> FRAGMENT_SIZE_THRESHOLD \<and>
     leaves_tile w (a + leaf_len l) b ls"

lemma leaves_tile_le: "leaves_tile w a b ls \<Longrightarrow> a \<le> b"
  by (induction ls arbitrary: a) auto

lemma leaves_tile_append:
  "leaves_tile w a b xs \<Longrightarrow> leaves_tile w b c ys \<Longrightarrow> leaves_tile w a c (xs @ ys)"
  by (induction xs arbitrary: a) (auto dest: leaves_tile_le)

lemma walk_leaf_loop_tile:
  assumes "walk_leaf_loop fl le w ctx [i..<length fl] = (ls, Inr ())" "i \<le> length fl" "fst w \<le> snd w"
  shows "leaves_tile w (clamp w (level_bound fl le i)) (clamp w le) ls"
  using assms
proof (induction "length fl - i" arbitrary: i ls)
  case 0
  then show ?case by (simp add: level_bound_def)
next
  case (Suc n)
  then have i: "i < length fl" by simp
  then have upt: "[i..<length fl] = i # [Suc i..<length fl]" by (simp add: upt_conv_Cons)
  let ?s = "level_bound fl le i" and ?e = "level_bound fl le (Suc i)"
  obtain e where e: "entry_window fl i le = Inr e"
    using Suc.prems(1) unfolding upt by (auto split: sum.splits)
  then have ok: "entry_ok fl le i" "e = (?s, ?e)"
    using i by (auto simp: entry_window_Inr_iff)
  have size: "?e - ?s \<le> FRAGMENT_SIZE_THRESHOLD"
    using Suc.prems(1) unfolding upt by (auto simp: e ok(2) Let_def split: if_splits)
  obtain ls' where rest: "walk_leaf_loop fl le w ctx [Suc i..<length fl] = (ls', Inr ())"
    and ls: "ls = (case clip_to_window (?s, ?e) w of None \<Rightarrow> ls' | Some c \<Rightarrow>
      \<lparr>leaf_hash = ref_hash (fl ! i), target_offset = ?s + fst c - fst w, expected_size = ?e - ?s,
        clip = c, leaf_context = ctx\<rparr> # ls')"
    using Suc.prems(1) size unfolding upt
    by (auto simp: e ok(2) Let_def split: prod.splits option.splits)
  have tile: "leaves_tile w (clamp w ?e) (clamp w le) ls'"
    using Suc.hyps(1) [OF _ rest] Suc.hyps(2) i Suc.prems(3) by simp
  show ?case
  proof (cases "clip_to_window (?s, ?e) w")
    case None
    with tile ls clip_None_clamp [OF None] ok(1) Suc.prems(3) show ?thesis
      by (simp add: entry_ok_def)
  next
    case (Some c)
    note c = clip_Some_clamp [OF Some]
    have "leaves_tile w (clamp w ?s) (clamp w le) (\<lparr>leaf_hash = ref_hash (fl ! i),
        target_offset = ?s + fst c - fst w, expected_size = ?e - ?s, clip = c, leaf_context = ctx\<rparr> # ls')"
      using tile c size leaves_tile_le [OF tile] by (auto simp: leaf_len_def)
    with Some ls show ?thesis by (simp only: option.case)
  qed
qed

lemma walk_leaf_level_tile:
  assumes "walk_leaf_level fl sz (unat (offset_content (fl ! 0))) w ctx = (ls, Inr ())" "fl \<noteq> []"
    "fst w \<le> snd w"
  shows "leaves_tile w (clamp w (unat (offset_content (fl ! 0))))
    (clamp w (unat (offset_content (fl ! 0)) + sz)) ls"
  using assms walk_leaf_loop_tile [of fl _ w ctx 0 ls]
  by (auto simp: walk_leaf_level_def checked_add_def level_bound_def split: if_splits option.splits)

text \<open>What the walk of a deeper level is relied on for.\<close>

definition covers :: "urange \<Rightarrow> (fragment_reference list \<Rightarrow> nat \<Rightarrow> walk_out) \<Rightarrow> bool" where
  "covers w recurse \<longleftrightarrow>
     (\<forall>sub sz ls. sub \<noteq> [] \<longrightarrow> recurse sub sz = (ls, Inr ()) \<longrightarrow>
        leaves_tile w (clamp w (unat (offset_content (sub ! 0))))
          (clamp w (unat (offset_content (sub ! 0)) + sz)) ls)"

lemma covers_walk_child:
  "covers w recurse \<Longrightarrow> fst w \<le> snd w \<Longrightarrow> covers w (walk_child recurse leaves w ctx)"
  by (auto simp: covers_def walk_child_def walk_leaf_level_tile)

lemma sublist_coverage_ok:
  "sublist_coverage p sub sz (s, e) = Inr () \<Longrightarrow>
   sub \<noteq> [] \<and> unat (offset_content (sub ! 0)) = s \<and> s + sz = e"
  by (auto simp: sublist_coverage_def Let_def checked_add_def split: if_splits)

lemma walk_prefetched_tile:
  assumes "walk_prefetched recurse load ctx fl le w leaves i r = (ls, Inr ())" "i < length fl"
    "covers w recurse" "fst w \<le> snd w"
  shows "leaves_tile w (clamp w (level_bound fl le i)) (clamp w (level_bound fl le (Suc i))) ls \<and> r = Inr ()"
proof -
  obtain f buf where load: "load (Address (ref_hash (fl ! i)) ctx) = Inr (f, buf)"
    using assms(1) by (cases r) (auto simp: walk_prefetched_def split: sum.splits)
  have r: "r = Inr ()"
    using assms(1) by (cases r) (auto simp: walk_prefetched_def load)
  then obtain e where e: "entry_window fl i le = Inr e"
    and cov: "sublist_coverage (fl ! i) (as_type_slice buf) (unat (size_content f)) e = Inr ()"
    and child: "walk_child recurse leaves w ctx (as_type_slice buf) (unat (size_content f)) = (ls, Inr ())"
    using assms(1)
    by (auto simp: walk_prefetched_def load Let_def split: if_splits sum.splits prod.splits)
  have ew: "e = (level_bound fl le i, level_bound fl le (Suc i))"
    using e assms(2) by (simp add: entry_window_Inr_iff)
  note sub = sublist_coverage_ok [OF cov [unfolded ew]]
  have "leaves_tile w (clamp w (unat (offset_content (as_type_slice buf ! 0))))
      (clamp w (unat (offset_content (as_type_slice buf ! 0)) + unat (size_content f))) ls"
    using covers_walk_child [OF assms(3,4), of leaves ctx] sub child unfolding covers_def by blast
  with sub r show ?thesis by simp
qed

lemma walk_remaining_tile:
  assumes "walk_remaining recurse load ctx fl le w leaves [i..<n] r = (ls, Inr ())" "i \<le> n"
    "n \<le> length fl" "covers w recurse" "fst w \<le> snd w"
  shows "leaves_tile w (clamp w (level_bound fl le i)) (clamp w (level_bound fl le n)) ls \<and> r = Inr ()"
  using assms(1,2)
proof (induction "n - i" arbitrary: i r ls)
  case 0
  then show ?case by simp
next
  case (Suc k)
  then have i: "i < n" by simp
  then have upt: "[i..<n] = i # [Suc i..<n]" by (simp add: upt_conv_Cons)
  obtain l1 r1 l2 where
    first: "walk_prefetched recurse load ctx fl le w leaves i r = (l1, r1)"
    and rest: "walk_remaining recurse load ctx fl le w leaves [Suc i..<n] r1 = (l2, Inr ())"
    and ls: "ls = l1 @ l2"
    using Suc.prems(1) unfolding upt by (auto split: prod.splits)
  have "leaves_tile w (clamp w (level_bound fl le (Suc i))) (clamp w (level_bound fl le n)) l2 \<and> r1 = Inr ()"
    using Suc.hyps(1) [OF _ rest] Suc.hyps(2) i by simp
  with first ls i assms(3) walk_prefetched_tile [OF _ _ assms(4,5), of load ctx fl le leaves i r l1]
  show ?case by (auto intro: leaves_tile_append)
qed

lemma walk_intermediate_level_tile:
  assumes "walk_intermediate_level recurse load ctx fl le w (a, b) ff fb = (ls, Inr ())"
    "a < b" "b \<le> length fl" "covers w recurse" "fst w \<le> snd w"
  shows "leaves_tile w (clamp w (level_bound fl le a)) (clamp w (level_bound fl le b)) ls"
proof -
  have a: "a < length fl" using assms by simp
  from assms(1) obtain e where e: "entry_window fl a le = Inr e"
    and cov: "sublist_coverage (fl ! a) (as_type_slice fb) (unat (size_content ff)) e = Inr ()"
    unfolding walk_intermediate_level_def
    by (auto simp: Let_def split: if_splits sum.splits)
  have ew: "e = (level_bound fl le a, level_bound fl le (Suc a))"
    using e a by (simp add: entry_window_Inr_iff)
  note sub = sublist_coverage_ok [OF cov [unfolded ew]]
  from assms(1) cov obtain leaves l1 r1 where
    child: "walk_child recurse leaves w ctx (as_type_slice fb) (unat (size_content ff)) = (l1, r1)"
    and out: "(if \<not> is_ok r1 \<or> [a + 1..<b] = [] then (l1, r1)
      else let (l2, r2) = walk_remaining recurse load ctx fl le w leaves [a + 1..<b] r1 in (l1 @ l2, r2)) =
      (ls, Inr ())"
    unfolding walk_intermediate_level_def
    by (auto simp: Let_def e split: if_splits sum.splits prod.splits option.splits)
  from out have r1: "r1 = Inr ()" by (cases r1) (auto split: if_splits)
  have first: "leaves_tile w (clamp w (level_bound fl le a)) (clamp w (level_bound fl le (Suc a))) l1"
    using covers_walk_child [OF assms(4,5), of leaves ctx] sub child [unfolded r1]
    unfolding covers_def by fastforce
  show ?thesis
  proof (cases "[a + 1..<b] = []")
    case True
    with out r1 assms(2) have "ls = l1" "b = Suc a" by auto
    with first show ?thesis by simp
  next
    case False
    with out r1 obtain l2 where
      "walk_remaining recurse load ctx fl le w leaves [a + 1..<b] r1 = (l2, Inr ())" "ls = l1 @ l2"
      by (auto split: prod.splits)
    with walk_remaining_tile [OF this(1) _ assms(3-5)] assms(2) first show ?thesis
      by (auto intro: leaves_tile_append)
  qed
qed

lemma walk_fragment_level_tile:
  assumes "fst w \<le> snd w"
  shows "covers w (walk_fragment_level load ctx w depth)"
  unfolding covers_def
proof (intro allI impI)
  fix fl sz ls
  assume "fl \<noteq> []" "walk_fragment_level load ctx w depth fl sz = (ls, Inr ())"
  then show "leaves_tile w (clamp w (unat (offset_content (fl ! 0))))
      (clamp w (unat (offset_content (fl ! 0)) + sz)) ls"
  proof (induction "Suc MAX_FRAGMENT_TREE_DEPTH - depth" arbitrary: depth fl sz ls rule: less_induct)
    case less
    let ?le = "unat (offset_content (fl ! 0)) + sz"
    have depth: "depth \<le> MAX_FRAGMENT_TREE_DEPTH" and le: "?le < U64_RANGE"
      using less.prems by (subst (asm) walk_fragment_level.simps,
          auto simp: Let_def checked_add_def split: if_splits)+
    have IH: "covers w (walk_fragment_level load ctx w (depth + 1))"
      unfolding covers_def using less.hyps [of "depth + 1"] depth by auto
    from less.prems depth le obtain res where res: "wanted_entries fl ?le w = Inr res"
      by (subst (asm) walk_fragment_level.simps) (auto simp: checked_add_def Let_def split: sum.splits)
    note inv = wanted_entries_inv [OF res]
    have ends: "level_bound fl ?le 0 = unat (offset_content (fl ! 0))" "level_bound fl ?le (length fl) = ?le"
      using less.prems(1) by (auto simp: level_bound_def)
    show ?case
    proof (cases res)
      case None
      with less.prems depth le have "ls = []"
        by (subst (asm) walk_fragment_level.simps) (auto simp: checked_add_def Let_def res)
      moreover have "clamp w (level_bound fl ?le 0) = clamp w (level_bound fl ?le (length fl))"
        using wanted_inv_None inv None by (intro clamp_skip [OF _ _ assms]) auto
      ultimately show ?thesis by (simp add: ends)
    next
      case (Some ab)
      then obtain a b where ab: "res = Some (a, b)" by (cases ab) auto
      have hull: "a < b" "b \<le> length fl" using wanted_inv_Some [OF inv [unfolded ab]] by blast+
      from less.prems depth le obtain ff fb where load: "load (Address (ref_hash (fl ! a)) ctx) = Inr (ff, fb)"
        by (subst (asm) walk_fragment_level.simps)
          (auto simp: checked_add_def Let_def res ab split: sum.splits)
      show ?thesis
      proof (cases "flags ff AND PayloadFragmented = PayloadFragmented")
        case True
        with less.prems depth le have "walk_intermediate_level (walk_fragment_level load ctx w (depth + 1))
            load ctx fl ?le w (a, b) ff fb = (ls, Inr ())"
          by (subst (asm) walk_fragment_level.simps) (simp add: checked_add_def Let_def res ab load)
        note mid = walk_intermediate_level_tile [OF this hull IH assms]
        have "clamp w (level_bound fl ?le 0) = clamp w (level_bound fl ?le a)"
          "clamp w (level_bound fl ?le b) = clamp w (level_bound fl ?le (length fl))"
          using wanted_inv_Some(5,6) [OF inv [unfolded ab]] hull by (auto intro!: clamp_skip [OF _ _ assms])
        with mid show ?thesis by (simp add: ends)
      next
        case False
        with less.prems depth le have
          "walk_leaf_level fl sz (unat (offset_content (fl ! 0))) w ctx = (ls, Inr ())"
          by (subst (asm) walk_fragment_level.simps) (simp add: checked_add_def Let_def res ab load)
        from walk_leaf_level_tile [OF this less.prems(1) assms] show ?thesis .
      qed
    qed
  qed
qed

lemma leaves_tile_shift:
  "fst w \<le> a \<Longrightarrow> leaves_tile w a b ls \<Longrightarrow> leaves_tile (0, x) (a - fst w) (b - fst w) ls"
proof (induction ls arbitrary: a)
  case (Cons l ls)
  have "leaves_tile (0, x) (a + leaf_len l - fst w) (b - fst w) ls"
    using Cons.prems by (intro Cons.IH) auto
  with Cons.prems show ?case by (simp add: diff_less_mono)
qed simp

section \<open>A tree that holds given content\<close>

text \<open>
  \<open>tree_at load ctx d h lo hi\<close>: the fragment named \<open>h\<close> is a tree of height \<open>d\<close>
  for the content from position \<open>lo\<close> to \<open>hi\<close>. A leaf is a fragment that is no list; a
  list is the layout of references that are trees themselves and adjoin each other. \<open>leaf\<close> says
  what is known of the leaves, such as the content they load.
\<close>

fun level_at :: "(hash \<Rightarrow> nat \<Rightarrow> nat \<Rightarrow> bool) \<Rightarrow> nat \<Rightarrow> nat \<Rightarrow> fragment_reference list \<Rightarrow> bool" where
  "level_at child lo hi [] \<longleftrightarrow> lo = hi"
| "level_at child lo hi (r # rs) \<longleftrightarrow>
     unat (offset_content r) = lo \<and> \<not> hash_is_zero (ref_hash r) \<and>
     (\<exists>m. lo < m \<and> m \<le> hi \<and> child (ref_hash r) lo m \<and> level_at child m hi rs)"

fun tree_at ::
  "loader \<Rightarrow> lore_context \<Rightarrow> (hash \<Rightarrow> nat \<Rightarrow> nat \<Rightarrow> bool) \<Rightarrow> nat \<Rightarrow> hash \<Rightarrow> nat \<Rightarrow> nat \<Rightarrow> bool" where
  "tree_at load ctx leaf 0 h lo hi \<longleftrightarrow>
     hi - lo \<le> FRAGMENT_SIZE_THRESHOLD \<and> leaf h lo hi \<and>
     (\<exists>f buf. load (Address h ctx) = Inr (f, buf) \<and> flags f AND PayloadFragmented = 0)"
| "tree_at load ctx leaf (Suc d) h lo hi \<longleftrightarrow>
     (\<exists>f buf. load (Address h ctx) = Inr (f, buf) \<and>
        flags f AND PayloadFragmented = PayloadFragmented \<and>
        unat (size_payload f) \<le> length buf \<and> lo + unat (size_content f) = hi \<and> lo < hi \<and>
        level_at (tree_at load ctx leaf d) lo hi (as_type_slice buf))"

lemma level_at_bounds:
  assumes "level_at child lo hi fl" "i < length fl"
  shows "entry_ok fl hi i \<and>
    child (ref_hash (fl ! i)) (level_bound fl hi i) (level_bound fl hi (Suc i)) \<and> level_bound fl hi 0 = lo"
  using assms
proof (induction child lo hi fl arbitrary: i rule: level_at.induct)
  case (2 child lo hi r rs)
  then obtain m where m: "unat (offset_content r) = lo" "\<not> hash_is_zero (ref_hash r)" "lo < m"
    "child (ref_hash r) lo m" "level_at child m hi rs" by auto
  have start: "level_bound rs hi 0 = m"
    using m(5) by (cases rs) (auto simp: level_bound_def)
  have shift: "level_bound (r # rs) hi (Suc k) = level_bound rs hi k" for k
    by (simp add: level_bound_def)
  have lo: "level_bound (r # rs) hi 0 = lo" using m(1) by (simp add: level_bound_def)
  show ?case
  proof (cases i)
    case 0
    with m lo start show ?thesis by (simp add: entry_ok_def shift)
  next
    case (Suc k)
    with "2.IH" [of m k] m "2.prems" lo show ?thesis by (auto simp: entry_ok_def shift)
  qed
qed simp

section \<open>The walk of a tree succeeds\<close>

definition leaf_ok ::
  "loader \<Rightarrow> lore_context \<Rightarrow> (hash \<Rightarrow> nat \<Rightarrow> nat \<Rightarrow> bool) \<Rightarrow> urange \<Rightarrow> leaf_reference \<Rightarrow> bool" where
  "leaf_ok load ctx leaf w l \<longleftrightarrow>
     leaf_context l = ctx \<and>
     (\<exists>a. target_offset l + fst w = a + fst (clip l) \<and>
        tree_at load ctx leaf 0 (leaf_hash l) a (a + expected_size l))"

text \<open>A walk that succeeds, and yields leaves of the tree only, on every level of a given height.\<close>

definition walks ::
  "loader \<Rightarrow> lore_context \<Rightarrow> (hash \<Rightarrow> nat \<Rightarrow> nat \<Rightarrow> bool) \<Rightarrow> urange \<Rightarrow> nat \<Rightarrow>
   (fragment_reference list \<Rightarrow> nat \<Rightarrow> walk_out) \<Rightarrow> bool" where
  "walks load ctx leaf w d f \<longleftrightarrow>
     (\<forall>fl lo hi. level_at (tree_at load ctx leaf d) lo hi fl \<longrightarrow> fl \<noteq> [] \<longrightarrow> hi < U64_RANGE \<longrightarrow>
        (\<exists>ls. f fl (hi - lo) = (ls, Inr ()) \<and> (\<forall>l \<in> set ls. leaf_ok load ctx leaf w l)))"

lemma level_at_start: "level_at child lo hi fl \<Longrightarrow> fl \<noteq> [] \<Longrightarrow> unat (offset_content (fl ! 0)) = lo \<and> lo < hi"
  by (cases fl) auto

lemma level_at_entry_ok: "level_at child lo hi fl \<Longrightarrow> i < length fl \<Longrightarrow> entry_ok fl hi i"
  using level_at_bounds by blast

lemma level_at_child:
  "level_at child lo hi fl \<Longrightarrow> i < length fl \<Longrightarrow>
   child (ref_hash (fl ! i)) (level_bound fl hi i) (level_bound fl hi (Suc i))"
  using level_at_bounds by blast

lemma level_bound_le: "level_at child lo hi fl \<Longrightarrow> i \<le> length fl \<Longrightarrow> level_bound fl hi i \<le> hi"
proof (induction "length fl - i" arbitrary: i)
  case 0
  then show ?case by (simp add: level_bound_def)
next
  case (Suc n)
  then have i: "i < length fl" "n = length fl - Suc i" by auto
  with Suc have "level_bound fl hi (Suc i) \<le> hi" by simp
  with level_at_entry_ok [OF Suc.prems(1) i(1)] show ?case by (simp add: entry_ok_def)
qed

lemma walk_leaf_loop_ok:
  assumes "level_at (tree_at load ctx leaf 0) lo hi fl" "i \<le> length fl"
  shows "\<exists>ls. walk_leaf_loop fl hi w ctx [i..<length fl] = (ls, Inr ()) \<and>
    (\<forall>l \<in> set ls. leaf_ok load ctx leaf w l)"
  using assms(2)
proof (induction "length fl - i" arbitrary: i)
  case 0
  then show ?case by simp
next
  case (Suc n)
  then have i: "i < length fl" and n: "n = length fl - Suc i" by auto
  then have upt: "[i..<length fl] = i # [Suc i..<length fl]" by (simp add: upt_conv_Cons)
  let ?s = "level_bound fl hi i" and ?e = "level_bound fl hi (Suc i)"
  note ok = level_at_entry_ok [OF assms(1) i]
  note child = level_at_child [OF assms(1) i]
  have e: "entry_window fl i hi = Inr (?s, ?e)"
    using ok i by (simp add: entry_window_Inr_iff)
  have lt: "?s < ?e" using ok by (simp add: entry_ok_def)
  obtain ls where rest: "walk_leaf_loop fl hi w ctx [Suc i..<length fl] = (ls, Inr ())"
    "\<forall>l \<in> set ls. leaf_ok load ctx leaf w l"
    using Suc.hyps(1) [OF n] i by auto
  show ?case
  proof (cases "clip_to_window (?s, ?e) w")
    case None
    with rest child show ?thesis unfolding upt by (simp add: e)
  next
    case (Some c)
    note c = clip_Some_clamp [OF Some]
    let ?l = "\<lparr>leaf_hash = ref_hash (fl ! i), target_offset = ?s + fst c - fst w,
        expected_size = ?e - ?s, clip = c, leaf_context = ctx\<rparr>"
    have "leaf_ok load ctx leaf w ?l"
      unfolding leaf_ok_def using c lt child by (auto intro!: exI [of _ ?s])
    with rest child Some show ?thesis unfolding upt by (simp add: e)
  qed
qed

lemma walks_leaf_level:
  "walks load ctx leaf w 0 (\<lambda>fl sz. walk_leaf_level fl sz (unat (offset_content (fl ! 0))) w ctx)"
  unfolding walks_def
proof (intro allI impI)
  fix fl lo hi
  assume a: "level_at (tree_at load ctx leaf 0) lo hi fl" "fl \<noteq> []" "hi < U64_RANGE"
  show "\<exists>ls. walk_leaf_level fl (hi - lo) (unat (offset_content (fl ! 0))) w ctx = (ls, Inr ()) \<and>
      (\<forall>l \<in> set ls. leaf_ok load ctx leaf w l)"
    using walk_leaf_loop_ok [OF a(1), of 0 w] level_at_start [OF a(1,2)] a(3)
    by (simp add: walk_leaf_level_def checked_add_def)
qed

lemma walks_child:
  assumes "d = 0 \<or> walks load ctx leaf w d recurse"
  shows "walks load ctx leaf w d (walk_child recurse (d = 0) w ctx)"
  using assms walks_leaf_level [of load ctx leaf w]
  by (cases "d = 0") (simp_all add: walks_def walk_child_def [abs_def])

lemma sublist_coverage_okI:
  assumes "\<not> hash_is_zero (ref_hash p)" "unat (offset_content p) = lo"
    "level_at child lo hi sub" "sub \<noteq> []" "hi < U64_RANGE"
  shows "sublist_coverage p sub (hi - lo) (lo, hi) = Inr ()"
  using assms level_at_start [OF assms(3,4)]
  by (simp add: sublist_coverage_def checked_add_def)

lemma tree_at_SucE:
  assumes "tree_at load ctx leaf (Suc d) h lo hi"
  obtains f buf where "load (Address h ctx) = Inr (f, buf)"
    "flags f AND PayloadFragmented = PayloadFragmented" "\<not> length buf < unat (size_payload f)"
    "unat (size_content f) = hi - lo" "level_at (tree_at load ctx leaf d) lo hi (as_type_slice buf)"
    "as_type_slice buf \<noteq> []" "lo < hi"
proof -
  from assms obtain f buf where f: "load (Address h ctx) = Inr (f, buf)"
    "flags f AND PayloadFragmented = PayloadFragmented" "unat (size_payload f) \<le> length buf"
    "lo + unat (size_content f) = hi" "lo < hi"
    "level_at (tree_at load ctx leaf d) lo hi (as_type_slice buf)" by auto
  moreover from f(5,6) have "as_type_slice buf \<noteq> []" by (cases "as_type_slice buf") auto
  ultimately show thesis by (intro that [of f buf]) auto
qed

lemma walk_prefetched_ok:
  assumes fl: "level_at (tree_at load ctx leaf (Suc d)) lo hi fl" "i < length fl" "hi < U64_RANGE"
    and rec: "d = 0 \<or> walks load ctx leaf w d recurse"
  shows "\<exists>ls. walk_prefetched recurse load ctx fl hi w (d = 0) i (Inr ()) = (ls, Inr ()) \<and>
    (\<forall>l \<in> set ls. leaf_ok load ctx leaf w l)"
proof -
  let ?s = "level_bound fl hi i" and ?e = "level_bound fl hi (Suc i)"
  note ok = level_at_entry_ok [OF fl(1,2)]
  have e: "entry_window fl i hi = Inr (?s, ?e)" using ok fl(2) by (simp add: entry_window_Inr_iff)
  have le: "?e < U64_RANGE" using level_bound_le [OF fl(1), of "Suc i"] fl(2,3) by simp
  from level_at_child [OF fl(1,2)] obtain f buf where
    f: "load (Address (ref_hash (fl ! i)) ctx) = Inr (f, buf)" "\<not> length buf < unat (size_payload f)"
    "unat (size_content f) = ?e - ?s" "level_at (tree_at load ctx leaf d) ?s ?e (as_type_slice buf)"
    "as_type_slice buf \<noteq> []" by (rule tree_at_SucE)
  have cov: "sublist_coverage (fl ! i) (as_type_slice buf) (?e - ?s) (?s, ?e) = Inr ()"
    using ok fl(2) by (intro sublist_coverage_okI [OF _ _ f(4,5) le])
      (auto simp: entry_ok_def level_bound_def)
  from walks_child [OF rec] f(4,5) le obtain ls where
    "walk_child recurse (d = 0) w ctx (as_type_slice buf) (?e - ?s) = (ls, Inr ())"
    "\<forall>l \<in> set ls. leaf_ok load ctx leaf w l" unfolding walks_def by blast
  with f e cov show ?thesis by (simp add: walk_prefetched_def Let_def)
qed

lemma walk_remaining_ok:
  assumes fl: "level_at (tree_at load ctx leaf (Suc d)) lo hi fl" "hi < U64_RANGE"
    and rec: "d = 0 \<or> walks load ctx leaf w d recurse" and js: "\<forall>i \<in> set js. i < length fl"
  shows "\<exists>ls. walk_remaining recurse load ctx fl hi w (d = 0) js (Inr ()) = (ls, Inr ()) \<and>
    (\<forall>l \<in> set ls. leaf_ok load ctx leaf w l)"
  using js
proof (induction js)
  case (Cons i js)
  then obtain ls where "walk_remaining recurse load ctx fl hi w (d = 0) js (Inr ()) = (ls, Inr ())"
    "\<forall>l \<in> set ls. leaf_ok load ctx leaf w l" by auto
  moreover obtain ls' where "walk_prefetched recurse load ctx fl hi w (d = 0) i (Inr ()) = (ls', Inr ())"
    "\<forall>l \<in> set ls'. leaf_ok load ctx leaf w l"
    using walk_prefetched_ok [OF fl(1) _ fl(2) rec, of i] Cons by auto
  ultimately show ?case by auto
qed simp

lemma overlapping_child:
  assumes "level_at child lo hi fl" "clip_to_window (lo, hi) w \<noteq> None"
  shows "\<exists>a b. wanted_entries fl hi w = Inr (Some (a, b)) \<and> a < length fl"
proof -
  obtain res where res: "wanted_entries fl hi w = Inr res" "wanted_inv fl hi w (length fl) res"
    using wanted_entries_ok [of fl hi w] level_at_entry_ok [OF assms(1)] by blast
  obtain c where "clip_to_window (lo, hi) w = Some c" using assms(2) by blast
  note c = clip_Some_clamp [OF this]
  have w: "fst w \<le> snd w" using c by (auto simp: clamp_def)
  have "lo = level_bound fl hi 0" "hi = level_bound fl hi (length fl)"
    using assms(1) by (cases fl; auto simp: level_bound_def)+
  then have "\<not> (\<forall>k < length fl. entry_ok fl hi k \<and> \<not> overlaps fl hi w k)"
    using c(2) clamp_skip [OF _ _ w, of 0 "length fl" fl hi] by auto
  then have "res \<noteq> None"
    using res(2) wanted_inv_None by metis
  then obtain a b where ab: "res = Some (a, b)" by fastforce
  show ?thesis using res(1) wanted_inv_Some(1,2) [OF res(2) [unfolded ab]] by (simp add: ab)
qed

lemma tree_at_peek:
  assumes "tree_at load ctx leaf d h lo hi"
  shows "\<exists>f buf. load (Address h ctx) = Inr (f, buf) \<and>
    (flags f AND PayloadFragmented = PayloadFragmented \<longleftrightarrow> d \<noteq> 0)"
  using assms by (cases d) (auto simp: PayloadFragmented_def)

lemma walk_intermediate_level_ok:
  assumes fl: "level_at (tree_at load ctx leaf (Suc d)) lo hi fl" "hi < U64_RANGE"
    and rec: "d = 0 \<or> walks load ctx leaf w d recurse"
    and ab: "a < b" "b \<le> length fl" "overlaps fl hi w a"
    and first: "load (Address (ref_hash (fl ! a)) ctx) = Inr (ff, fb)"
  shows "\<exists>ls. walk_intermediate_level recurse load ctx fl hi w (a, b) ff fb = (ls, Inr ()) \<and>
    (\<forall>l \<in> set ls. leaf_ok load ctx leaf w l)"
proof -
  let ?s = "level_bound fl hi a" and ?e = "level_bound fl hi (Suc a)"
  have a: "a < length fl" using ab by simp
  note ok = level_at_entry_ok [OF fl(1) a]
  have e: "entry_window fl a hi = Inr (?s, ?e)" using ok a by (simp add: entry_window_Inr_iff)
  have le: "?e < U64_RANGE" using level_bound_le [OF fl(1), of "Suc a"] a fl(2) by simp
  from level_at_child [OF fl(1) a] first have
    f: "\<not> length fb < unat (size_payload ff)" "unat (size_content ff) = ?e - ?s"
    "level_at (tree_at load ctx leaf d) ?s ?e (as_type_slice fb)" "as_type_slice fb \<noteq> []"
    by (auto elim!: tree_at_SucE simp del: tree_at.simps)
  have cov: "sublist_coverage (fl ! a) (as_type_slice fb) (?e - ?s) (?s, ?e) = Inr ()"
    using ok a by (intro sublist_coverage_okI [OF _ _ f(3,4) le]) (auto simp: entry_ok_def level_bound_def)
  obtain p q where peek: "wanted_entries (as_type_slice fb) ?e w = Inr (Some (p, q))"
    "p < length (as_type_slice fb)"
    using overlapping_child [OF f(3)] ab(3) unfolding overlaps_def by blast
  obtain pf pb where pl: "load (Address (ref_hash (as_type_slice fb ! p)) ctx) = Inr (pf, pb)"
    "flags pf AND PayloadFragmented = PayloadFragmented \<longleftrightarrow> d \<noteq> 0"
    using tree_at_peek [OF level_at_child [OF f(3) peek(2)]] by blast
  from walks_child [OF rec] f(3,4) le obtain ls where
    ls: "walk_child recurse (d = 0) w ctx (as_type_slice fb) (?e - ?s) = (ls, Inr ())"
    "\<forall>l \<in> set ls. leaf_ok load ctx leaf w l" unfolding walks_def by blast
  obtain ls' where
    ls': "walk_remaining recurse load ctx fl hi w (d = 0) [a + 1..<b] (Inr ()) = (ls', Inr ())"
    "\<forall>l \<in> set ls'. leaf_ok load ctx leaf w l"
    using walk_remaining_ok [OF fl rec, of "[a + 1..<b]"] ab by auto
  show ?thesis
    using f e cov peek pl ls ls' by (simp add: walk_intermediate_level_def Let_def) blast
qed

lemma walk_fragment_level_ok:
  assumes "depth + d \<le> MAX_FRAGMENT_TREE_DEPTH + 1" "depth \<le> MAX_FRAGMENT_TREE_DEPTH"
  shows "walks load ctx leaf w d (walk_fragment_level load ctx w depth)"
  using assms
proof (induction d arbitrary: depth)
  case 0
  show ?case
    unfolding walks_def
  proof (intro allI impI)
    fix fl lo hi
    assume a: "level_at (tree_at load ctx leaf 0) lo hi fl" "fl \<noteq> []" "hi < U64_RANGE"
    note start = level_at_start [OF a(1,2)]
    obtain res where res: "wanted_entries fl hi w = Inr res" "wanted_inv fl hi w (length fl) res"
      using wanted_entries_ok [of fl hi w] level_at_entry_ok [OF a(1)] by blast
    obtain ls where ls: "walk_leaf_level fl (hi - lo) lo w ctx = (ls, Inr ())"
      "\<forall>l \<in> set ls. leaf_ok load ctx leaf w l"
      using walks_leaf_level [of load ctx leaf w] a start unfolding walks_def by metis
    show "\<exists>ls. walk_fragment_level load ctx w depth fl (hi - lo) = (ls, Inr ()) \<and>
        (\<forall>l \<in> set ls. leaf_ok load ctx leaf w l)"
    proof (cases res)
      case None
      with 0 a start res show ?thesis
        by (subst walk_fragment_level.simps) (simp add: checked_add_def)
    next
      case (Some ab)
      then have "fst ab < length fl"
        using wanted_inv_Some(1,2) [of fl hi w "length fl" "fst ab" "snd ab"] res(2) by simp
      from tree_at_peek [OF level_at_child [OF a(1) this]] 0 a start res Some ls show ?thesis
        by (subst walk_fragment_level.simps) (auto simp: checked_add_def)
    qed
  qed
next
  case (Suc d)
  show ?case
    unfolding walks_def
  proof (intro allI impI)
    fix fl lo hi
    assume a: "level_at (tree_at load ctx leaf (Suc d)) lo hi fl" "fl \<noteq> []" "hi < U64_RANGE"
    note start = level_at_start [OF a(1,2)]
    obtain res where res: "wanted_entries fl hi w = Inr res" "wanted_inv fl hi w (length fl) res"
      using wanted_entries_ok [of fl hi w] level_at_entry_ok [OF a(1)] by blast
    have rec: "d = 0 \<or> walks load ctx leaf w d (walk_fragment_level load ctx w (depth + 1))"
      using Suc.IH [of "depth + 1"] Suc.prems by (cases "d = 0") simp_all
    show "\<exists>ls. walk_fragment_level load ctx w depth fl (hi - lo) = (ls, Inr ()) \<and>
        (\<forall>l \<in> set ls. leaf_ok load ctx leaf w l)"
    proof (cases res)
      case None
      with Suc.prems a start res show ?thesis
        by (subst walk_fragment_level.simps) (simp add: checked_add_def)
    next
      case (Some ab)
      obtain p q where ab: "res = Some (p, q)" "p < q" "q \<le> length fl" "overlaps fl hi w p"
        using wanted_inv_Some(1-3) [of fl hi w "length fl" "fst ab" "snd ab"] res(2) Some
        by (cases ab) simp
      from level_at_child [OF a(1), of p] ab obtain ff fb where
        ff: "load (Address (ref_hash (fl ! p)) ctx) = Inr (ff, fb)"
        "flags ff AND PayloadFragmented = PayloadFragmented"
        by (auto elim!: tree_at_SucE simp del: tree_at.simps)
      from walk_intermediate_level_ok [OF a(1,3) rec ab(2-4) ff(1)] ff Suc.prems a start res ab(1)
      show ?thesis
        by (subst walk_fragment_level.simps) (simp add: checked_add_def)
    qed
  qed
qed

section \<open>The walk from the root\<close>

lemma clamp_inside: "fst w \<le> x \<Longrightarrow> x \<le> snd w \<Longrightarrow> clamp w x = x"
  by (simp add: clamp_def)

lemma clamp_below: "x \<le> fst w \<Longrightarrow> fst w \<le> snd w \<Longrightarrow> clamp w x = fst w"
  by (simp add: clamp_def)

lemma clamp_above: "snd w \<le> x \<Longrightarrow> fst w \<le> snd w \<Longrightarrow> clamp w x = snd w"
  by (simp add: clamp_def)

lemma walk_fragment_tree_tile:
  assumes "walk_fragment_tree load a f buf (s, e) = (ls, Inr ())" "s \<le> e" "e \<le> unat (size_content f)"
  shows "leaves_tile (0, e - s) 0 (e - s) ls"
proof -
  let ?fl = "as_type_slice buf"
  let ?base = "unat (offset_content (?fl ! 0))"
  let ?w = "(?base + s, ?base + e)"
  from assms(1) have ne: "?fl \<noteq> []"
    and walk: "walk_fragment_level load (addr_context a) ?w 0 ?fl (unat (size_content f)) = (ls, Inr ())"
    by (auto simp: walk_fragment_tree_def Let_def checked_add_def split: if_splits)
  have w: "fst ?w \<le> snd ?w" using assms(2) by simp
  from walk_fragment_level_tile [OF w, of load "addr_context a" 0] ne walk
  have "leaves_tile ?w (clamp ?w ?base) (clamp ?w (?base + unat (size_content f))) ls"
    unfolding covers_def by blast
  then have "leaves_tile ?w (?base + s) (?base + e) ls"
    using assms(2,3) by (simp add: clamp_below clamp_above)
  from leaves_tile_shift [OF _ this, of "e - s"] show ?thesis by simp
qed

lemma walk_fragment_tree_ok:
  assumes "level_at (tree_at load (addr_context a) leaf d) lo hi (as_type_slice buf)"
    "d \<le> MAX_FRAGMENT_TREE_DEPTH + 1" "lo < hi" "hi < U64_RANGE"
    "unat (size_content f) = hi - lo" "unat (size_payload f) \<le> length buf" "s \<le> e" "e \<le> hi - lo"
  shows "\<exists>ls. walk_fragment_tree load a f buf (s, e) = (ls, Inr ()) \<and>
    (\<forall>l \<in> set ls. leaf_ok load (addr_context a) leaf (lo + s, lo + e) l)"
proof -
  have ne: "as_type_slice buf \<noteq> []" using assms(1,3) by (cases "as_type_slice buf") auto
  note start = level_at_start [OF assms(1) ne]
  have "walks load (addr_context a) leaf (lo + s, lo + e) d
      (walk_fragment_level load (addr_context a) (lo + s, lo + e) 0)"
    using assms(2) by (intro walk_fragment_level_ok) auto
  with assms(1,4) ne obtain ls where "walk_fragment_level load (addr_context a) (lo + s, lo + e) 0 (as_type_slice buf) (hi - lo)
      = (ls, Inr ())" "\<forall>l \<in> set ls. leaf_ok load (addr_context a) leaf (lo + s, lo + e) l"
    unfolding walks_def by meson
  moreover have "lo + s < U64_RANGE" "lo + e < U64_RANGE" using assms(3-8) by linarith+
  ultimately show ?thesis using assms ne start
    by (simp add: walk_fragment_tree_def Let_def checked_add_def)
qed

text \<open>
  C3. Whatever a store or a peer answers, a walk that succeeds has validated the tree it went through:
  the leaves it yields, in order, tile exactly the range asked for, without gap or overlap, each part
  within its leaf and each leaf within the fragment size threshold.
\<close>

theorem walk_leaves_tile_the_range:
  assumes "walk_fragment_tree load address fragment source_buffer (s, e) = (leaves, Inr ())"
    "s \<le> e" "e \<le> unat (size_content fragment)"
  shows "leaves_tile (0, e - s) 0 (e - s) leaves"
  using assms by (rule walk_fragment_tree_tile)

text \<open>A store of two leaves, of two and of three bytes, for the witnesses.\<close>

definition two_leaves :: loader where
  "two_leaves a =
     (if addr_hash a = Hash 1 then Inr (\<lparr>flags = 0, size_payload = 2, size_content = 2\<rparr>, [10, 11])
      else if addr_hash a = Hash 2 then Inr (\<lparr>flags = 0, size_payload = 3, size_content = 3\<rparr>, [12, 13, 14])
      else Inl AddressNotFound)"

definition two_refs :: "fragment_reference list" where
  "two_refs = [FragmentReference (Hash 1) 0, FragmentReference (Hash 2) 2]"

definition two_root :: fragment where
  "two_root = \<lparr>flags = 1, size_payload = 80, size_content = 5\<rparr>"

lemmas walk_eval = walk_fragment_tree_def walk_fragment_level.simps wanted_entries_def entry_window_def
  clip_to_window_def walk_leaf_level_def checked_add_def checked_sub_def hash_is_zero_def Let_def
  MAX_FRAGMENT_TREE_DEPTH_def FRAGMENT_SIZE_THRESHOLD_def

theorem walk_leaves_tile_the_range_witness:
  "\<exists>leaves. walk_fragment_tree two_leaves (Address (Hash 9) (Context 0)) two_root (list_as_bytes two_refs) (1, 4)
      = (leaves, Inr ()) \<and> length leaves = 2 \<and> leaves_tile (0, 3) 0 3 leaves"
proof -
  obtain leaves where walk: "walk_fragment_tree two_leaves (Address (Hash 9) (Context 0)) two_root
      (list_as_bytes two_refs) (1, 4) = (leaves, Inr ())" "length leaves = 2"
    by (simp add: walk_eval two_leaves_def two_refs_def two_root_def PayloadFragmented_def
        del: list_as_bytes_simps)
  from walk_leaves_tile_the_range [OF walk(1)] walk show ?thesis by (simp add: two_root_def)
qed



end
