(* ===== verification/Defragment.thy ===== *)
theory Defragment
  imports Fragment_Walk "HOL-Library.Multiset"
begin

text \<open>
  Reassembling content from its leaves (\<open>lore-storage/src/defragment.rs\<close>): the ordered and the
  unordered fetch pool, the file sink, the pipeline that joins them to the walk, and the recursive
  read into a caller's buffer.

  Fetches of the unordered pool complete in any order; that order is an argument. Memory permits,
  channel capacities and the abandonment of a pipeline by its consumer are not modelled.
\<close>

section \<open>Leaves\<close>

definition content_leaf :: "fragment \<Rightarrow> bytes \<Rightarrow> nat \<Rightarrow> urange \<Rightarrow> bytes result" where
  "content_leaf f buffer expected cl =
     (if length buffer \<noteq> expected
      then Inl (Internal ''leaf fragment content size does not match expected'')
      else Inr (slice_of (fst cl) (snd cl) buffer))"

definition whole_leaf :: "fragment \<Rightarrow> bytes \<Rightarrow> nat \<Rightarrow> urange \<Rightarrow> (fragment \<times> bytes) result" where
  "whole_leaf f payload expected cl =
     (if unat (size_content f) \<noteq> expected
      then Inl (Internal ''leaf fragment content size does not match expected'')
      else if cl \<noteq> (0, expected)
      then Inl (Internal ''a leaf with its fragment is delivered whole, not in part'')
      else if length payload \<noteq> unat (size_payload f)
         \<or> (flags f AND PayloadCompressed = 0 \<and> unat (size_payload f) \<noteq> unat (size_content f))
      then Inl (Internal ''leaf payload does not match its fragment'')
      else Inr (f, payload))"

section \<open>Fetch pools\<close>

text \<open>The ordered pool: payloads in list order up to the first failure.\<close>

definition fetch_one ::
  "(fragment \<Rightarrow> bytes \<Rightarrow> nat \<Rightarrow> urange \<Rightarrow> 'a result) \<Rightarrow> loader \<Rightarrow> leaf_reference \<Rightarrow> 'a result" where
  "fetch_one make_leaf load l =
     bind_result (load (Address (leaf_hash l) (leaf_context l))) (\<lambda>(f, buffer).
       if flags f AND PayloadFragmented \<noteq> 0
       then Inl (Internal ''expected leaf fragment but peer returned an intermediate fragment list'')
       else make_leaf f buffer (expected_size l) (clip l))"

primrec fetch_ordered_from ::
  "(fragment \<Rightarrow> bytes \<Rightarrow> nat \<Rightarrow> urange \<Rightarrow> 'a result) \<Rightarrow> loader \<Rightarrow> leaf_reference list \<Rightarrow>
   'a list \<times> unit result" where
  "fetch_ordered_from make_leaf load [] = ([], Inr ())"
| "fetch_ordered_from make_leaf load (l # ls) =
     (case fetch_one make_leaf load l of
        Inl e \<Rightarrow> ([], Inl e)
      | Inr x \<Rightarrow> let (xs, r) = fetch_ordered_from make_leaf load ls in (x # xs, r))"

text \<open>
  The unordered pool: the leaves that were fetched, in the order in which their fetches complete,
  each as a message to the file sink. The first failure is the result; payloads completed besides
  it are sent. No further leaf is taken once a failure has been seen, so which leaves are in the
  list after a failure depends on the timing.
\<close>

definition fetch_message :: "loader \<Rightarrow> leaf_reference \<Rightarrow> (nat \<times> bytes) result" where
  "fetch_message load l =
     bind_result (load (Address (leaf_hash l) (leaf_context l))) (\<lambda>(f, buffer).
       if flags f AND PayloadFragmented \<noteq> 0
       then Inl (Internal ''expected leaf fragment but peer returned an intermediate fragment list'')
       else if length buffer \<noteq> expected_size l
       then Inl (Internal ''leaf fragment content size does not match expected'')
       else Inr (target_offset l, slice_of (fst (clip l)) (snd (clip l)) buffer))"

primrec fetch_unordered :: "loader \<Rightarrow> leaf_reference list \<Rightarrow> (nat \<times> bytes) list \<times> unit result" where
  "fetch_unordered load [] = ([], Inr ())"
| "fetch_unordered load (l # done') =
     (let (msgs, r) = fetch_unordered load done'
      in case fetch_message load l of
           Inl e \<Rightarrow> (msgs, Inl e)
         | Inr m \<Rightarrow> (m # msgs, r))"

section \<open>The file sink\<close>

text \<open>
  \<open>write_ok\<close> says whether the positional write at an offset succeeds. The file has its full
  size before the first write.
\<close>

definition write_all_at :: "nat \<Rightarrow> bytes \<Rightarrow> bytes \<Rightarrow> bytes" where
  "write_all_at offset payload file = take offset file @ payload @ drop (offset + length payload) file"

fun write_loop ::
  "(nat \<Rightarrow> bool) \<Rightarrow> nat \<Rightarrow> (nat \<times> bytes) list \<Rightarrow> nat \<Rightarrow> bytes \<Rightarrow> bytes \<times> nat \<times> unit result" where
  "write_loop write_ok sz [] written file = (file, written, Inr ())"
| "write_loop write_ok sz ((offset, payload) # msgs) written file =
     (case checked_add offset (length payload) of
        None \<Rightarrow> (file, written, Inl (Internal ''file write offset + data length overflows usize''))
      | Some fin \<Rightarrow>
          if fin > sz then (file, written, Inl (Internal ''file write out of bounds''))
          else if \<not> write_ok offset then (file, written + length payload, Inl (Internal ''write to file''))
          else write_loop write_ok sz msgs (written + length payload) (write_all_at offset payload file))"

definition write_to_file ::
  "(nat \<Rightarrow> bool) \<Rightarrow> nat \<Rightarrow> (nat \<times> bytes) list \<Rightarrow> bytes \<Rightarrow> bytes \<times> unit result" where
  "write_to_file write_ok sz msgs file =
     (let (file', written, r) = write_loop write_ok sz msgs 0 file
      in (file', if is_ok r \<and> written \<noteq> sz
                 then Inl (Internal ''defragmented content does not cover the file'') else r))"

section \<open>The pipeline\<close>

text \<open>
  \<open>load\<close> is the load of the walk, \<open>load_leaf\<close> the one of the pools, which always
  decompresses. The results of the stages are joined walk first.
\<close>

definition defragment_to_stream ::
  "loader \<Rightarrow> loader \<Rightarrow> address \<Rightarrow> fragment \<Rightarrow> bytes \<Rightarrow> urange \<Rightarrow> bytes list \<times> unit result" where
  "defragment_to_stream load load_leaf address fragment source_buffer rng =
     (let (leaves, walk_result) = walk_fragment_tree load address fragment source_buffer rng;
          (payloads, fetch_result) = fetch_ordered_from content_leaf load_leaf leaves
      in (payloads, and_result walk_result fetch_result))"

definition defragment_to_file ::
  "loader \<Rightarrow> loader \<Rightarrow> (leaf_reference list \<Rightarrow> leaf_reference list) \<Rightarrow> (nat \<Rightarrow> bool) \<Rightarrow>
   address \<Rightarrow> fragment \<Rightarrow> bytes \<Rightarrow> urange \<Rightarrow> nat \<Rightarrow> bytes \<Rightarrow> bytes \<times> unit result" where
  "defragment_to_file load load_leaf schedule write_ok address fragment source_buffer rng sz file =
     (let (leaves, walk_result) = walk_fragment_tree load address fragment source_buffer rng;
          (msgs, fetch_result) = fetch_unordered load_leaf (schedule leaves);
          (file', write_result) = write_to_file write_ok sz msgs file
      in (file', and_result (and_result walk_result fetch_result) write_result))"

definition defragment_pipeline_leaves ::
  "loader \<Rightarrow> loader \<Rightarrow> address \<Rightarrow> fragment \<Rightarrow> bytes \<Rightarrow> (fragment \<times> bytes) list \<times> unit result" where
  "defragment_pipeline_leaves load load_leaf address fragment source_buffer =
     (let (leaves, walk_result) =
        walk_fragment_tree load address fragment source_buffer (0, unat (size_content fragment));
          (payloads, fetch_result) = fetch_ordered_from whole_leaf load_leaf leaves
      in (payloads, and_result walk_result fetch_result))"

section \<open>Reading into a buffer\<close>

text \<open>
  The reads one list gives rise to, back to front: the entry, the range of its content, and how far
  into the target it ends. \<open>subread\<close> is the read of one entry one level deeper. The pieces are
  split off the end of the target one by one, so in list order they are its contents.
\<close>

function subread_plan ::
  "fragment_reference list \<Rightarrow> nat \<Rightarrow> nat \<Rightarrow> nat \<Rightarrow> nat \<Rightarrow> (hash \<times> urange) list \<Rightarrow>
   nat \<times> (hash \<times> urange) list" where
  "subread_plan fl offset fragment_begin fragment_index target_end acc =
     (if target_end \<noteq> 0 \<and> fragment_index > fragment_begin then
        let i = fragment_index - 1;
            fragment_offset = unat (offset_content (fl ! i));
            end_offset = offset + target_end
        in if fragment_offset > end_offset then (target_end, acc)
           else
             let to_read = end_offset - fragment_offset;
                 local_offset = (if to_read > target_end then offset - fragment_offset else 0);
                 to_read = (if to_read > target_end then target_end else to_read)
             in subread_plan fl offset fragment_begin i (target_end - to_read)
                  ((ref_hash (fl ! i), (local_offset, local_offset + to_read)) # acc)
      else (target_end, acc))"
  by pat_completeness auto
termination
  by (relation "measure (\<lambda>(fl, offset, b, i, te, acc). i)") auto

declare subread_plan.simps [simp del]

primrec run_subreads ::
  "(hash \<Rightarrow> urange \<Rightarrow> bytes result) \<Rightarrow> (hash \<times> urange) list \<Rightarrow> bytes result" where
  "run_subreads subread [] = Inr []"
| "run_subreads subread (p # ps) =
     bind_result (subread (fst p) (snd p)) (\<lambda>bs.
       bind_result (run_subreads subread ps) (\<lambda>rest. Inr (bs @ rest)))"

definition read_defragment ::
  "(hash \<Rightarrow> urange \<Rightarrow> bytes result) \<Rightarrow> nat \<Rightarrow> urange \<Rightarrow> fragment \<Rightarrow> bytes \<Rightarrow> nat \<Rightarrow> bytes result" where
  "read_defragment subread depth rng fragment source_buffer target_len =
     (if depth > 16 then Inl (Internal ''defragment recursion depth exceeded'')
      else if length source_buffer < unat (size_payload fragment)
      then Inl (Internal ''insufficient buffer'')
      else
        let fl = as_type_slice source_buffer
        in if fl = [] then Inl (Internal ''Defragmenting malformed fragment list'')
           else
             let first = unat (offset_content (fl ! 0))
             in bind_result (ok_or (checked_add (fst rng) first) (Internal ''fragment offset overflow''))
                  (\<lambda>offset.
             let n = (if snd rng - fst rng > target_len then target_len else snd rng - fst rng)
             in bind_result
                  (ok_or (checked_add first (unat (size_content fragment)))
                     (Internal ''fragment list content window overflows''))
                  (\<lambda>level_end.
             bind_result (wanted_entries fl level_end (offset, offset + n)) (\<lambda>wanted.
               let (b, e) = (case wanted of None \<Rightarrow> (0, 0) | Some w \<Rightarrow> w);
                   (left, plan) = subread_plan fl offset b e n []
               in if left \<noteq> 0
                  then Inl (Internal ''bytes of the range are in no entry'')
                  else run_subreads subread plan))))"

section \<open>What the pools deliver\<close>

lemma fetch_message_eq:
  "fetch_message load l =
     bind_result (fetch_one content_leaf load l) (\<lambda>bs. Inr (target_offset l, bs))"
  by (cases "load (Address (leaf_hash l) (leaf_context l))")
    (auto simp: fetch_message_def fetch_one_def content_leaf_def)

text \<open>The payload of a leaf that was fetched, and the empty list where it was not.\<close>

definition piece :: "loader \<Rightarrow> leaf_reference \<Rightarrow> bytes" where
  "piece load l = (case fetch_one content_leaf load l of Inl e \<Rightarrow> [] | Inr bs \<Rightarrow> bs)"

definition fetched :: "loader \<Rightarrow> leaf_reference \<Rightarrow> bool" where
  "fetched load l \<longleftrightarrow> is_ok (fetch_one content_leaf load l)"

lemma fetch_one_piece: "fetched load l \<longleftrightarrow> fetch_one content_leaf load l = Inr (piece load l)"
  by (cases "fetch_one content_leaf load l") (auto simp: fetched_def piece_def)

lemma fetch_ordered_all:
  "\<forall>l \<in> set ls. fetched load l \<Longrightarrow>
   fetch_ordered_from content_leaf load ls = (map (piece load) ls, Inr ())"
  by (induction ls) (auto simp: fetch_one_piece)

lemma fetch_ordered_fails:
  "\<not> (\<forall>l \<in> set ls. fetched load l) \<Longrightarrow> \<exists>xs e. fetch_ordered_from content_leaf load ls = (xs, Inl e)"
proof (induction ls)
  case (Cons l ls)
  then show ?case
    by (cases "fetch_one content_leaf load l") (auto simp: fetched_def split: prod.splits)
qed simp

lemma fetch_ordered_pieces:
  "fetch_ordered_from content_leaf load ls = (ps, Inr ()) \<longleftrightarrow>
     (\<forall>l \<in> set ls. fetched load l) \<and> ps = map (piece load) ls"
  using fetch_ordered_all [of ls load] fetch_ordered_fails [of ls load]
  by (cases "\<forall>l \<in> set ls. fetched load l") auto

lemma fetch_unordered_all:
  "\<forall>l \<in> set ls. fetched load l \<Longrightarrow>
   fetch_unordered load ls = (map (\<lambda>l. (target_offset l, piece load l)) ls, Inr ())"
  by (induction ls) (auto simp: fetch_message_eq fetch_one_piece)

lemma fetch_unordered_fails:
  "\<not> (\<forall>l \<in> set ls. fetched load l) \<Longrightarrow> \<exists>xs e. fetch_unordered load ls = (xs, Inl e)"
proof (induction ls)
  case (Cons l ls)
  then show ?case
    by (cases "fetch_one content_leaf load l")
      (auto simp: fetched_def fetch_message_eq split: prod.splits)
qed simp

lemma fetch_unordered_pieces:
  "fetch_unordered load ls = (ms, Inr ()) \<longleftrightarrow>
     (\<forall>l \<in> set ls. fetched load l) \<and> ms = map (\<lambda>l. (target_offset l, piece load l)) ls"
  using fetch_unordered_all [of ls load] fetch_unordered_fails [of ls load]
  by (cases "\<forall>l \<in> set ls. fetched load l") auto

lemma length_piece:
  assumes "fetched load l" "snd (clip l) \<le> expected_size l"
  shows "length (piece load l) = leaf_len l"
proof -
  have "fetch_one content_leaf load l = Inr (piece load l)" using assms(1) by (simp add: fetch_one_piece)
  then obtain buffer where "length buffer = expected_size l"
    "piece load l = slice_of (fst (clip l)) (snd (clip l)) buffer"
    by (auto simp: fetch_one_def content_leaf_def bind_result_Inr_iff split: if_splits)
  with assms(2) show ?thesis by (simp add: leaf_len_def)
qed

section \<open>Positional writes\<close>

lemma length_write_all_at [simp]:
  "offset + length payload \<le> length disk \<Longrightarrow> length (write_all_at offset payload disk) = length disk"
  by (simp add: write_all_at_def)

lemma slice_write_same:
  "offset + length payload \<le> length disk \<Longrightarrow>
   slice_of offset (offset + length payload) (write_all_at offset payload disk) = payload"
  unfolding write_all_at_def by (rule slice_of_mid) auto

lemma slice_write_other:
  assumes "b \<le> offset \<or> offset + length payload \<le> a" "offset + length payload \<le> length disk"
  shows "slice_of a b (write_all_at offset payload disk) = slice_of a b disk"
proof (cases "b \<le> offset")
  case True
  then show ?thesis using assms(2) by (cases "a \<le> b") (auto simp: slice_of_def write_all_at_def drop_take min_def)
next
  case False
  with assms have a: "offset + length payload \<le> a" by simp
  have "drop a (write_all_at offset payload disk) = drop a disk"
    using a assms(2) by (simp add: write_all_at_def)
  then show ?thesis by (simp add: slice_of_def)
qed

definition disjoint_msg :: "nat \<times> bytes \<Rightarrow> nat \<times> bytes \<Rightarrow> bool" where
  "disjoint_msg m n \<longleftrightarrow> fst m + length (snd m) \<le> fst n \<or> fst n + length (snd n) \<le> fst m"

lemma write_loop_ok:
  assumes "\<forall>(o', p) \<in> set msgs. o' + length p \<le> sz" "sz < U64_RANGE" "length disk = sz"
    "sorted_wrt disjoint_msg msgs"
  shows "\<exists>disk'. write_loop (\<lambda>_. True) sz msgs w disk = (disk', w + sum_list (map (\<lambda>m. length (snd m)) msgs), Inr ()) \<and>
    length disk' = sz \<and> (\<forall>(o', p) \<in> set msgs. slice_of o' (o' + length p) disk' = p) \<and>
    (\<forall>a b. (\<forall>(o', p) \<in> set msgs. b \<le> o' \<or> o' + length p \<le> a) \<longrightarrow> slice_of a b disk' = slice_of a b disk)"
  using assms(1,3,4)
proof (induction msgs arbitrary: w disk)
  case Nil
  then show ?case by simp
next
  case (Cons m msgs)
  obtain o' p where m: "m = (o', p)" by fastforce
  let ?f = "write_all_at o' p disk"
  have b: "o' + length p \<le> sz" "\<not> sz < o' + length p" "o' + length p < U64_RANGE"
    using Cons.prems(1) assms(2) by (auto simp: m)
  then have len: "length ?f = sz" using Cons.prems(2) by simp
  have rest: "\<forall>(o', p) \<in> set msgs. o' + length p \<le> sz" "sorted_wrt disjoint_msg msgs"
    using Cons.prems by auto
  obtain disk' where f': "write_loop (\<lambda>_. True) sz msgs (w + length p) ?f =
      (disk', w + length p + sum_list (map (\<lambda>m. length (snd m)) msgs), Inr ())"
    "length disk' = sz" "\<forall>(o', p) \<in> set msgs. slice_of o' (o' + length p) disk' = p"
    "\<forall>a b. (\<forall>(o', p) \<in> set msgs. b \<le> o' \<or> o' + length p \<le> a) \<longrightarrow> slice_of a b disk' = slice_of a b ?f"
    using Cons.IH [OF rest(1) len rest(2), of "w + length p"] by blast
  have dis: "\<forall>(o2, p2) \<in> set msgs. o' + length p \<le> o2 \<or> o2 + length p2 \<le> o'"
    using Cons.prems(3) by (auto simp: m disjoint_msg_def)
  have "slice_of o' (o' + length p) disk' = slice_of o' (o' + length p) ?f"
    using f'(4) dis by blast
  then have "slice_of o' (o' + length p) disk' = p"
    using slice_write_same b Cons.prems(2) by simp
  moreover have "slice_of a b' disk' = slice_of a b' disk"
    if "\<forall>(o', p) \<in> set (m # msgs). b' \<le> o' \<or> o' + length p \<le> a" for a b'
  proof -
    have "slice_of a b' disk' = slice_of a b' ?f" using that f'(4) by auto
    also have "\<dots> = slice_of a b' disk" using that b Cons.prems(2) by (intro slice_write_other) (auto simp: m)
    finally show ?thesis .
  qed
  ultimately show ?case using f'(1-3) b by (simp add: m checked_add_def add.assoc)
qed

section \<open>Tiles written in any order\<close>

lemma sorted_wrt_permutation:
  assumes "sorted_wrt P xs" "distinct xs" "mset ys = mset xs" "\<And>x y. P x y \<Longrightarrow> Q x y \<and> Q y x"
  shows "sorted_wrt Q ys"
  unfolding sorted_wrt_iff_nth_less
proof (intro allI impI)
  fix i j assume ij: "i < j" "j < length ys"
  have "distinct ys" "set ys = set xs"
    using assms(2,3) by (metis mset_eq_imp_distinct_iff, metis mset_eq_setD)
  moreover have "ys ! i \<in> set ys" "ys ! j \<in> set ys" using ij by auto
  ultimately have "ys ! i \<in> set xs" "ys ! j \<in> set xs" by auto
  then obtain p q where pq: "p < length xs" "q < length xs" "ys ! i = xs ! p" "ys ! j = xs ! q"
    unfolding in_set_conv_nth by metis
  have "ys ! i \<noteq> ys ! j" using \<open>distinct ys\<close> ij by (simp add: nth_eq_iff_index_eq)
  with pq have "p < q \<or> q < p" by (metis linorder_neqE_nat)
  with pq assms(1,4) show "Q (ys ! i) (ys ! j)" by (auto simp: sorted_wrt_iff_nth_less)
qed

lemma leaf_len_pos: "0 < leaf_len l \<longleftrightarrow> fst (clip l) < snd (clip l)"
  by (auto simp: leaf_len_def)

lemma leaves_tile_member:
  "leaves_tile (0, x) a b ls \<Longrightarrow> l \<in> set ls \<Longrightarrow>
   a \<le> target_offset l \<and> target_offset l + leaf_len l \<le> b \<and> 0 < leaf_len l \<and>
   snd (clip l) \<le> expected_size l \<and> expected_size l \<le> FRAGMENT_SIZE_THRESHOLD"
proof (induction ls arbitrary: a)
  case (Cons k ls)
  have k: "leaves_tile (0, x) (a + leaf_len k) b ls" "target_offset k = a" "0 < leaf_len k"
      "snd (clip k) \<le> expected_size k" "expected_size k \<le> FRAGMENT_SIZE_THRESHOLD"
    using Cons.prems(1) by (simp_all add: leaf_len_pos)
  show ?case
  proof (cases "l = k")
    case True
    with k leaves_tile_le [OF k(1)] show ?thesis by simp
  next
    case False
    with Cons.prems(2) Cons.IH [OF k(1)] show ?thesis by auto
  qed
qed simp

lemma leaves_tile_sorted:
  "leaves_tile (0, x) a b ls \<Longrightarrow>
   sorted_wrt (\<lambda>l m. target_offset l + leaf_len l \<le> target_offset m) ls \<and> distinct ls"
proof (induction ls arbitrary: a)
  case (Cons l ls)
  then have tile: "leaves_tile (0, x) (a + leaf_len l) b ls" "target_offset l = a" "0 < leaf_len l"
    by (simp_all add: leaf_len_pos)
  then have "\<forall>m \<in> set ls. target_offset l + leaf_len l \<le> target_offset m"
    using leaves_tile_member [OF tile(1)] by auto
  with Cons.IH [OF tile(1)] tile(3) show ?case by auto
qed simp

lemma leaves_tile_concat:
  assumes "leaves_tile (0, x) a b ls" "b \<le> length F"
    "\<forall>l \<in> set ls. slice_of (target_offset l) (target_offset l + leaf_len l) F = g l"
  shows "concat (map g ls) = slice_of a b F"
  using assms(1,3)
proof (induction ls arbitrary: a)
  case Nil
  then show ?case by simp
next
  case (Cons l ls)
  then have l: "g l = slice_of a (a + leaf_len l) F" "leaves_tile (0, x) (a + leaf_len l) b ls" by auto
  have "concat (map g ls) = slice_of (a + leaf_len l) b F"
    using Cons.IH [OF l(2)] Cons.prems(2) by simp
  with l leaves_tile_le [OF l(2)] show ?case by (simp add: slice_of_append)
qed

lemma leaves_tile_sum: "leaves_tile (0, x) a b ls \<Longrightarrow> a + sum_list (map leaf_len ls) = b"
proof (induction ls arbitrary: a)
  case (Cons l ls)
  then have "a + leaf_len l + sum_list (map leaf_len ls) = b" by simp
  then show ?case by (simp add: add.assoc)
qed simp

text \<open>
  Writing the pieces of leaves that tile a file, in whatever order they come, gives a file that is
  their concatenation in content order.
\<close>

lemma write_to_file_tiles:
  assumes tile: "leaves_tile (0, x) 0 sz ls" and sz: "sz < U64_RANGE" and disk: "length disk = sz"
    and ls': "mset ls' = mset ls" and got: "\<forall>l \<in> set ls. fetched load l"
  shows "write_to_file (\<lambda>_. True) sz (map (\<lambda>l. (target_offset l, piece load l)) ls') disk =
    (concat (map (piece load) ls), Inr ())"
proof -
  let ?msgs = "map (\<lambda>l. (target_offset l, piece load l)) ls'"
  have set: "set ls' = set ls" using ls' by (metis mset_eq_setD)
  have len: "length (piece load l) = leaf_len l" if "l \<in> set ls" for l
    using length_piece got leaves_tile_member [OF tile that] that by blast
  note sorted = leaves_tile_sorted [OF tile]
  have "sorted_wrt (\<lambda>l m. disjoint_msg (target_offset l, piece load l) (target_offset m, piece load m)) ls'"
  proof (rule sorted_wrt_permutation [OF _ _ ls'])
    show "sorted_wrt (\<lambda>l m. l \<in> set ls \<and> m \<in> set ls \<and>
        target_offset l + leaf_len l \<le> target_offset m) ls"
      using sorted by (auto simp: sorted_wrt_iff_nth_less)
  qed (use sorted len in \<open>auto simp: disjoint_msg_def\<close>)
  then have dis: "sorted_wrt disjoint_msg ?msgs" by (simp add: sorted_wrt_map)
  have bounds: "\<forall>(o', p) \<in> set ?msgs. o' + length p \<le> sz"
    using leaves_tile_member [OF tile] len set by auto
  obtain disk' where w: "write_loop (\<lambda>_. True) sz ?msgs 0 disk =
      (disk', 0 + sum_list (map (\<lambda>m. length (snd m)) ?msgs), Inr ())" "length disk' = sz"
    "\<forall>(o', p) \<in> set ?msgs. slice_of o' (o' + length p) disk' = p"
    using write_loop_ok [OF bounds sz disk dis, of 0] by blast
  have "sum_list (map (\<lambda>m. length (snd m)) ?msgs) = sum_list (map leaf_len ls')"
    using len set by (auto intro!: arg_cong [where f = sum_list])
  also have "\<dots> = sum_list (map leaf_len ls)"
    using ls' by (metis mset_map sum_mset_sum_list)
  also have "\<dots> = sz" using leaves_tile_sum [OF tile] by simp
  finally have total: "sum_list (map (\<lambda>m. length (snd m)) ?msgs) = sz" .
  have "\<forall>l \<in> set ls. slice_of (target_offset l) (target_offset l + leaf_len l) disk' = piece load l"
    using w(3) len set by auto
  from leaves_tile_concat [OF tile _ this] w(2)
  have "concat (map (piece load) ls) = disk'" by (simp add: slice_of_def)
  with w(1) total show ?thesis by (simp add: write_to_file_def)
qed

section \<open>Content held by a tree\<close>

text \<open>A leaf, as the pools load it, holds the bytes of \<open>content\<close> between two positions.\<close>

definition holds :: "loader \<Rightarrow> lore_context \<Rightarrow> bytes \<Rightarrow> hash \<Rightarrow> nat \<Rightarrow> nat \<Rightarrow> bool" where
  "holds load_leaf ctx content h lo hi \<longleftrightarrow>
     hi \<le> length content \<and>
     (\<exists>f. load_leaf (Address h ctx) = Inr (f, slice_of lo hi content) \<and> flags f AND PayloadFragmented = 0)"

lemma leaf_ok_piece:
  assumes "leaf_ok load ctx (holds load_leaf ctx content) w l" "snd (clip l) \<le> expected_size l"
    "fst (clip l) < snd (clip l)"
  shows "fetched load_leaf l \<and>
    piece load_leaf l = slice_of (fst w + target_offset l) (fst w + target_offset l + leaf_len l) content"
proof -
  obtain a f where a: "leaf_context l = ctx" "target_offset l + fst w = a + fst (clip l)"
    "a + expected_size l \<le> length content"
    "load_leaf (Address (leaf_hash l) ctx) = Inr (f, slice_of a (a + expected_size l) content)"
    "flags f AND PayloadFragmented = 0"
    using assms(1) by (auto simp: leaf_ok_def holds_def)
  then have one: "fetch_one content_leaf load_leaf l =
      Inr (slice_of (fst (clip l)) (snd (clip l)) (slice_of a (a + expected_size l) content))"
    by (simp add: fetch_one_def content_leaf_def)
  have "a + snd (clip l) = a + fst (clip l) + leaf_len l" using assms(3) by (simp add: leaf_len_def)
  then have "a + fst (clip l) = fst w + target_offset l"
    "a + snd (clip l) = fst w + target_offset l + leaf_len l" using a(2) by linarith+
  with one assms(2) show ?thesis by (simp add: fetched_def piece_def slice_of_slice_of)
qed

lemma defragment_to_stream_ok:
  assumes tree: "level_at (tree_at load (addr_context a) (holds load_leaf (addr_context a) content) d)
      lo hi (as_type_slice buf)"
    and depth: "d \<le> MAX_FRAGMENT_TREE_DEPTH + 1" and lohi: "lo < hi" "hi < U64_RANGE" "hi \<le> length content"
    and f: "unat (size_content f) = hi - lo" "unat (size_payload f) \<le> length buf"
    and se: "s \<le> e" "e \<le> hi - lo"
  shows "\<exists>payloads. defragment_to_stream load load_leaf a f buf (s, e) = (payloads, Inr ()) \<and>
    concat payloads = slice_of (lo + s) (lo + e) content"
proof -
  obtain ls where walk: "walk_fragment_tree load a f buf (s, e) = (ls, Inr ())"
    and ok: "\<forall>l \<in> set ls. leaf_ok load (addr_context a) (holds load_leaf (addr_context a) content) (lo + s, lo + e) l"
    using walk_fragment_tree_ok [OF tree depth lohi(1,2) f se] by blast
  have tile: "leaves_tile (0, e - s) 0 (e - s) ls"
    using walk_fragment_tree_tile [OF walk] se f by simp
  let ?F = "slice_of (lo + s) (lo + e) content"
  have piece: "fetched load_leaf l \<and>
      piece load_leaf l = slice_of (lo + s + target_offset l) (lo + s + target_offset l + leaf_len l) content \<and>
      target_offset l + leaf_len l \<le> e - s"
    if "l \<in> set ls" for l
    using leaf_ok_piece [OF bspec [OF ok that]] leaves_tile_member [OF tile that] by (simp add: leaf_len_pos)
  have "slice_of (target_offset l) (target_offset l + leaf_len l) ?F = piece load_leaf l" if "l \<in> set ls" for l
    using piece [OF that] by (simp add: slice_of_slice_of add.assoc)
  then have "concat (map (piece load_leaf) ls) = slice_of 0 (e - s) ?F"
    using se lohi by (intro leaves_tile_concat [OF tile]) auto
  also have "\<dots> = ?F" using se by (simp add: slice_of_slice_of)
  finally have "concat (map (piece load_leaf) ls) = ?F" .
  moreover have "fetch_ordered_from content_leaf load_leaf ls = (map (piece load_leaf) ls, Inr ())"
    using piece by (simp add: fetch_ordered_pieces)
  ultimately show ?thesis by (simp add: defragment_to_stream_def walk)
qed

section \<open>Reading into a buffer\<close>

lemma subread_plan_step:
  assumes "te \<noteq> 0" "b \<le> i" "level_bound fl hi i < offset + te" "i < length fl"
  shows "subread_plan fl offset b (Suc i) te acc =
    (if level_bound fl hi i < offset
     then subread_plan fl offset b i 0
       ((ref_hash (fl ! i), (offset - level_bound fl hi i, offset - level_bound fl hi i + te)) # acc)
     else subread_plan fl offset b i (level_bound fl hi i - offset)
       ((ref_hash (fl ! i), (0, offset + te - level_bound fl hi i)) # acc))"
proof -
  have lb: "unat (offset_content (fl ! i)) = level_bound fl hi i" using assms(4) by (simp add: level_bound_def)
  show ?thesis
    using assms by (subst subread_plan.simps) (auto simp: lb Let_def)
qed

lemma subread_plan_ok:
  assumes tree: "level_at child lo hi fl"
    and sub: "\<And>h l u s e. child h l u \<Longrightarrow> s \<le> e \<Longrightarrow> e \<le> u - l \<Longrightarrow>
      subread h (s, e) = Inr (slice_of (l + s) (l + e) content)"
    and b: "level_bound fl hi b \<le> offset"
  shows "b \<le> i \<Longrightarrow> i \<le> length fl \<Longrightarrow> offset + te \<le> level_bound fl hi i \<Longrightarrow>
    (b < i \<Longrightarrow> te \<noteq> 0 \<Longrightarrow> level_bound fl hi (i - 1) < offset + te) \<Longrightarrow>
    run_subreads subread acc = Inr bs \<Longrightarrow>
    \<exists>plan. subread_plan fl offset b i te acc = (0, plan) \<and>
      run_subreads subread plan = Inr (slice_of offset (offset + te) content @ bs)"
proof (induction i arbitrary: te acc bs)
  case 0
  with b have "te = 0" by simp
  with 0 show ?case by (simp add: subread_plan.simps)
next
  case (Suc i)
  show ?case
  proof (cases "te = 0 \<or> b = Suc i")
    case True
    with b Suc.prems have "te = 0" by auto
    with Suc show ?thesis by (simp add: subread_plan.simps)
  next
    case False
    let ?o = "level_bound fl hi i" and ?h = "ref_hash (fl ! i)"
    have i: "te \<noteq> 0" "b \<le> i" "i < length fl" "?o < offset + te" using False Suc.prems by auto
    note child = sub [OF level_at_child [OF tree i(3)]]
    have prev: "level_bound fl hi (i - 1) < ?o" if "0 < i"
      using level_at_entry_ok [OF tree, of "i - 1"] i that by (simp add: entry_ok_def)
    show ?thesis
    proof (cases "?o < offset")
      case True
      let ?r = "(offset - ?o, offset - ?o + te)"
      have "subread ?h ?r = Inr (slice_of offset (offset + te) content)"
        using child [of "offset - ?o" "offset - ?o + te"] True Suc.prems(3) by simp
      then have "run_subreads subread ((?h, ?r) # acc) = Inr (slice_of offset (offset + te) content @ bs)"
        using Suc.prems(5) by simp
      then show ?thesis
        using subread_plan_step [OF i(1,2,4,3), of acc] True
        by (simp add: subread_plan.simps [of fl offset b i 0])
    next
      case False
      let ?r = "(0, offset + te - ?o)"
      have "subread ?h ?r = Inr (slice_of ?o (offset + te) content)"
        using child [of 0 "offset + te - ?o"] i Suc.prems(3) by simp
      then have "run_subreads subread ((?h, ?r) # acc) = Inr (slice_of ?o (offset + te) content @ bs)"
        using Suc.prems(5) by simp
      from Suc.IH [OF i(2) _ _ _ this, of "?o - offset"] False i prev
      obtain plan where "subread_plan fl offset b i (?o - offset) ((?h, ?r) # acc) = (0, plan)"
        "run_subreads subread plan = Inr (slice_of offset ?o content @ slice_of ?o (offset + te) content @ bs)"
        by auto
      then show ?thesis
        using subread_plan_step [OF i(1,2,4,3), of acc] False i slice_of_append [of offset ?o "offset + te" content]
        by (simp flip: append_assoc)
    qed
  qed
qed

text \<open>The entries of a range found by the check of a list reach from its start to its end.\<close>

lemma wanted_entries_hull:
  assumes tree: "level_at child lo hi fl" and w: "lo \<le> x" "x < y" "y \<le> hi"
  shows "\<exists>a b. wanted_entries fl hi (x, y) = Inr (Some (a, b)) \<and> a < b \<and> b \<le> length fl \<and>
    level_bound fl hi a \<le> x \<and> y \<le> level_bound fl hi b \<and> level_bound fl hi (b - 1) < y"
proof -
  let ?w = "(x, y)"
  have xy: "fst ?w \<le> snd ?w" using w by simp
  have ends: "level_bound fl hi 0 = lo" "level_bound fl hi (length fl) = hi"
    using tree w by (cases fl; auto simp: level_bound_def)+
  have cl: "clamp ?w lo = x" "clamp ?w hi = y" using w by (auto simp: clamp_def)
  obtain res where res: "wanted_entries fl hi ?w = Inr res" "wanted_inv fl hi ?w (length fl) res"
    using wanted_entries_ok [of fl hi ?w] level_at_entry_ok [OF tree] by blast
  have "res \<noteq> None"
    using res(2) wanted_inv_None [of fl hi ?w "length fl"] w(2) cl ends
      clamp_skip [OF _ _ xy, of 0 "length fl" fl hi] by (metis less_irrefl zero_le)
  then obtain a b where ab: "res = Some (a, b)" by fastforce
  note inv = wanted_inv_Some [OF res(2) [unfolded ab]]
  have "clamp ?w (level_bound fl hi 0) = clamp ?w (level_bound fl hi a)"
    using inv by (intro clamp_skip [OF _ _ xy]) auto
  then have "clamp ?w (level_bound fl hi a) = x" using cl ends by simp
  moreover have "clamp ?w (level_bound fl hi b) = clamp ?w (level_bound fl hi (length fl))"
    using inv by (intro clamp_skip [OF _ _ xy]) auto
  then have "clamp ?w (level_bound fl hi b) = y" using cl ends by simp
  moreover have "level_bound fl hi (b - 1) < y"
    using inv(4) by (auto simp: overlaps_def clip_to_window_def Let_def split: if_splits)
  ultimately show ?thesis
    using res(1) ab inv(1,2) w(2) by (auto simp: clamp_def max_def min_def split: if_splits)
qed

lemma read_defragment_ok:
  assumes tree: "level_at child lo hi (as_type_slice buf)" and lohi: "lo < hi" "hi < U64_RANGE"
    and sub: "\<And>h l u s e. child h l u \<Longrightarrow> s \<le> e \<Longrightarrow> e \<le> u - l \<Longrightarrow>
      subread h (s, e) = Inr (slice_of (l + s) (l + e) content)"
    and f: "unat (size_content f) = hi - lo" "unat (size_payload f) \<le> length buf"
    and se: "s \<le> e" "e \<le> hi - lo" and depth: "depth \<le> 16"
  shows "read_defragment subread depth (s, e) f buf (e - s) = Inr (slice_of (lo + s) (lo + e) content)"
proof -
  let ?fl = "as_type_slice buf"
  have ne: "?fl \<noteq> []" using tree lohi by (cases ?fl) auto
  have first: "unat (offset_content (?fl ! 0)) = lo" using level_at_start [OF tree ne] by simp
  have sum: "lo + s < U64_RANGE" "s + lo = lo + s" "lo + s + (e - s) = lo + e" "lo + (hi - lo) = hi"
    using lohi se by auto
  obtain wanted where wanted: "wanted_entries ?fl hi (lo + s, lo + e) = Inr wanted"
    using wanted_entries_ok [of ?fl hi] level_at_entry_ok [OF tree] by blast
  obtain b i where bi: "(case wanted of None \<Rightarrow> (0, 0) | Some w \<Rightarrow> w) = (b, i)" by fastforce
  have "\<exists>plan. subread_plan ?fl (lo + s) b i (e - s) [] = (0, plan) \<and>
      run_subreads subread plan = Inr (slice_of (lo + s) (lo + e) content)"
  proof (cases "s = e")
    case True
    then show ?thesis by (simp add: subread_plan.simps)
  next
    case False
    with se lohi have "lo \<le> lo + s" "lo + s < lo + e" "lo + e \<le> hi" by auto
    from wanted_entries_hull [OF tree this] wanted bi
    have b: "b < i" "i \<le> length ?fl" "level_bound ?fl hi b \<le> lo + s" "lo + e \<le> level_bound ?fl hi i"
      "level_bound ?fl hi (i - 1) < lo + e" by auto
    from subread_plan_ok [OF tree sub b(3) _ b(2), where te = "e - s" and acc = "[]" and bs = "[]"] b sum(3)
    show ?thesis by simp
  qed
  then obtain plan where "subread_plan ?fl (lo + s) b i (e - s) [] = (0, plan)"
    "run_subreads subread plan = Inr (slice_of (lo + s) (lo + e) content)" by blast
  then show ?thesis
    using f depth ne sum(1,3,4) wanted bi lohi
    by (simp add: read_defragment_def checked_add_def Let_def first ac_simps)
qed

text \<open>
  C4. Reading into a buffer returns the content. When the reads of the entries of a fragment list
  return what the entries hold, the read of the list, at any depth up to sixteen, returns the range
  asked for.
\<close>

theorem read_defragment_returns_content:
  assumes "level_at child lo hi (as_type_slice buf)" "lo < hi" "hi < U64_RANGE"
    "\<And>h l u s e. child h l u \<Longrightarrow> s \<le> e \<Longrightarrow> e \<le> u - l \<Longrightarrow>
      subread h (s, e) = Inr (slice_of (l + s) (l + e) content)"
    "unat (size_content f) = hi - lo" "unat (size_payload f) \<le> length buf" "s \<le> e" "e \<le> hi - lo"
    "depth \<le> 16"
  shows "read_defragment subread depth (s, e) f buf (e - s) = Inr (slice_of (lo + s) (lo + e) content)"
  using assms by (rule read_defragment_ok)

text \<open>
  C2. The file sink agrees with the ordered stream. In whatever order the fetches complete, and
  whichever leaves are left out once one has failed, writing a fragment tree to a file of the length
  of the range succeeds exactly when streaming it does, and then the file is the stream.
\<close>

theorem defragment_to_file_equals_stream:
  assumes "s \<le> e" "e \<le> unat (size_content fragment)" "e - s < U64_RANGE" "length disk = e - s"
    "\<And>ls. set (schedule ls) \<subseteq> set ls"
    "\<And>ls. (\<forall>l \<in> set (schedule ls). fetched load_leaf l) \<Longrightarrow> mset (schedule ls) = mset ls"
  shows "is_ok (snd (defragment_to_file load load_leaf schedule (\<lambda>_. True) address fragment buf (s, e) (e - s) disk))
      = is_ok (snd (defragment_to_stream load load_leaf address fragment buf (s, e)))
    \<and> (is_ok (snd (defragment_to_stream load load_leaf address fragment buf (s, e))) \<longrightarrow>
        fst (defragment_to_file load load_leaf schedule (\<lambda>_. True) address fragment buf (s, e) (e - s) disk)
          = concat (fst (defragment_to_stream load load_leaf address fragment buf (s, e))))"
proof -
  obtain ls r where walk: "walk_fragment_tree load address fragment buf (s, e) = (ls, r)" by fastforce
  show ?thesis
  proof (cases "r = Inr () \<and> (\<forall>l \<in> set ls. fetched load_leaf l)")
    case True
    then have "leaves_tile (0, e - s) 0 (e - s) ls"
      using walk_fragment_tree_tile [of load address fragment buf s e ls] walk assms(1,2) by simp
    moreover have all: "\<forall>l \<in> set (schedule ls). fetched load_leaf l" using True assms(5) by blast
    ultimately show ?thesis
      using write_to_file_tiles [OF _ assms(3,4) assms(6) [OF all]] True walk
      by (simp add: defragment_to_file_def defragment_to_stream_def fetch_ordered_all fetch_unordered_all)
  next
    case False
    then consider err where "r = Inl err" | "\<not> (\<forall>l \<in> set ls. fetched load_leaf l)" by (cases r) auto
    then show ?thesis
    proof cases
      case 1
      then show ?thesis
        by (simp add: defragment_to_file_def defragment_to_stream_def walk and_result_def split: prod.splits)
    next
      case 2
      then have "\<not> (\<forall>l \<in> set (schedule ls). fetched load_leaf l)"
        using assms(6) [of ls] by (metis mset_eq_setD)
      with 2 obtain xs e1 ys e2 where "fetch_ordered_from content_leaf load_leaf ls = (xs, Inl e1)"
        "fetch_unordered load_leaf (schedule ls) = (ys, Inl e2)"
        using fetch_ordered_fails [of ls load_leaf] fetch_unordered_fails [of "schedule ls" load_leaf]
        by blast
      then show ?thesis
        by (cases r) (simp_all add: defragment_to_file_def defragment_to_stream_def walk and_result_def
            split: prod.splits)
    qed
  qed
qed

text \<open>
  C1. Streaming returns the content. A tree of fragment lists at most nine levels high, whose leaves
  hold the bytes of \<open>content\<close> at the positions the lists give them, is streamed without an
  error, and the payloads in order are the bytes asked for.
\<close>

theorem defragment_to_stream_returns_content:
  assumes "level_at (tree_at load (addr_context a) (holds load_leaf (addr_context a) content) d)
      lo hi (as_type_slice buf)"
    "d \<le> MAX_FRAGMENT_TREE_DEPTH + 1" "lo < hi" "hi < U64_RANGE" "hi \<le> length content"
    "unat (size_content f) = hi - lo" "unat (size_payload f) \<le> length buf" "s \<le> e" "e \<le> hi - lo"
  shows "\<exists>payloads. defragment_to_stream load load_leaf a f buf (s, e) = (payloads, Inr ()) \<and>
    concat payloads = slice_of (lo + s) (lo + e) content"
  using assms by (rule defragment_to_stream_ok)

lemma two_tree:
  "level_at (tree_at two_leaves (Context 0) (holds two_leaves (Context 0) [10, 11, 12, 13, 14]) 0) 0 5
     (as_type_slice (list_as_bytes two_refs))"
  by (simp add: two_refs_def hash_is_zero_def holds_def two_leaves_def slice_of_def FRAGMENT_SIZE_THRESHOLD_def
      PayloadFragmented_def exI [of _ 2] exI [of _ 5] del: list_as_bytes_simps)

theorem defragment_to_stream_returns_content_witness:
  "\<exists>payloads. defragment_to_stream two_leaves two_leaves (Address (Hash 9) (Context 0)) two_root
      (list_as_bytes two_refs) (1, 4) = (payloads, Inr ()) \<and> concat payloads = [11, 12, 13]"
  using defragment_to_stream_returns_content [of two_leaves "Address (Hash 9) (Context 0)" two_leaves
      "[10, 11, 12, 13, 14]" 0 0 5 "list_as_bytes two_refs" two_root 1 4] two_tree
  by (simp add: two_root_def two_refs_def slice_of_def del: list_as_bytes_simps)

theorem defragment_to_file_equals_stream_witness:
  "defragment_to_file two_leaves two_leaves rev (\<lambda>_. True) (Address (Hash 9) (Context 0)) two_root
     (list_as_bytes two_refs) (1, 4) 3 [0, 0, 0] = ([11, 12, 13], Inr ())"
proof -
  let ?a = "Address (Hash 9) (Context 0)"
  obtain ps where "defragment_to_stream two_leaves two_leaves ?a two_root (list_as_bytes two_refs) (1, 4) = (ps, Inr ())"
    "concat ps = [11, 12, 13]"
    using defragment_to_stream_ok [of two_leaves ?a two_leaves
      "[10, 11, 12, 13, 14]" 0 0 5 "list_as_bytes two_refs" two_root 1 4] two_tree
    by (auto simp add: two_root_def two_refs_def slice_of_def simp del: list_as_bytes_simps)
  with defragment_to_file_equals_stream [of 1 4 two_root "[0, 0, 0]" rev two_leaves two_leaves ?a
      "list_as_bytes two_refs"]
  show ?thesis
    by (auto simp: two_root_def is_ok_iff intro: prod_eqI simp del: list_as_bytes_simps)
qed

theorem read_defragment_returns_content_witness:
  "read_defragment (\<lambda>h (s, e). if h = Hash 1 then Inr (slice_of s e [10, 11]) else Inr (slice_of s e [12, 13, 14]))
     3 (1, 4) two_root (list_as_bytes two_refs) 3 = Inr [11, 12, 13]"
proof -
  let ?sub = "\<lambda>h (s, e). if h = Hash 1 then Inr (slice_of s e [10, 11]) else Inr (slice_of s e [12, 13, 14])"
  let ?content = "[10, 11, 12, 13, 14] :: bytes"
  let ?child = "\<lambda>h l u. (h, l, u) = (Hash 1, 0, 2) \<or> (h, l, u) = (Hash 2, 2, 5)"
  have level: "level_at ?child 0 5 (as_type_slice (list_as_bytes two_refs))"
    by (simp add: two_refs_def hash_is_zero_def exI [of _ 2] exI [of _ 5] del: list_as_bytes_simps)
  have sub: "?sub h (s, e) = Inr (slice_of (l + s) (l + e) ?content)"
    if "?child h l u" "s \<le> e" "e \<le> u - l" for h l u s e
    using that slice_of_slice_of [of e 2 0 s ?content] slice_of_slice_of [of e 5 2 s ?content]
    by (auto simp: slice_of_def)
  have "read_defragment ?sub 3 (1, 4) two_root (list_as_bytes two_refs) (4 - 1)
      = Inr (slice_of (0 + 1) (0 + 4) ?content)"
    by (rule read_defragment_returns_content [where child = ?child, OF level _ _ sub])
      (simp_all add: two_root_def two_refs_def del: list_as_bytes_simps)
  then show ?thesis by (simp add: slice_of_def)
qed

end
