(* ===== verification/Gc_Counters.thy ===== *)
theory Gc_Counters
  imports Lore_Prelude
begin

text \<open>
  The running totals that trigger garbage collection (\<open>lore-storage/src/maintenance.rs\<close>):
  the sizes and counts loaded from disk, the caps they are held against, the latches that let each
  trigger fire once, and the pass itself. A pass that is spawned is recorded with its arguments in
  \<open>gc_passes\<close>; \<open>gc_store\<close> says whether the owning store is set and alive. The
  operations of the store the pass runs, eviction and one step of compaction, are parameters.
\<close>

record gc_counters =
  gc_total_size :: u64
  gc_fragment_count :: u64
  gc_max_size :: u64
  gc_max_capacity :: u64
  gc_sync_data :: bool
  compaction_fired :: bool
  eviction_fired :: bool
  gc_store :: bool
  gc_passes :: "(u64 \<times> u64 \<times> bool) list"

definition gc_counters_default :: gc_counters where
  "gc_counters_default = \<lparr>gc_total_size = 0, gc_fragment_count = 0, gc_max_size = 0, gc_max_capacity = 0,
     gc_sync_data = False, compaction_fired = False, eviction_fired = False, gc_store = False, gc_passes = []\<rparr>"

definition set_caps :: "u64 \<Rightarrow> u64 \<Rightarrow> bool \<Rightarrow> gc_counters \<Rightarrow> gc_counters" where
  "set_caps max_size max_capacity sync_data gc =
     gc \<lparr>gc_max_size := max_size, gc_max_capacity := max_capacity, gc_sync_data := sync_data\<rparr>"

definition set_store :: "gc_counters \<Rightarrow> gc_counters" where
  "set_store gc = gc \<lparr>gc_store := True\<rparr>"

definition reset_loaded :: "gc_counters \<Rightarrow> gc_counters" where
  "reset_loaded gc = gc \<lparr>gc_total_size := 0, gc_fragment_count := 0\<rparr>"

definition fire :: "bool \<Rightarrow> gc_counters \<Rightarrow> gc_counters" where
  "fire compaction gc =
     (if \<not> gc_store gc then gc
      else
        let (max_size, max_capacity) = (if compaction then (gc_max_size gc, 0) else (0, gc_max_capacity gc))
        in gc \<lparr>gc_passes := gc_passes gc @ [(max_size, max_capacity, gc_sync_data gc)]\<rparr>)"

definition add_loaded_size :: "u64 \<Rightarrow> gc_counters \<Rightarrow> gc_counters" where
  "add_loaded_size n gc =
     (if gc_max_size gc = 0 \<or> n = 0 then gc
      else
        let total = gc_total_size gc + n;
            gc' = gc \<lparr>gc_total_size := total\<rparr>
        in if total > gc_max_size gc \<and> \<not> compaction_fired gc
           then fire True (gc' \<lparr>compaction_fired := True\<rparr>)
           else gc')"

definition remove_loaded_size :: "u64 \<Rightarrow> gc_counters \<Rightarrow> gc_counters" where
  "remove_loaded_size n gc =
     (if n = 0 then gc
      else gc \<lparr>gc_total_size := (if n \<le> gc_total_size gc then gc_total_size gc - n else 0)\<rparr>)"

definition add_loaded_fragments :: "u64 \<Rightarrow> gc_counters \<Rightarrow> gc_counters" where
  "add_loaded_fragments count gc =
     (if gc_max_capacity gc = 0 \<or> count = 0 then gc
      else
        let total = gc_fragment_count gc + count;
            gc' = gc \<lparr>gc_fragment_count := total\<rparr>
        in if total > gc_max_capacity gc \<and> \<not> eviction_fired gc
           then fire False (gc' \<lparr>eviction_fired := True\<rparr>)
           else gc')"

section \<open>A pass\<close>

text \<open>
  The steps of compaction, from the resume point until one answers that the pass is over or fails.
  The store decides whether the steps end, so the loop may not return.
\<close>

partial_function (option) compact_loop ::
  "('s \<Rightarrow> nat option \<Rightarrow> nat option result \<times> 's) \<Rightarrow> nat option \<Rightarrow> 's \<Rightarrow> 's option" where
  "compact_loop compact at s =
     (case compact s at of
        (Inr (Some step_at), s') \<Rightarrow> compact_loop compact (Some step_at) s'
      | (Inr None, s') \<Rightarrow> Some s'
      | (Inl e, s') \<Rightarrow> Some s')"

definition gc_pass ::
  "('s \<Rightarrow> 's) \<Rightarrow> ('s \<Rightarrow> nat option) \<Rightarrow> ('s \<Rightarrow> nat option \<Rightarrow> nat option result \<times> 's) \<Rightarrow> nat \<Rightarrow> nat \<Rightarrow> 's \<Rightarrow> 's option" where
  "gc_pass evict resume_at compact max_size max_capacity s =
     (let s1 = (if max_capacity > 0 then evict s else s)
      in if max_size > 0 then compact_loop compact (resume_at s1) s1 else Some s1)"

section \<open>Each trigger fires once\<close>

text \<open>
  The states the counters reach: the passes spawned so far are at most one of compaction and one of
  eviction, and none of a kind whose latch is down.
\<close>

definition is_compaction :: "u64 \<times> u64 \<times> bool \<Rightarrow> bool" where
  "is_compaction p \<longleftrightarrow> fst p \<noteq> 0"

definition is_eviction :: "u64 \<times> u64 \<times> bool \<Rightarrow> bool" where
  "is_eviction p \<longleftrightarrow> fst (snd p) \<noteq> 0"

definition gc_ok :: "gc_counters \<Rightarrow> bool" where
  "gc_ok gc \<longleftrightarrow>
     length (filter is_compaction (gc_passes gc)) \<le> (if compaction_fired gc then 1 else 0) \<and>
     length (filter is_eviction (gc_passes gc)) \<le> (if eviction_fired gc then 1 else 0)"

datatype gc_event =
    SetCaps u64 u64 bool
  | SetStore
  | ResetLoaded
  | AddSize u64
  | RemoveSize u64
  | AddFragments u64

fun gc_step :: "gc_event \<Rightarrow> gc_counters \<Rightarrow> gc_counters" where
  "gc_step (SetCaps ms mc sy) = set_caps ms mc sy"
| "gc_step SetStore = set_store"
| "gc_step ResetLoaded = reset_loaded"
| "gc_step (AddSize n) = add_loaded_size n"
| "gc_step (RemoveSize n) = remove_loaded_size n"
| "gc_step (AddFragments n) = add_loaded_fragments n"

lemma gc_ok_default: "gc_ok gc_counters_default"
  by (simp add: gc_ok_def gc_counters_default_def)

lemma gc_ok_step: "gc_ok gc \<Longrightarrow> gc_ok (gc_step ev gc)"
  by (cases ev) (auto simp: gc_ok_def set_caps_def set_store_def reset_loaded_def add_loaded_size_def
      remove_loaded_size_def add_loaded_fragments_def fire_def is_compaction_def is_eviction_def Let_def
      split: if_splits)

lemma gc_ok_steps: "gc_ok gc \<Longrightarrow> gc_ok (fold gc_step evs gc)"
  by (induction evs arbitrary: gc) (simp_all add: gc_ok_step)

text \<open>
  C30. Each trigger fires once per process. Whatever sizes and counts are loaded, removed and reset,
  and however the caps change, the counters spawn at most one compaction pass and at most one
  eviction pass.
\<close>

theorem gc_triggers_fire_once:
  "length (filter is_compaction (gc_passes (fold gc_step events gc_counters_default))) \<le> 1 \<and>
   length (filter is_eviction (gc_passes (fold gc_step events gc_counters_default))) \<le> 1"
  using gc_ok_steps [OF gc_ok_default, of events] by (auto simp: gc_ok_def split: if_splits)

text \<open>
  Taking out what a load added leaves the total as it was, so that files closed and opened again are
  counted once.
\<close>

lemma remove_after_add:
  assumes "gc_max_size gc \<noteq> 0" "unat (gc_total_size gc) + unat n < 2 ^ 64"
  shows "gc_total_size (remove_loaded_size n (add_loaded_size n gc)) = gc_total_size gc"
proof -
  have "n \<le> gc_total_size gc + n"
    using assms(2) by (simp add: word_le_nat_alt unat_add_lem [THEN iffD1])
  then show ?thesis
    using assms(1) by (simp add: remove_loaded_size_def add_loaded_size_def fire_def Let_def)
qed

end
