(* ===== verification/Pack_Store.thy ===== *)
theory Pack_Store
  imports Fragment_Validation Gc_Counters "HOL-Library.Finite_Map"
begin

text \<open>
  The packstore (\<open>lore-storage/src/packstore.rs\<close>): payloads appended to packfiles, held in
  memory or in numbered files of a directory.

  The state \<open>pack_store\<close> has the fields of \<open>PackStore\<close> and, for a store on disk, what
  its operations reach outside it. \<open>ps_dir\<close> is the directory: the packfiles in it by id, with
  their bytes (an entry whose name is not a number is skipped by the sources and is left out).
  \<open>ps_synced\<close> gives the length of each file that a crash cannot take back.
  \<open>ps_faults\<close> is the environment: what the I/O to come answers, \<open>Some k\<close> for an
  operation that fails after \<open>k\<close> bytes, after the retries of \<open>retry_transient\<close>.
  \<open>ps_settling\<close> holds the settle tasks spawned and not yet run.

  An id is a natural number here: a packstore of \<open>2 ^ 32\<close> packfiles would be out of descriptors
  long before its ids wrap.
\<close>

section \<open>State\<close>

record packfile_size =
  psz_id :: nat
  psz_size :: u32

record pack_file_state =
  pf_id :: nat
  pf_file :: bool
  pf_opened :: u32
  pf_dirty :: bool
  pf_settled :: bool
  pf_sync_failed :: bool
  pf_size :: nat
  pf_buffer :: bytes

record pack_store =
  ps_path :: bool
  ps_min_count :: nat
  ps_files :: "pack_file_state list"
  ps_writeable :: "nat list"
  ps_gc :: "gc_counters option"
  ps_accounted :: u64
  ps_released :: "packfile_size list"
  ps_settling :: "nat list"
  ps_dir_made :: bool
  ps_dir :: "(nat, bytes) fmap"
  ps_synced :: "nat \<Rightarrow> nat"
  ps_faults :: "nat option list"

record pack_store_ref =
  ref_id :: u32
  ref_offset :: u32

type_synonym 'a pack_op = "(pack_store, 'a) op"

definition PACKSTORE_SIZE_LIMIT :: nat where
  "PACKSTORE_SIZE_LIMIT = 3 * 1024 * 1024 * 1024"

text \<open>\<open>u32::try_from(size).unwrap_or(u32::MAX)\<close>.\<close>

definition saturate_u32 :: "nat \<Rightarrow> u32" where
  "saturate_u32 n = word_of_nat (min n (2 ^ 32 - 1))"

definition new_packfile :: "nat \<Rightarrow> bool \<Rightarrow> nat \<Rightarrow> pack_file_state" where
  "new_packfile i on_file n = \<lparr>pf_id = i, pf_file = on_file, pf_opened = saturate_u32 n, pf_dirty = False,
     pf_settled = (n \<ge> PACKSTORE_SIZE_LIMIT), pf_sync_failed = False, pf_size = n, pf_buffer = []\<rparr>"

definition new_pack_store :: "bool \<Rightarrow> nat \<Rightarrow> gc_counters option \<Rightarrow> (nat, bytes) fmap \<Rightarrow> bool \<Rightarrow> nat option list \<Rightarrow> pack_store" where
  "new_pack_store path min_count gc disk made faults = \<lparr>ps_path = path, ps_min_count = min_count, ps_files = [],
     ps_writeable = [], ps_gc = gc, ps_accounted = 0, ps_released = [], ps_settling = [], ps_dir_made = made,
     ps_dir = disk, ps_synced = (\<lambda>i. case fmlookup disk i of None \<Rightarrow> 0 | Some b \<Rightarrow> length b), ps_faults = faults\<rparr>"

section \<open>Files\<close>

definition next_fault :: "pack_store \<Rightarrow> nat option \<times> pack_store" where
  "next_fault s = (case ps_faults s of [] \<Rightarrow> (None, s) | f # fs \<Rightarrow> (f, s \<lparr>ps_faults := fs\<rparr>))"

text \<open>An I/O operation that either succeeds or fails as a whole.\<close>

definition io_op :: "string \<Rightarrow> unit pack_op" where
  "io_op what s = (case next_fault s of (f, s') \<Rightarrow> (if f = None then Inr () else Inl (Internal what), s'))"

definition file_bytes :: "pack_store \<Rightarrow> nat \<Rightarrow> bytes" where
  "file_bytes s i = (case fmlookup (ps_dir s) i of None \<Rightarrow> [] | Some b \<Rightarrow> b)"

definition set_file :: "nat \<Rightarrow> bytes \<Rightarrow> pack_store \<Rightarrow> pack_store" where
  "set_file i b s = s \<lparr>ps_dir := fmupd i b (ps_dir s)\<rparr>"

text \<open>A positional write; one past the end leaves zeros in between.\<close>

definition write_bytes :: "nat \<Rightarrow> bytes \<Rightarrow> bytes \<Rightarrow> bytes" where
  "write_bytes off p b = take off (b @ replicate (off - length b) 0) @ p @ drop (off + length p) b"

definition packfile_read :: "nat \<Rightarrow> nat \<Rightarrow> nat \<Rightarrow> bytes pack_op" where
  "packfile_read i off n =
     bind_op (io_op ''Failed reading from packstore file'') (\<lambda>_ s.
       if off + n \<le> length (file_bytes s i) then (Inr (slice_of off (off + n) (file_bytes s i)), s)
       else (Inl (Internal ''Failed reading from packstore file''), s))"

definition packfile_read_into :: "nat \<Rightarrow> nat \<Rightarrow> bytes \<Rightarrow> nat \<Rightarrow> bytes pack_op" where
  "packfile_read_into i off dst n =
     bind_op (io_op ''Failed reading from packstore file into caller buffer'') (\<lambda>_ s.
       if off + n \<le> length (file_bytes s i) then (Inr (slice_of off (off + n) (file_bytes s i) @ drop n dst), s)
       else (Inl (Internal ''Failed reading from packstore file into caller buffer''), s))"

definition update_packfile :: "nat \<Rightarrow> (pack_file_state \<Rightarrow> pack_file_state) \<Rightarrow> pack_store \<Rightarrow> pack_store" where
  "update_packfile index f s = s \<lparr>ps_files := (ps_files s)[index := f (ps_files s ! index)]\<rparr>"

text \<open>\<open>PackfileWrite::write_at\<close>: a write that fails may leave a part of its payload.\<close>

definition write_at :: "nat \<Rightarrow> nat \<Rightarrow> bytes \<Rightarrow> unit pack_op" where
  "write_at index off p s =
     (let pf = ps_files s ! index
      in if \<not> pf_file pf then (Inl (Internal ''Packfile held in memory has no file to write''), s)
         else case next_fault s of
           (None, s') \<Rightarrow> (Inr (), set_file (pf_id pf) (write_bytes off p (file_bytes s' (pf_id pf))) s')
         | (Some k, s') \<Rightarrow>
             (Inl (Internal ''Failed writing to packstore file''),
              set_file (pf_id pf) (write_bytes off (take k p) (file_bytes s' (pf_id pf))) s'))"

section \<open>Opening packfiles\<close>

definition open_packfile :: "nat \<Rightarrow> pack_file_state pack_op" where
  "open_packfile i =
     bind_op (io_op ''Failed opening packstore file'') (\<lambda>_.
     bind_op (modify_op (\<lambda>s. set_file i (file_bytes s i) s)) (\<lambda>_.
     bind_op (io_op ''Failed reading packstore file size'') (\<lambda>_.
     get_op (\<lambda>s. new_packfile i True (length (file_bytes s i))))))"

primrec scan_entries :: "nat list \<Rightarrow> nat \<Rightarrow> nat pack_op" where
  "scan_entries [] packfile_count = return_op packfile_count"
| "scan_entries (file_id # ids) packfile_count =
     bind_op (io_op ''Failed to read packstore directory'') (\<lambda>_.
     bind_op (io_op ''Failed reading packstore file'') (\<lambda>_.
     scan_entries ids (max packfile_count file_id)))"

primrec open_packfiles :: "nat list \<Rightarrow> pack_file_state list \<Rightarrow> pack_file_state list pack_op" where
  "open_packfiles [] packfiles = return_op packfiles"
| "open_packfiles (file_id # ids) packfiles =
     bind_op (open_packfile file_id) (\<lambda>f. open_packfiles ids (packfiles @ [f]))"

definition load_packfiles :: "(pack_file_state list \<times> nat list \<times> nat) pack_op" where
  "load_packfiles =
     bind_op (io_op ''Failed to read packstore directory'') (\<lambda>_.
     bind_op (\<lambda>s. if ps_dir_made s then (Inr (), s)
              else bind_op (io_op ''Failed to create packstore directory'') (\<lambda>_. modify_op (\<lambda>s. s \<lparr>ps_dir_made := True\<rparr>)) s) (\<lambda>_.
     bind_op (io_op ''Failed to read packstore directory'') (\<lambda>_.
     bind_op (\<lambda>s. scan_entries (sorted_list_of_fset (fmdom (ps_dir s))) 0 s) (\<lambda>packfile_count.
     bind_op (open_packfiles [1..<packfile_count + 1] []) (\<lambda>packfiles.
     return_op (packfiles, map pf_id (filter (\<lambda>f. pf_size f < PACKSTORE_SIZE_LIMIT) packfiles),
       sum_list (map pf_size packfiles)))))))"

text \<open>The state an I/O operation leaves: one answer of the environment is used up.\<close>

definition faults_used :: "pack_store \<Rightarrow> pack_store" where
  "faults_used s = s \<lparr>ps_faults := tl (ps_faults s)\<rparr>"

lemma next_fault_eq: "next_fault s = (case ps_faults s of [] \<Rightarrow> None | f # _ \<Rightarrow> f, faults_used s)"
  by (cases "ps_faults s") (simp_all add: next_fault_def faults_used_def)

lemma io_op_state: "io_op what s = (r, s') \<Longrightarrow> s' = faults_used s"
  by (auto simp: io_op_def next_fault_eq split: option.splits list.splits prod.splits)

lemma faults_used_simps [simp]:
  "ps_path (faults_used s) = ps_path s" "ps_min_count (faults_used s) = ps_min_count s"
  "ps_files (faults_used s) = ps_files s" "ps_writeable (faults_used s) = ps_writeable s"
  "ps_gc (faults_used s) = ps_gc s" "ps_accounted (faults_used s) = ps_accounted s"
  "ps_released (faults_used s) = ps_released s" "ps_settling (faults_used s) = ps_settling s"
  "ps_dir_made (faults_used s) = ps_dir_made s" "ps_dir (faults_used s) = ps_dir s"
  "ps_synced (faults_used s) = ps_synced s" "file_bytes (faults_used s) = file_bytes s"
  by (simp_all add: faults_used_def file_bytes_def fun_eq_iff)

lemma set_file_simps [simp]:
  "ps_path (set_file i b s) = ps_path s" "ps_min_count (set_file i b s) = ps_min_count s"
  "ps_files (set_file i b s) = ps_files s" "ps_writeable (set_file i b s) = ps_writeable s"
  "ps_gc (set_file i b s) = ps_gc s" "ps_accounted (set_file i b s) = ps_accounted s"
  "ps_released (set_file i b s) = ps_released s" "ps_settling (set_file i b s) = ps_settling s"
  "ps_dir_made (set_file i b s) = ps_dir_made s" "ps_dir (set_file i b s) = fmupd i b (ps_dir s)"
  "ps_synced (set_file i b s) = ps_synced s" "ps_faults (set_file i b s) = ps_faults s"
  "file_bytes (set_file i b s) = (file_bytes s)(i := b)"
  by (simp_all add: set_file_def file_bytes_def fun_eq_iff)

lemma open_packfile_cases:
  assumes "open_packfile i s = (r, s')"
  obtains (unopened) e where "r = Inl e" "s' = faults_used s"
    | (unsized) e where "r = Inl e" "s' = faults_used (set_file i (file_bytes s i) (faults_used s))"
    | (opened) "r = Inr (new_packfile i True (length (file_bytes s i)))"
        "s' = faults_used (set_file i (file_bytes s i) (faults_used s))"
  using assms unfolding open_packfile_def
  by (auto elim!: bind_op_cases dest!: io_op_state)

text \<open>
  Packfiles after the last, until the minimum count take writes. A file found at the size limit is
  opened and takes none. Only files in the directory can be found full, so the loop ends.
\<close>

function fill_writeable :: "unit pack_op" where
  "fill_writeable s =
     (if length (ps_writeable s) < ps_min_count s then
        let i = length (ps_files s) + 1
        in case (if ps_path s then open_packfile i s else (Inr (new_packfile i False 0), s)) of
             (Inl e, s') \<Rightarrow> (Inl e, s')
           | (Inr f, s') \<Rightarrow>
               fill_writeable (s' \<lparr>ps_files := ps_files s' @ [f],
                 ps_writeable := (if pf_size f < PACKSTORE_SIZE_LIMIT then ps_writeable s' @ [i] else ps_writeable s')\<rparr>)
      else (Inr (), s))"
  by pat_completeness auto

definition full_ahead :: "pack_store \<Rightarrow> nat set" where
  "full_ahead s = {i. length (ps_files s) < i \<and> i |\<in>| fmdom (ps_dir s)}"

lemma finite_full_ahead: "finite (full_ahead s)"
  by (rule finite_subset [of _ "fset (fmdom (ps_dir s))"]) (auto simp: full_ahead_def)

definition fill_left :: "pack_store \<Rightarrow> nat" where
  "fill_left s = (ps_min_count s - length (ps_writeable s)) + card (full_ahead s)"

lemma fill_left_less:
  fixes s :: pack_store
  defines "i \<equiv> length (ps_files s) + 1"
  assumes op: "(if ps_path s then open_packfile i s else (Inr (new_packfile i False 0), s)) = (Inr f, s')"
    and less: "length (ps_writeable s) < ps_min_count s"
  shows "fill_left (s' \<lparr>ps_files := ps_files s' @ [f],
    ps_writeable := (if pf_size f < PACKSTORE_SIZE_LIMIT then ps_writeable s' @ [i] else ps_writeable s')\<rparr>) < fill_left s"
    (is "fill_left ?n < _")
proof -
  have same: "ps_min_count s' = ps_min_count s" "ps_writeable s' = ps_writeable s" "ps_files s' = ps_files s"
    using op by (auto elim!: open_packfile_cases split: if_splits)
  have sub: "full_ahead ?n \<subseteq> full_ahead s"
    using op same(3) by (auto simp: full_ahead_def i_def split: if_splits elim!: open_packfile_cases)
  have le: "card (full_ahead ?n) \<le> card (full_ahead s)" by (rule card_mono [OF finite_full_ahead sub])
  show ?thesis
  proof (cases "pf_size f < PACKSTORE_SIZE_LIMIT")
    case True
    then show ?thesis using le less same by (simp add: fill_left_def)
  next
    case False
    have "i \<in> full_ahead s"
      using op False
      by (auto simp: full_ahead_def new_packfile_def PACKSTORE_SIZE_LIMIT_def file_bytes_def i_def fmlookup_dom_iff
          split: if_splits option.splits elim!: open_packfile_cases)
    moreover have "i \<notin> full_ahead ?n" using same(3) by (simp add: full_ahead_def i_def)
    ultimately have "card (full_ahead ?n) < card (full_ahead s)"
      using sub by (intro psubset_card_mono [OF finite_full_ahead]) auto
    then show ?thesis using False same by (simp add: fill_left_def)
  qed
qed

termination fill_writeable
proof (relation "measure fill_left", goal_cases)
  case 1
  show ?case by simp
next
  case 2
  then show ?case unfolding in_measure by (hypsubst, intro fill_left_less) (simp_all only:)
qed

declare fill_writeable.simps [simp del]

section \<open>Loading, syncing and closing\<close>

definition reopen_released :: "packfile_size \<Rightarrow> pack_file_state list \<Rightarrow> pack_file_state list" where
  "reopen_released closed files =
     (if 1 \<le> psz_id closed \<and> psz_id closed - 1 < length files
      then files[psz_id closed - 1 := (files ! (psz_id closed - 1)) \<lparr>pf_dirty := True, pf_settled := False\<rparr>]
      else files)"

text \<open>The first half of \<open>resume\<close>: the packfiles from disk unless they are loaded.\<close>

definition reload :: "unit pack_op" where
  "reload s =
     (if ps_files s = [] \<and> ps_path s then
        bind_op load_packfiles (\<lambda>(loaded, loaded_writeable, loaded_size).
          modify_op (\<lambda>s. s \<lparr>ps_files := fold reopen_released (ps_released s) loaded,
            ps_writeable := loaded_writeable, ps_released := [], ps_accounted := word_of_nat loaded_size,
            ps_gc := map_option (add_loaded_size (word_of_nat loaded_size)) (ps_gc s)\<rparr>)) s
      else (Inr (), s))"

definition resume :: "unit pack_op" where
  "resume = bind_op reload (\<lambda>_. ignore_op fill_writeable)"

definition loaded_packfiles :: "unit pack_op" where
  "loaded_packfiles s = (if ps_files s \<noteq> [] then (Inr (), s) else resume s)"

definition sync_packfile :: "nat \<Rightarrow> unit pack_op" where
  "sync_packfile index s =
     (let pf = ps_files s ! index
      in if pf_sync_failed pf then (Inl (Internal ''Packstore file failed an earlier sync''), s)
         else if \<not> pf_dirty pf then (Inr (), s)
         else if \<not> pf_file pf then (Inr (), update_packfile index (\<lambda>f. f \<lparr>pf_dirty := False\<rparr>) s)
         else case next_fault s of
           (None, s') \<Rightarrow>
             (Inr (), update_packfile index (\<lambda>f. f \<lparr>pf_dirty := False\<rparr>)
                (s' \<lparr>ps_synced := (ps_synced s')(pf_id pf := length (file_bytes s' (pf_id pf)))\<rparr>))
         | (Some _, s') \<Rightarrow>
             (Inl (Internal ''Failed syncing packstore file''),
              update_packfile index (\<lambda>f. f \<lparr>pf_dirty := True, pf_sync_failed := True\<rparr>) s'))"

definition mark_full :: "nat \<Rightarrow> pack_store \<Rightarrow> pack_store" where
  "mark_full i s =
     (let taken_off = i \<in> set (ps_writeable s);
          s' = snd (fill_writeable (s \<lparr>ps_writeable := remove1 i (ps_writeable s)\<rparr>))
      in if taken_off then s' \<lparr>ps_settling := ps_settling s' @ [i]\<rparr> else s')"

text \<open>The task \<open>mark_full\<close> spawns, once it runs.\<close>

definition settle :: "nat \<Rightarrow> pack_store \<Rightarrow> pack_store" where
  "settle i s =
     (let s = s \<lparr>ps_settling := remove1 i (ps_settling s)\<rparr>
      in if i - 1 < length (ps_files s) then
           case sync_packfile (i - 1) s of
             (Inr _, s') \<Rightarrow> update_packfile (i - 1) (\<lambda>f. f \<lparr>pf_settled := True\<rparr>) s'
           | (Inl _, s') \<Rightarrow> s'
         else s)"

definition refill :: "unit pack_op" where
  "refill = fill_writeable"

definition forget :: "pack_store \<Rightarrow> pack_store" where
  "forget s = s \<lparr>ps_files := [], ps_writeable := [], ps_accounted := 0, ps_released := []\<rparr>"

text \<open>\<open>held\<close> says whether an operation or its I/O holds the packfiles.\<close>

definition release_files :: "bool \<Rightarrow> pack_store \<Rightarrow> bool \<times> pack_store" where
  "release_files held s =
     (if \<not> ps_path s then (True, s)
      else if held then (False, s)
      else if ps_files s = [] then (True, s)
      else (True, s \<lparr>
        ps_released := ps_released s @ map (\<lambda>f. \<lparr>psz_id = pf_id f, psz_size = saturate_u32 (pf_size f)\<rparr>)
          (filter (\<lambda>f. \<not> pf_settled f \<and> pf_dirty f) (ps_files s)),
        ps_files := [], ps_writeable := [], ps_accounted := 0,
        ps_gc := map_option (remove_loaded_size (ps_accounted s)) (ps_gc s)\<rparr>))"

section \<open>Sizes\<close>

definition pack_sizes :: "nat list pack_op" where
  "pack_sizes s =
     (if \<not> ps_path s then (Inl (Internal ''Packfile sizes need a packstore on disk''), s)
      else bind_op loaded_packfiles (\<lambda>_. get_op (\<lambda>s. map pf_size (ps_files s))) s)"

definition total_size :: "nat pack_op" where
  "total_size = bind_op loaded_packfiles (\<lambda>_. get_op (\<lambda>s. sum_list (map pf_size (ps_files s))))"

text \<open>The sizes written to a buffer of a given capacity, or none when it cannot hold them.\<close>

definition unsettled_sizes :: "nat \<Rightarrow> pack_store \<Rightarrow> packfile_size list option" where
  "unsettled_sizes capacity s =
     (let sizes = (if ps_files s = [] then ps_released s
                   else map (\<lambda>f. \<lparr>psz_id = pf_id f, psz_size = saturate_u32 (pf_size f)\<rparr>)
                          (filter (\<lambda>f. \<not> pf_settled f) (ps_files s)))
      in if length sizes \<le> capacity then Some sizes else None)"

definition opened_of :: "pack_store \<Rightarrow> nat \<Rightarrow> u32" where
  "opened_of s i = (if 1 \<le> i \<and> i - 1 < length (ps_files s) then pf_opened (ps_files s ! (i - 1)) else 0)"

definition short_of :: "packfile_size list \<Rightarrow> bool pack_op" where
  "short_of sizes = bind_op loaded_packfiles (\<lambda>_. get_op (\<lambda>s.
     list_ex (\<lambda>recorded. opened_of s (psz_id recorded) < psz_size recorded) sizes))"

definition opened_lengths :: "u32 list pack_op" where
  "opened_lengths = bind_op loaded_packfiles (\<lambda>_. get_op (\<lambda>s. map pf_opened (ps_files s)))"

section \<open>Stopping, emptying and restarting packfiles\<close>

definition valid_id :: "pack_store \<Rightarrow> nat \<Rightarrow> bool" where
  "valid_id s i \<longleftrightarrow> 1 \<le> i \<and> i - 1 < length (ps_files s)"

definition stop_writes :: "nat list \<Rightarrow> nat list pack_op" where
  "stop_writes ids s =
     (if \<not> ps_path s then (Inl (Internal ''Stopping writes needs a packstore on disk''), s)
      else bind_op loaded_packfiles (\<lambda>_ s.
        if \<not> list_all (valid_id s) ids then (Inl (Internal ''Invalid packfile''), s)
        else (Inr (map (\<lambda>i. pf_size (ps_files s ! (i - 1))) ids),
              snd (fill_writeable (s \<lparr>ps_writeable := filter (\<lambda>i. i \<notin> set ids) (ps_writeable s)\<rparr>)))) s)"

definition empty_packfile :: "nat \<Rightarrow> unit pack_op" where
  "empty_packfile index s =
     (let pf = ps_files s ! index;
          emptied = (\<lambda>failed. update_packfile index (\<lambda>f. f \<lparr>pf_opened := 0, pf_settled := False,
             pf_sync_failed := failed, pf_dirty := False, pf_buffer := [], pf_size := 0\<rparr>))
      in if \<not> pf_file pf then (Inr (), emptied False s)
         else case next_fault s of
           (Some _, s1) \<Rightarrow> (Inl (Internal ''Failed truncating packstore file''), s1)
         | (None, s1) \<Rightarrow>
             let s2 = (set_file (pf_id pf) [] s1) \<lparr>ps_synced := (ps_synced s1)(pf_id pf := 0)\<rparr>
             in case next_fault s2 of
               (Some _, s3) \<Rightarrow> (Inl (Internal ''Failed syncing truncated packstore file''), emptied True s3)
             | (None, s3) \<Rightarrow> (Inr (), emptied False s3))"

text \<open>\<open>remove_file\<close>, whose failure is ignored.\<close>

definition remove_packfile :: "nat \<Rightarrow> pack_store \<Rightarrow> pack_store" where
  "remove_packfile i s =
     (if \<not> ps_path s then s
      else case next_fault s of
        (Some _, s') \<Rightarrow> s'
      | (None, s') \<Rightarrow> s' \<lparr>ps_dir := fmdrop i (ps_dir s'), ps_synced := (ps_synced s')(i := 0)\<rparr>)"

lemma remove_packfile_simps [simp]:
  "ps_files (remove_packfile i s) = ps_files s" "ps_writeable (remove_packfile i s) = ps_writeable s"
  "ps_min_count (remove_packfile i s) = ps_min_count s" "ps_path (remove_packfile i s) = ps_path s"
  by (simp_all add: remove_packfile_def next_fault_eq split: option.splits list.splits)

function discard_empty_tail :: "pack_store \<Rightarrow> pack_store" where
  "discard_empty_tail s =
     (if ps_min_count s < length (ps_files s) \<and> pf_size (last (ps_files s)) = 0 then
        let last_id = length (ps_files s)
        in discard_empty_tail (remove_packfile last_id (s \<lparr>
             ps_writeable := filter (\<lambda>i. i \<noteq> last_id) (ps_writeable s), ps_files := butlast (ps_files s)\<rparr>))
      else s)"
  by pat_completeness auto
termination
  by (relation "measure (\<lambda>s. length (ps_files s))") auto

declare discard_empty_tail.simps [simp del]

text \<open>Insertion at the position \<open>binary_search\<close> answers with, unless the id is there.\<close>

definition insert_writeable :: "nat \<Rightarrow> nat list \<Rightarrow> nat list" where
  "insert_writeable i w = (if i \<in> set w then w else insort i w)"

definition truncate :: "nat \<Rightarrow> unit pack_op" where
  "truncate i s =
     (if \<not> ps_path s then (Inl (Internal ''Truncating a packfile needs a packstore on disk''), s)
      else if i = 0 then (Inl (Internal ''Invalid packfile''), s)
      else if i \<in> set (ps_writeable s) then (Inl (Internal ''Cannot truncate a writeable packfile''), s)
      else if i - 1 \<ge> length (ps_files s) then (Inl (Internal ''Invalid packfile''), s)
      else bind_op (empty_packfile (i - 1)) (\<lambda>_ s1.
        let s2 = discard_empty_tail s1;
            s3 = (if i - 1 < length (ps_files s2) then s2 \<lparr>ps_writeable := insert_writeable i (ps_writeable s2)\<rparr> else s2)
        in (Inr (), snd (fill_writeable s3))) s)"

primrec restart_each :: "nat list \<Rightarrow> pack_store \<Rightarrow> pack_store" where
  "restart_each [] s = s"
| "restart_each (i # ids) s =
     restart_each ids
       (if \<not> valid_id s i then s
        else if pf_size (ps_files s ! (i - 1)) \<ge> PACKSTORE_SIZE_LIMIT \<or> pf_sync_failed (ps_files s ! (i - 1)) then s
        else s \<lparr>ps_writeable := insert_writeable i (ps_writeable s)\<rparr>)"

definition restart_writes :: "nat list \<Rightarrow> pack_store \<Rightarrow> pack_store" where
  "restart_writes ids s =
     (if ps_files s = [] then s
      else snd (fill_writeable (discard_empty_tail (restart_each ids s))))"

section \<open>Loading a payload\<close>

definition pack_load :: "u32 \<Rightarrow> u32 \<Rightarrow> u32 \<Rightarrow> bytes pack_op" where
  "pack_load i offset sz s =
     (if sz = 0 then (Inr [], s)
      else if i = 0 then (Inl (Internal ''Invalid packfile''), s)
      else
        let index = unat i - 1;
            n = unat sz;
            off = unat offset
        in bind_op loaded_packfiles (\<lambda>_ s.
          if index \<ge> length (ps_files s) then (Inl (Internal ''Invalid packfile''), s)
          else
            let pf = ps_files s ! index
            in if pf_id pf \<noteq> unat i then (Inl (Internal ''Packfile ID mismatch index''), s)
               else if pf_file pf then packfile_read (pf_id pf) off n s
               else if off + n > length (pf_buffer pf)
               then (Inl (Internal ''Failed reading from packstore buffer, boundary violation''), s)
               else (Inr (slice_of off (off + n) (pf_buffer pf)), s)) s)"

text \<open>As a load, into a caller's buffer: the answer is the buffer with its start overwritten.\<close>

definition pack_load_into :: "u32 \<Rightarrow> u32 \<Rightarrow> u32 \<Rightarrow> bytes \<Rightarrow> bytes pack_op" where
  "pack_load_into i offset sz dst s =
     (if sz = 0 then (Inr dst, s)
      else if i = 0 then (Inl (Internal ''Invalid packfile''), s)
      else if unat sz > length dst
      then (Inl (Internal ''Destination buffer is smaller than the payload to read''), s)
      else
        let index = unat i - 1;
            n = unat sz;
            off = unat offset
        in bind_op loaded_packfiles (\<lambda>_ s.
          if index \<ge> length (ps_files s) then (Inl (Internal ''Invalid packfile''), s)
          else
            let pf = ps_files s ! index
            in if pf_id pf \<noteq> unat i then (Inl (Internal ''Packfile ID mismatch index''), s)
               else if pf_file pf then packfile_read_into (pf_id pf) off dst n s
               else if off + n > length (pf_buffer pf)
               then (Inl (Internal ''Failed reading from packstore buffer, boundary violation''), s)
               else (Inr (slice_of off (off + n) (pf_buffer pf) @ drop n dst), s)) s)"

section \<open>Storing a payload\<close>

text \<open>
  The packfile a write goes to: the first in order whose lock is free, or the one \<open>spread\<close> picks.
  \<open>locked\<close> says which packfiles' locks others hold.
\<close>

definition packfile_to_write :: "(nat \<Rightarrow> bool) \<Rightarrow> nat \<Rightarrow> pack_store \<Rightarrow> nat option" where
  "packfile_to_write locked spread s =
     (if ps_writeable s = [] then None
      else case find (\<lambda>i. \<not> locked (i - 1)) (ps_writeable s) of
        Some i \<Rightarrow> Some (i - 1)
      | None \<Rightarrow> Some (ps_writeable s ! (spread mod length (ps_writeable s)) - 1))"

text \<open>Reserving a range under the packfile's lock: its offset, and whether the packfile is full after it.\<close>

definition reserve :: "nat \<Rightarrow> nat \<Rightarrow> pack_store \<Rightarrow> (nat \<times> bool) option \<times> pack_store" where
  "reserve index sz s =
     (let offset = pf_size (ps_files s ! index)
      in if offset < 2 ^ 32 \<and> offset < PACKSTORE_SIZE_LIMIT
         then (Some (offset, offset + sz \<ge> PACKSTORE_SIZE_LIMIT),
               update_packfile index (\<lambda>f. f \<lparr>pf_size := offset + sz\<rparr>) s)
         else (None, s))"

definition pack_ref :: "nat \<Rightarrow> nat \<Rightarrow> pack_store_ref" where
  "pack_ref i offset = \<lparr>ref_id = word_of_nat i, ref_offset = word_of_nat offset\<rparr>"

text \<open>The write of a reserved range once the lock is released.\<close>

definition land_memory :: "nat \<Rightarrow> bytes \<Rightarrow> pack_store \<Rightarrow> pack_store" where
  "land_memory index payload = update_packfile index (\<lambda>f. f \<lparr>pf_buffer := pf_buffer f @ payload, pf_dirty := True\<rparr>)"

definition land_file :: "nat \<Rightarrow> nat \<Rightarrow> bytes \<Rightarrow> unit pack_op" where
  "land_file index offset payload s =
     (case write_at index offset payload s of
        (Inl e, s') \<Rightarrow>
          (Inl e, if pf_size (ps_files s' ! index) = offset + length payload
                  then update_packfile index (\<lambda>f. f \<lparr>pf_size := offset\<rparr>) s' else s')
      | (Inr _, s') \<Rightarrow> (Inr (), update_packfile index (\<lambda>f. f \<lparr>pf_dirty := True\<rparr>) s'))"

definition finish_write :: "nat \<Rightarrow> bool \<Rightarrow> pack_store \<Rightarrow> pack_store" where
  "finish_write i full s = (if full then mark_full i s else s)"

text \<open>What \<open>store\<close> does once its range is reserved.\<close>

definition write_reserved :: "nat \<Rightarrow> nat \<Rightarrow> bool \<Rightarrow> bytes \<Rightarrow> pack_store_ref pack_op" where
  "write_reserved index offset full payload s =
     (let pf = ps_files s ! index;
          i = pf_id pf
      in if \<not> pf_file pf then (Inr (pack_ref i offset), finish_write i full (land_memory index payload s))
         else case land_file index offset payload s of
           (Inl e, s') \<Rightarrow> (Inl e, s')
         | (Inr _, s') \<Rightarrow> (Inr (pack_ref i offset), finish_write i full s'))"

text \<open>
  The loop of \<open>store\<close>, its attempts numbered. It comes back for another packfile when the one
  it was given is full, and for the ones it opens when none takes writes.
\<close>

partial_function (option) store_loop ::
  "(nat \<Rightarrow> nat \<Rightarrow> bool) \<Rightarrow> nat \<Rightarrow> bytes \<Rightarrow> nat \<Rightarrow> pack_store \<Rightarrow> (pack_store_ref result \<times> pack_store) option" where
  "store_loop locked spread payload attempt s =
     (case loaded_packfiles s of
        (Inl e, s1) \<Rightarrow> Some (Inl e, s1)
      | (Inr _, s1) \<Rightarrow>
         (case packfile_to_write (locked attempt) spread s1 of
            None \<Rightarrow>
              (case refill s1 of
                 (Inl e, s2) \<Rightarrow> Some (Inl e, s2)
               | (Inr _, s2) \<Rightarrow> store_loop locked spread payload (attempt + 1) s2)
          | Some index \<Rightarrow>
              (case reserve index (length payload) s1 of
                 (None, s2) \<Rightarrow>
                   store_loop locked spread payload (attempt + 1) (mark_full (pf_id (ps_files s1 ! index)) s2)
               | (Some (offset, full), s2) \<Rightarrow> Some (write_reserved index offset full payload s2))))"

definition pack_store_payload ::
  "(nat \<Rightarrow> nat \<Rightarrow> bool) \<Rightarrow> nat \<Rightarrow> bytes \<Rightarrow> pack_store \<Rightarrow> (pack_store_ref result \<times> pack_store) option" where
  "pack_store_payload locked spread payload s =
     (if payload = [] then Some (Inl (Internal ''Failed to store invalid zero sized buffer''), s)
      else store_loop locked spread payload 0 s)"

section \<open>Zeroing and flushing\<close>

text \<open>The end of \<open>obliterate\<close>: zeros over a range of a packfile's file, and a sync.\<close>

definition zero_range :: "nat \<Rightarrow> nat \<Rightarrow> nat \<Rightarrow> unit pack_op" where
  "zero_range index off n s =
     (case write_at index off (replicate n 0) s of
        (Inl e, s1) \<Rightarrow> (Inl e, s1)
      | (Inr _, s1) \<Rightarrow>
          (case sync_packfile index (update_packfile index (\<lambda>f. f \<lparr>pf_dirty := True\<rparr>) s1) of
             (Inl _, s2) \<Rightarrow> (Inr (), mark_full (index + 1) s2)
           | (Inr _, s2) \<Rightarrow> (Inr (), s2)))"

definition obliterate_loaded :: "u32 \<Rightarrow> u32 \<Rightarrow> u32 \<Rightarrow> unit pack_op" where
  "obliterate_loaded i offset sz s =
     (if i = 0 \<or> unat i > length (ps_files s) then (Inl (Internal ''Invalid packfile''), s)
      else if pf_id (ps_files s ! (unat i - 1)) \<noteq> unat i then (Inl (Internal ''Packfile ID mismatch index''), s)
      else if \<not> pf_file (ps_files s ! (unat i - 1)) then (Inr (), s)
      else zero_range (unat i - 1) (unat offset) (unat sz) s)"

definition pack_obliterate :: "u32 \<Rightarrow> u32 \<Rightarrow> u32 \<Rightarrow> unit pack_op" where
  "pack_obliterate i offset sz = bind_op loaded_packfiles (\<lambda>_. obliterate_loaded i offset sz)"

definition stop_writes_after_failed_sync :: "nat list \<Rightarrow> pack_store \<Rightarrow> pack_store" where
  "stop_writes_after_failed_sync ids s = fold mark_full ids s"

definition pack_flush :: "nat \<Rightarrow> bool \<Rightarrow> unit pack_op" where
  "pack_flush i sync_data s =
     (if i = 0 \<or> i > length (ps_files s) then (Inl (Internal ''Invalid packfile''), s)
      else if pf_id (ps_files s ! (i - 1)) \<noteq> i then (Inl (Internal ''Packfile ID mismatch index''), s)
      else if \<not> sync_data then (Inr (), s)
      else case sync_packfile (i - 1) s of
        (Inr _, s') \<Rightarrow> (Inr (), s')
      | (Inl e, s') \<Rightarrow> (Inl e, stop_writes_after_failed_sync [i] s'))"

text \<open>Syncs of every packfile: the errors by id in order, and the state they leave.\<close>

primrec sync_each :: "nat list \<Rightarrow> pack_store \<Rightarrow> (nat \<times> storage_error) list \<times> pack_store" where
  "sync_each [] s = ([], s)"
| "sync_each (index # is) s =
     (case sync_packfile index s of
        (r, s') \<Rightarrow>
          (case sync_each is s' of
             (es, s'') \<Rightarrow> ((case r of Inl e \<Rightarrow> [(pf_id (ps_files s ! index), e)] | Inr _ \<Rightarrow> []) @ es, s'')))"

definition pack_flush_all :: "bool \<Rightarrow> unit pack_op" where
  "pack_flush_all sync_data s =
     (if \<not> sync_data then (Inr (), s)
      else bind_op (\<lambda>s. if ps_released s \<noteq> [] then resume s else (Inr (), s)) (\<lambda>_ s.
        case sync_each [0..<length (ps_files s)] s of
          ([], s') \<Rightarrow> (Inr (), s')
        | (failed, s') \<Rightarrow> (Inl (snd (hd failed)), stop_writes_after_failed_sync (map fst failed) s')) s)"

end
