(* ===== verification/Store_Index.thy ===== *)
theory Store_Index
  imports Pack_Store "HOL-Library.Product_Lexorder"
begin

text \<open>
  A bucket of the index of the local store (\<open>lore-storage/src/local/immutable_store.rs\<close>):
  its entries in the order they were added, the index that sorts them by hash, partition and
  context, the binary search over that index, and the operations that change a bucket under its
  write lock: storing an entry, copying an association, and replacing an entry by a tombstone.

  The dirty marks that a group keeps beside its buckets are fields of the bucket here. The clock
  that stamps an entry is an argument.
\<close>

section \<open>Entries\<close>

record immutable_data =
  d_flags :: u32
  d_size_payload :: u32
  d_size_content :: u64
  pack_offset :: u32
  pack_file :: u32
  last_access :: u64

definition immutable_data_default :: immutable_data where
  "immutable_data_default = \<lparr>d_flags = 0, d_size_payload = 0, d_size_content = 0, pack_offset = 0,
     pack_file = 0, last_access = 0\<rparr>"

definition stored_flags :: "u32 \<Rightarrow> u32 \<Rightarrow> u32" where
  "stored_flags fl pf =
     (let local = (if pf \<noteq> 0 then PayloadStoredLocal else 0)
      in (fl AND PayloadStored AND NOT PayloadStoredLocal) OR local)"

definition assign_deduplicated_payload :: "immutable_data \<Rightarrow> immutable_data \<Rightarrow> immutable_data" where
  "assign_deduplicated_payload self dedup = self \<lparr>
     pack_file := pack_file dedup,
     pack_offset := pack_offset dedup,
     d_size_payload := d_size_payload dedup,
     d_flags := (d_flags dedup AND NOT PayloadStored) OR stored_flags (d_flags self) (pack_file dedup)\<rparr>"

definition merge_from_copy_source :: "immutable_data \<Rightarrow> immutable_data \<Rightarrow> bool \<Rightarrow> immutable_data" where
  "merge_from_copy_source self source durable =
     (let merged = assign_deduplicated_payload (self \<lparr>d_size_content := d_size_content source\<rparr>) source
      in if durable then merged \<lparr>d_flags := d_flags merged OR PayloadStoredDurable\<rparr> else merged)"

record immutable_store_entry =
  e_address :: address
  e_partition :: partition
  e_data :: immutable_data

record immutable_store_bucket =
  entry :: "immutable_store_entry list"
  sorted_index :: "u32 list"
  deserialized :: bool
  upgrade_packfile :: bool
  dirty :: bool
  soft_dirty :: bool

definition empty_bucket :: immutable_store_bucket where
  "empty_bucket = \<lparr>entry = [], sorted_index = [], deserialized = False, upgrade_packfile = False, dirty = False, soft_dirty = False\<rparr>"

abbreviation e_hash :: "immutable_store_entry \<Rightarrow> hash" where
  "e_hash e \<equiv> addr_hash (e_address e)"

abbreviation e_context :: "immutable_store_entry \<Rightarrow> lore_context" where
  "e_context e \<equiv> addr_context (e_address e)"

abbreviation slot_index :: "immutable_store_bucket \<Rightarrow> nat \<Rightarrow> nat" where
  "slot_index b slot \<equiv> unat (sorted_index b ! slot)"

abbreviation slot_entry :: "immutable_store_bucket \<Rightarrow> nat \<Rightarrow> immutable_store_entry" where
  "slot_entry b slot \<equiv> entry b ! slot_index b slot"

section \<open>Lookup\<close>

text \<open>
  The binary search: the slot of the best match, the slot where the search ended, and the level of
  the match. The early exits for a request below \<open>MatchFull\<close> return from within the loop.
\<close>

function lookup_loop ::
  "immutable_store_bucket \<Rightarrow> partition \<Rightarrow> address \<Rightarrow> store_match \<Rightarrow> nat \<Rightarrow> nat \<Rightarrow> store_match \<Rightarrow> nat \<Rightarrow>
   nat \<times> nat \<times> store_match" where
  "lookup_loop b p a match_request start fin match_made match_slot =
     (if start < fin then
        let slot = (start + fin) div 2;
            e = slot_entry b slot
        in if addr_hash a = e_hash e then
             let first = (match_made = MatchNone);
                 made = (if first then MatchHash else match_made);
                 mslot = (if first then slot else match_slot)
             in if first \<and> match_request = MatchHash then (mslot, start, made)
                else if p = e_partition e then
                  let hashed = (made = MatchHash);
                      made = (if hashed then MatchPartition else made);
                      mslot = (if hashed then slot else mslot)
                  in if hashed \<and> match_request = MatchPartition then (mslot, start, made)
                     else if addr_context a = e_context e then (slot, start, MatchFull)
                     else if addr_context a < e_context e
                     then lookup_loop b p a match_request start slot made mslot
                     else lookup_loop b p a match_request (slot + 1) fin made mslot
                else if p < e_partition e
                then lookup_loop b p a match_request start slot made mslot
                else lookup_loop b p a match_request (slot + 1) fin made mslot
           else if addr_hash a < e_hash e
           then lookup_loop b p a match_request start slot match_made match_slot
           else lookup_loop b p a match_request (slot + 1) fin match_made match_slot
      else (match_slot, start, match_made))"
  by pat_completeness auto
termination
  by (relation "measure (\<lambda>(b, p, a, r, start, fin, m, s). fin - start)") auto

declare lookup_loop.simps [simp del]

definition lookup ::
  "immutable_store_bucket \<Rightarrow> partition \<Rightarrow> address \<Rightarrow> store_match \<Rightarrow> nat \<times> nat \<times> store_match" where
  "lookup b p a match_request = lookup_loop b p a match_request 0 (length (entry b)) MatchNone 0"

section \<open>Copy sources\<close>

definition in_partition_run :: "immutable_store_bucket \<Rightarrow> nat \<Rightarrow> partition \<Rightarrow> hash \<Rightarrow> bool" where
  "in_partition_run b slot p h \<longleftrightarrow> e_hash (slot_entry b slot) = h \<and> e_partition (slot_entry b slot) = p"

definition is_obliterated :: "immutable_store_bucket \<Rightarrow> nat \<Rightarrow> bool" where
  "is_obliterated b slot \<longleftrightarrow> d_flags (e_data (slot_entry b slot)) AND PayloadObliterated \<noteq> 0"

definition is_copy_source :: "immutable_store_bucket \<Rightarrow> nat \<Rightarrow> nat option \<Rightarrow> nat option \<times> bool" where
  "is_copy_source b slot representation_only =
     (if is_obliterated b slot then (representation_only, False)
      else if pack_file (e_data (slot_entry b slot)) \<noteq> 0 then (representation_only, True)
      else (Some (case representation_only of Some r \<Rightarrow> r | None \<Rightarrow> slot), False))"

definition run_slot :: "immutable_store_bucket \<Rightarrow> partition \<Rightarrow> hash \<Rightarrow> nat \<Rightarrow> bool" where
  "run_slot b p h slot \<longleftrightarrow> slot < length (sorted_index b) \<and> in_partition_run b slot p h"

text \<open>One turn of the walk outwards from the anchor: a step down, then a step up.\<close>

definition walk_down ::
  "immutable_store_bucket \<Rightarrow> partition \<Rightarrow> hash \<Rightarrow> nat \<Rightarrow> nat option" where
  "walk_down b p h slot = (if slot > 0 \<and> run_slot b p h (slot - 1) then Some (slot - 1) else None)"

definition walk_up ::
  "immutable_store_bucket \<Rightarrow> partition \<Rightarrow> hash \<Rightarrow> nat \<Rightarrow> nat option" where
  "walk_up b p h slot = (if run_slot b p h (slot + 1) then Some (slot + 1) else None)"

function copy_walk ::
  "immutable_store_bucket \<Rightarrow> partition \<Rightarrow> hash \<Rightarrow> nat option \<Rightarrow> nat option \<Rightarrow> nat option \<Rightarrow> nat option" where
  "copy_walk b p h back_slot forward representation_only =
     (if back_slot = None \<and> forward = None then representation_only
      else
        case (case back_slot of
                None \<Rightarrow> (None, None, representation_only)
              | Some slot \<Rightarrow>
                  let (r, src) = is_copy_source b slot representation_only
                  in if src then (Some slot, None, r) else (None, walk_down b p h slot, r)) of
          (Some slot, _, _) \<Rightarrow> Some slot
        | (None, back', r) \<Rightarrow>
            (case forward of
               None \<Rightarrow> copy_walk b p h back' None r
             | Some slot \<Rightarrow>
                 let (r', src) = is_copy_source b slot r
                 in if src then Some slot else copy_walk b p h back' (walk_up b p h slot) r'))"
  by pat_completeness auto
termination
proof (relation "measure (\<lambda>(b, p, h, bk, fw, r). (case bk of None \<Rightarrow> 0 | Some s \<Rightarrow> s + 1) +
    (case fw of None \<Rightarrow> 0 | Some s \<Rightarrow> length (sorted_index b) + 1 - s + (if s < length (sorted_index b) then 0 else 1)))",
    goal_cases)
qed (auto simp: walk_down_def walk_up_def run_slot_def split: option.splits if_splits prod.splits)

declare copy_walk.simps [simp del]

definition copy_source_slot :: "immutable_store_bucket \<Rightarrow> partition \<Rightarrow> address \<Rightarrow> nat option" where
  "copy_source_slot b p a =
     (if \<not> context_is_zero (addr_context a) then
        let (slot, _, matching) = lookup b p a MatchFull
        in if matching = MatchFull \<and> \<not> is_obliterated b slot then Some slot else None
      else
        let (anchor, _, matching) = lookup b p a MatchPartition
        in if matching < MatchPartition then None
           else copy_walk b p (addr_hash a) (Some anchor) (walk_up b p (addr_hash a) anchor) None)"

section \<open>Storing an entry\<close>

datatype store_payload = Absent | Unwritten | Written pack_store_ref

datatype store_outcome =
    Kept (changed_flags: "u32 option")
  | Stored (outcome_flags: u32) (outcome_pack_file: u32)
  | NeedsPayload

fun flush_flags :: "store_outcome \<Rightarrow> u32 option" where
  "flush_flags (Kept changed) = changed"
| "flush_flags (Stored fl _) = Some fl"
| "flush_flags NeedsPayload = None"

definition set_data :: "nat \<Rightarrow> immutable_data \<Rightarrow> immutable_store_bucket \<Rightarrow> immutable_store_bucket" where
  "set_data i d b = b \<lparr>entry := (entry b)[i := (entry b ! i) \<lparr>e_data := d\<rparr>]\<rparr>"

text \<open>Adding an entry: it goes to the end of the entries and into the index at a slot.\<close>

definition inject ::
  "nat \<Rightarrow> immutable_store_entry \<Rightarrow> immutable_store_bucket \<Rightarrow> immutable_store_bucket" where
  "inject insert_slot e b =
     (let count = length (entry b)
      in b \<lparr>sorted_index := take insert_slot (sorted_index b) @ word_of_nat count # drop insert_slot (sorted_index b),
            entry := entry b @ [e]\<rparr>)"

definition update_slot ::
  "hash \<Rightarrow> immutable_data \<Rightarrow> immutable_store_bucket \<Rightarrow> nat \<Rightarrow> immutable_store_bucket \<times> bool" where
  "update_slot h data b slot =
     (let i = slot_index b slot;
          e = entry b ! i
      in if e_hash e \<noteq> h then (b, False)
         else if d_flags (e_data e) AND PayloadObliterated = 0 \<and>
                 (pack_file (e_data e) \<noteq> pack_file data \<or> pack_offset (e_data e) \<noteq> pack_offset data)
         then (set_data i (assign_deduplicated_payload (e_data e) data) b, True)
         else (b, True))"

primrec update_down ::
  "hash \<Rightarrow> immutable_data \<Rightarrow> nat \<Rightarrow> immutable_store_bucket \<Rightarrow> immutable_store_bucket" where
  "update_down h data 0 b = b"
| "update_down h data (Suc loop_slot) b =
     (case update_slot h data b loop_slot of (b', go) \<Rightarrow> if go then update_down h data loop_slot b' else b')"

function update_up ::
  "hash \<Rightarrow> immutable_data \<Rightarrow> nat \<Rightarrow> nat \<Rightarrow> immutable_store_bucket \<Rightarrow> immutable_store_bucket" where
  "update_up h data loop_slot last_slot b =
     (if loop_slot < last_slot then
        case update_slot h data b (loop_slot + 1) of
          (b', go) \<Rightarrow> if go then update_up h data (loop_slot + 1) last_slot b' else b'
      else b)"
  by pat_completeness auto
termination
  by (relation "measure (\<lambda>(h, data, loop_slot, last_slot, b). last_slot - loop_slot)") auto

declare update_up.simps [simp del]

text \<open>
  \<open>store_entry\<close>, from the bucket its lock gives. The parts of its body: what a matched entry
  leaves of the store, and the write itself.
\<close>

definition store_data ::
  "immutable_store_bucket \<Rightarrow> nat \<Rightarrow> nat \<Rightarrow> store_match \<Rightarrow> partition \<Rightarrow> address \<Rightarrow> immutable_data \<Rightarrow>
   immutable_store_bucket" where
  "store_data b match_slot insert_slot match_made p a data =
     (let b' = (if match_made = MatchFull then set_data (slot_index b match_slot) data b
                else inject insert_slot \<lparr>e_address = a, e_partition = p, e_data = data\<rparr> b);
          b'' = (if pack_file data \<noteq> 0
                 then update_up (addr_hash a) data insert_slot (length (sorted_index b') - 1)
                        (update_down (addr_hash a) data insert_slot b')
                 else b')
      in b'' \<lparr>dirty := True\<rparr>)"

definition keep_entry ::
  "immutable_store_bucket \<Rightarrow> nat \<Rightarrow> fragment \<Rightarrow> immutable_store_bucket \<times> store_outcome" where
  "keep_entry b i fragment =
     (let data = e_data (entry b ! i);
          stored = stored_flags (flags fragment) (pack_file data)
      in if stored \<noteq> d_flags data AND PayloadStored then
           let current = (d_flags data AND NOT PayloadStored) OR stored
           in (set_data i (data \<lparr>d_flags := current\<rparr>) b \<lparr>dirty := True\<rparr>,
               Kept (if current \<noteq> d_flags data then Some current else None))
         else (b, Kept None))"

definition store_entry ::
  "u64 \<Rightarrow> immutable_store_bucket \<Rightarrow> partition \<Rightarrow> address \<Rightarrow> fragment \<Rightarrow> store_payload \<Rightarrow> bool \<Rightarrow>
   (immutable_store_bucket \<times> store_outcome) result" where
  "store_entry now b p a fragment payload force =
     (let has_payload = (payload \<noteq> Absent);
          (match_slot, insert_slot, match_made) = lookup b p a MatchFull;
          matched_hash = (match_made \<noteq> MatchNone);
          matched_partition = (match_made = MatchPartition \<or> match_made = MatchFull);
          i = slot_index b match_slot;
          data = e_data (entry b ! i)
      in if match_made = MatchFull \<and> \<not> has_payload \<and> d_flags data AND PayloadObliterated \<noteq> 0
         then Inl PayloadNotFound
         else if matched_hash \<and> d_size_content data \<noteq> size_content fragment \<and>
                 d_flags data AND PayloadObliterated = 0
         then Inl (Internal ''Hash collision in immutable store'')
         else if match_made = MatchFull \<and> ((\<not> force \<and> pack_file data \<noteq> 0) \<or> \<not> has_payload)
         then Inr (keep_entry b i fragment)
         else
           let dedup = (matched_hash \<and> (\<not> force \<or> \<not> has_payload));
               pf = (if dedup then pack_file data else 0);
               po = (if dedup then pack_offset data else 0);
               adopt = (dedup \<and> pack_file data \<noteq> 0);
               fragment_flags = (if adopt then (d_flags data AND NOT PayloadStored) OR (flags fragment AND PayloadStored)
                                 else flags fragment);
               sp = (if adopt then d_size_payload data else size_payload fragment);
               write = ((\<not> matched_partition \<or> (pf = 0 \<and> has_payload)) \<and> has_payload \<and> pf = 0)
           in if write \<and> payload = Unwritten then Inr (b, NeedsPayload)
              else
                let pf' = (case payload of Written r \<Rightarrow> if write then ref_id r else pf | _ \<Rightarrow> pf);
                    po' = (case payload of Written r \<Rightarrow> if write then ref_offset r else po | _ \<Rightarrow> po);
                    data' = \<lparr>d_flags = (fragment_flags AND NOT PayloadStored) OR stored_flags fragment_flags pf',
                             d_size_payload = sp, d_size_content = size_content fragment,
                             pack_offset = po', pack_file = pf', last_access = now\<rparr>
                in Inr (store_data b match_slot insert_slot match_made p a data', Stored fragment_flags pf'))"

section \<open>Copies and tombstones\<close>

text \<open>The bucket's part of \<open>copy\<close>: the bucket, and the flags to schedule a flush for.\<close>

definition copy_entry ::
  "u64 \<Rightarrow> immutable_store_bucket \<Rightarrow> partition \<Rightarrow> address \<Rightarrow> partition \<Rightarrow> lore_context \<Rightarrow> bool \<Rightarrow>
   (immutable_store_bucket \<times> u32 option) result" where
  "copy_entry now b source_partition source_address destination_partition destination_context durable =
     (let destination_address = Address (addr_hash source_address) destination_context
      in case copy_source_slot b source_partition source_address of
           None \<Rightarrow> Inl AddressNotFound
         | Some source_slot \<Rightarrow>
             let source_data = e_data (slot_entry b source_slot);
                 (dest_slot, insert_slot, dest_match) = lookup b destination_partition destination_address MatchFull
             in if dest_match = MatchFull then
                  let i = slot_index b dest_slot;
                      before = e_data (entry b ! i);
                      merged = merge_from_copy_source before source_data durable
                  in if merged \<noteq> before
                     then Inr (set_data i (merged \<lparr>last_access := now\<rparr>) b \<lparr>dirty := True\<rparr>, Some (d_flags merged))
                     else Inr (b, None)
                else
                  let data = merge_from_copy_source immutable_data_default source_data durable \<lparr>last_access := now\<rparr>
                  in Inr (inject insert_slot \<lparr>e_address = destination_address, e_partition = destination_partition,
                            e_data = data\<rparr> b \<lparr>dirty := True\<rparr>, Some (d_flags data)))"

datatype tombstone_outcome = Already | TombKept | Zero immutable_data | ZeroOnceCompactionStops

definition tombstone_data :: immutable_data where
  "tombstone_data = \<lparr>d_flags = PayloadObliterated, d_size_payload = 0, d_size_content = 0,
     pack_offset = 0, pack_file = 0, last_access = 0\<rparr>"

definition is_last_fragment :: "immutable_store_bucket \<Rightarrow> nat \<Rightarrow> hash \<Rightarrow> bool" where
  "is_last_fragment b match_slot h =
     (let live = (\<lambda>slot. d_flags (e_data (slot_entry b slot)) \<noteq> PayloadObliterated);
          same = (\<lambda>slot. e_hash (slot_entry b slot) = h);
          previous_match = list_ex live (takeWhile same (rev [0..<match_slot]));
          next_match = list_ex live (takeWhile same [match_slot + 1..<length (sorted_index b)])
      in \<not> previous_match \<and> \<not> next_match)"

definition tombstone ::
  "immutable_store_bucket \<Rightarrow> partition \<Rightarrow> address \<Rightarrow> bool \<Rightarrow> (immutable_store_bucket \<times> tombstone_outcome) result" where
  "tombstone b p a compaction_stopped =
     (let (match_slot, _, match_made) = lookup b p a MatchFull
      in if match_made \<noteq> MatchFull then Inl AddressNotFound
         else
           let i = slot_index b match_slot;
               original = e_data (entry b ! i)
           in if d_flags original AND PayloadObliterated = PayloadObliterated then Inr (b, Already)
              else
                let zero = (is_last_fragment b match_slot (addr_hash a) \<and> pack_file original \<noteq> 0)
                in if zero \<and> \<not> compaction_stopped then Inr (b, ZeroOnceCompactionStops)
                   else Inr (set_data i tombstone_data b \<lparr>dirty := True\<rparr>,
                             if zero then Zero original else TombKept))"

definition untombstone ::
  "immutable_store_bucket \<Rightarrow> partition \<Rightarrow> address \<Rightarrow> immutable_data \<Rightarrow> immutable_store_bucket" where
  "untombstone b p a original =
     (let (slot, _, matched) = lookup b p a MatchFull
      in if matched \<noteq> MatchFull then b
         else
           let i = slot_index b slot;
               data = e_data (entry b ! i)
           in if d_flags data = PayloadObliterated \<and> pack_file data = 0
              then set_data i original b \<lparr>dirty := True\<rparr> else b)"

section \<open>Sorted buckets\<close>

text \<open>
  The entries in the order of the index, their keys, and the invariant of a bucket: the index is a
  permutation of the entries and strictly sorts them by key.
\<close>

type_synonym entry_key = "hash \<times> partition \<times> lore_context"

definition key_of :: "immutable_store_entry \<Rightarrow> entry_key" where
  "key_of e = (e_hash e, e_partition e, e_context e)"

definition slots :: "immutable_store_bucket \<Rightarrow> immutable_store_entry list" where
  "slots b = map (\<lambda>i. entry b ! unat i) (sorted_index b)"

definition index_ok :: "immutable_store_bucket \<Rightarrow> bool" where
  "index_ok b \<longleftrightarrow> length (sorted_index b) = length (entry b) \<and> distinct (sorted_index b) \<and>
     (\<forall>i \<in> set (sorted_index b). unat i < length (entry b))"

definition bucket_sorted :: "immutable_store_bucket \<Rightarrow> bool" where
  "bucket_sorted b \<longleftrightarrow> sorted_wrt (<) (map key_of (slots b))"

definition bucket_ok :: "immutable_store_bucket \<Rightarrow> bool" where
  "bucket_ok b \<longleftrightarrow> index_ok b \<and> bucket_sorted b"

lemma length_slots [simp]: "length (slots b) = length (sorted_index b)"
  by (simp add: slots_def)

lemma slots_nth: "i < length (sorted_index b) \<Longrightarrow> slots b ! i = slot_entry b i"
  by (simp add: slots_def)

lemma bucket_ok_length: "bucket_ok b \<Longrightarrow> length (slots b) = length (entry b)"
  by (simp add: bucket_ok_def index_ok_def)

lemma bucket_ok_empty [simp]: "bucket_ok empty_bucket"
  by (simp add: bucket_ok_def index_ok_def bucket_sorted_def slots_def empty_bucket_def)

section \<open>The search finds the best match\<close>

text \<open>How well a key matches the one searched for, short of being equal to it.\<close>

definition match_level :: "entry_key \<Rightarrow> entry_key \<Rightarrow> store_match" where
  "match_level k e =
     (if fst e \<noteq> fst k then MatchNone
      else if fst (snd e) \<noteq> fst (snd k) then MatchHash
      else if snd (snd e) \<noteq> snd (snd k) then MatchPartition
      else MatchFull)"

lemma match_level_Full_iff: "match_level k e = MatchFull \<longleftrightarrow> e = k"
  by (cases k; cases e) (auto simp: match_level_def)

text \<open>Between a key and the one searched for, no key matches worse.\<close>

lemma match_level_between:
  fixes k :: entry_key
  assumes "(x \<le> y \<and> y \<le> k) \<or> (k \<le> y \<and> y \<le> x)"
  shows "match_level k x \<le> match_level k y"
proof -
  obtain h p c h1 p1 c1 h2 p2 c2 where k: "k = (h, p, c)" "x = (h1, p1, c1)" "y = (h2, p2, c2)"
    by (metis prod.exhaust)
  show ?thesis
    using assms by (auto simp: k match_level_def less_eq_store_match_def)
qed

definition search_inv ::
  "entry_key list \<Rightarrow> entry_key \<Rightarrow> nat \<Rightarrow> nat \<Rightarrow> store_match \<Rightarrow> nat \<Rightarrow> bool" where
  "search_inv ks k start fin made m \<longleftrightarrow>
     start \<le> fin \<and> fin \<le> length ks \<and> (\<forall>i < start. ks ! i < k) \<and> (\<forall>i. fin \<le> i \<longrightarrow> i < length ks \<longrightarrow> k < ks ! i) \<and>
     (made \<noteq> MatchNone \<longrightarrow> m < length ks \<and> match_level k (ks ! m) = made) \<and> made \<noteq> MatchFull \<and>
     (0 < start \<longrightarrow> match_level k (ks ! (start - 1)) \<le> made) \<and>
     (fin < length ks \<longrightarrow> match_level k (ks ! fin) \<le> made)"

text \<open>What a search at full strength answers.\<close>

definition search_result :: "entry_key list \<Rightarrow> entry_key \<Rightarrow> nat \<times> nat \<times> store_match \<Rightarrow> bool" where
  "search_result ks k res \<longleftrightarrow>
     (case res of (m, ins, made) \<Rightarrow>
        (\<forall>e \<in> set ks. match_level k e \<le> made) \<and>
        (made \<noteq> MatchNone \<longrightarrow> m < length ks \<and> match_level k (ks ! m) = made) \<and>
        ins \<le> length ks \<and> (\<forall>i < ins. ks ! i < k) \<and>
        (made \<noteq> MatchFull \<longrightarrow> (\<forall>i. ins \<le> i \<longrightarrow> i < length ks \<longrightarrow> k < ks ! i)) \<and>
        (made = MatchFull \<longrightarrow> ins \<le> m))"

lemma search_inv_done:
  assumes inv: "search_inv ks k start start made m" and sorted: "sorted_wrt (<) ks"
  shows "search_result ks k (m, start, made)"
proof -
  have "match_level k e \<le> made" if "e \<in> set ks" for e
  proof -
    from that obtain i where i: "i < length ks" "e = ks ! i" by (auto simp: in_set_conv_nth)
    have mono: "ks ! a \<le> ks ! b" if "a \<le> b" "b < length ks" for a b
      using sorted that by (cases "a = b") (auto simp: sorted_wrt_iff_nth_less intro: less_imp_le)
    show ?thesis
    proof (cases "i < start")
      case True
      then have "ks ! i \<le> ks ! (start - 1)" "ks ! (start - 1) < k" "match_level k (ks ! (start - 1)) \<le> made"
        using inv mono by (auto simp: search_inv_def)
      then show ?thesis
        using match_level_between [of "ks ! i" "ks ! (start - 1)" k] i(2) by (meson less_imp_le order.trans)
    next
      case False
      then have "ks ! start \<le> ks ! i" "k < ks ! start" "match_level k (ks ! start) \<le> made"
        using inv mono i by (auto simp: search_inv_def)
      then show ?thesis
        using match_level_between [of "ks ! i" "ks ! start" k] i(2) by (meson less_imp_le order.trans)
    qed
  qed
  then show ?thesis
    using inv by (auto simp: search_result_def search_inv_def)
qed

text \<open>The key an address has in a partition.\<close>

abbreviation key :: "partition \<Rightarrow> address \<Rightarrow> entry_key" where
  "key p a \<equiv> (addr_hash a, p, addr_context a)"

lemma lookup_loop_step:
  fixes b p a m
  assumes "start < fin" "made \<noteq> MatchFull"
  defines "slot \<equiv> (start + fin) div 2"
  defines "e \<equiv> key_of (slot_entry b slot)"
  defines "lv \<equiv> match_level (key p a) e"
  shows "lookup_loop b p a MatchFull start fin made m =
    (if e = key p a then (slot, start, MatchFull)
     else if key p a < e then lookup_loop b p a MatchFull start slot (max made lv) (if made < lv then slot else m)
     else lookup_loop b p a MatchFull (slot + 1) fin (max made lv) (if made < lv then slot else m))"
  using assms(1,2) unfolding e_def lv_def slot_def
  by (subst lookup_loop.simps)
    (cases made; simp add: Let_def key_of_def match_level_def max_def less_eq_store_match_def less_store_match_def
        word_le_nat_alt word_less_nat_alt; auto)

lemma search_step:
  fixes k :: entry_key
  assumes inv: "search_inv ks k start fin made m" and lt: "start < fin" and sorted: "sorted_wrt (<) ks"
  defines "slot \<equiv> (start + fin) div 2"
  assumes ne: "ks ! slot \<noteq> k"
  defines "lv \<equiv> match_level k (ks ! slot)"
  shows "k < ks ! slot \<Longrightarrow> search_inv ks k start slot (max made lv) (if made < lv then slot else m)"
    and "\<not> k < ks ! slot \<Longrightarrow> search_inv ks k (slot + 1) fin (max made lv) (if made < lv then slot else m)"
proof -
  have slot: "start \<le> slot" "slot < fin" "slot < length ks" using inv lt by (auto simp: slot_def search_inv_def)
  have mono: "ks ! a < ks ! b" if "a < b" "b < length ks" for a b
    using sorted that by (auto simp: sorted_wrt_iff_nth_less)
  have full: "max made lv \<noteq> MatchFull"
    using inv ne by (auto simp: search_inv_def lv_def max_def match_level_Full_iff)
  have best: "max made lv \<noteq> MatchNone \<longrightarrow>
      (if made < lv then slot else m) < length ks \<and> match_level k (ks ! (if made < lv then slot else m)) = max made lv"
    using inv slot by (auto simp: search_inv_def lv_def max_def)
  have ends: "0 < start \<longrightarrow> match_level k (ks ! (start - 1)) \<le> max made lv"
      "fin < length ks \<longrightarrow> match_level k (ks ! fin) \<le> max made lv" "match_level k (ks ! slot) \<le> max made lv"
    using inv by (auto simp: search_inv_def lv_def le_max_iff_disj)
  have bounds: "\<forall>i < start. ks ! i < k" "\<forall>i. fin \<le> i \<longrightarrow> i < length ks \<longrightarrow> k < ks ! i" "fin \<le> length ks"
    using inv by (auto simp: search_inv_def)
  show "search_inv ks k start slot (max made lv) (if made < lv then slot else m)" if "k < ks ! slot"
  proof -
    have "k < ks ! i" if "slot \<le> i" "i < length ks" for i
      using \<open>k < ks ! slot\<close> mono [of slot i] that by (cases "i = slot") auto
    with slot full best ends bounds show ?thesis by (simp add: search_inv_def)
  qed
  show "search_inv ks k (slot + 1) fin (max made lv) (if made < lv then slot else m)" if "\<not> k < ks ! slot"
  proof -
    have lt': "ks ! slot < k" using that ne by auto
    have "ks ! i < k" if "i < slot + 1" for i
      using lt' mono [of i slot] that slot(3) by (cases "i = slot") auto
    with slot full best ends bounds show ?thesis by (simp add: search_inv_def)
  qed
qed

lemma lookup_loop_result:
  assumes "bucket_ok b" "search_inv (map key_of (slots b)) (key p a) start fin made m"
  shows "search_result (map key_of (slots b)) (key p a) (lookup_loop b p a MatchFull start fin made m)"
  using assms(2)
proof (induction "fin - start" arbitrary: start fin made m rule: less_induct)
  case less
  let ?ks = "map key_of (slots b)" and ?k = "key p a"
  have sorted: "sorted_wrt (<) ?ks" using assms(1) by (simp add: bucket_ok_def bucket_sorted_def)
  have full: "made \<noteq> MatchFull" using less.prems by (auto simp: search_inv_def)
  show ?case
  proof (cases "start < fin")
    case False
    then have "start = fin" using less.prems by (simp add: search_inv_def)
    with less.prems sorted show ?thesis
      by (subst lookup_loop.simps) (simp add: search_inv_done)
  next
    case True
    let ?slot = "(start + fin) div 2"
    have slot: "?slot < length ?ks" "?slot < fin" using less.prems True by (auto simp: search_inv_def)
    then have e: "key_of (slot_entry b ?slot) = ?ks ! ?slot" by (simp add: slots_nth)
    note step = lookup_loop_step [OF True full, of b p a m, unfolded e]
    show ?thesis
    proof (cases "?ks ! ?slot = ?k")
      case True
      have "search_result ?ks ?k (?slot, start, MatchFull)"
        using less.prems True slot by (auto simp: search_result_def search_inv_def match_level_Full_iff)
      with True step show ?thesis by simp
    next
      case False
      note inv = search_step [OF less.prems True sorted False]
      show ?thesis
      proof (cases "?k < ?ks ! ?slot")
        case True
        with False less.hyps [OF _ inv(1) [OF True]] slot \<open>start < fin\<close> step show ?thesis by simp
      next
        case right: False
        with False less.hyps [OF _ inv(2) [OF right]] slot \<open>start < fin\<close> step show ?thesis by simp
      qed
    qed
  qed
qed

lemma lookup_result:
  assumes "bucket_ok b"
  shows "search_result (map key_of (slots b)) (key p a) (lookup b p a MatchFull)"
  unfolding lookup_def
  using assms bucket_ok_length [OF assms]
  by (intro lookup_loop_result) (auto simp: search_inv_def)

section \<open>A bucket as a map\<close>

text \<open>What a bucket means: the data each key is associated with.\<close>

definition assoc :: "immutable_store_bucket \<Rightarrow> entry_key \<rightharpoonup> immutable_data" where
  "assoc b = map_of (map (\<lambda>e. (key_of e, e_data e)) (slots b))"

lemma distinct_keys: "bucket_ok b \<Longrightarrow> distinct (map key_of (slots b))"
  unfolding bucket_ok_def bucket_sorted_def by (metis strict_sorted_iff)

lemma dom_assoc: "dom (assoc b) = key_of ` set (slots b)"
  by (simp add: assoc_def dom_map_of_conv_image_fst image_image)

lemma assoc_nth: "bucket_ok b \<Longrightarrow> i < length (sorted_index b) \<Longrightarrow> assoc b (key_of (slots b ! i)) = Some (e_data (slots b ! i))"
  unfolding assoc_def
  by (rule map_of_is_SomeI) (auto simp: comp_def distinct_keys)

lemma assoc_Some_iff:
  "bucket_ok b \<Longrightarrow> assoc b k = Some d \<longleftrightarrow> (\<exists>e \<in> set (slots b). key_of e = k \<and> e_data e = d)"
  unfolding assoc_def using distinct_keys [of b] by (auto simp: comp_def)

lemma lookup_cases:
  assumes "bucket_ok b" "lookup b p a MatchFull = (m, ins, made)"
  shows "made = MatchFull \<longleftrightarrow> assoc b (key p a) \<noteq> None"
    and "made \<noteq> MatchNone \<Longrightarrow> m < length (sorted_index b) \<and> match_level (key p a) (key_of (slots b ! m)) = made"
    and "e \<in> set (slots b) \<Longrightarrow> match_level (key p a) (key_of e) \<le> made"
    and "ins \<le> length (sorted_index b)" "i < ins \<Longrightarrow> key_of (slots b ! i) < key p a"
    and "made \<noteq> MatchFull \<Longrightarrow> ins \<le> i \<Longrightarrow> i < length (sorted_index b) \<Longrightarrow> key p a < key_of (slots b ! i)"
proof -
  have res: "search_result (map key_of (slots b)) (key p a) (m, ins, made)"
    using lookup_result [OF assms(1)] assms(2) by metis
  show "made \<noteq> MatchNone \<Longrightarrow> m < length (sorted_index b) \<and> match_level (key p a) (key_of (slots b ! m)) = made"
    using res by (auto simp: search_result_def)
  show all: "e \<in> set (slots b) \<Longrightarrow> match_level (key p a) (key_of e) \<le> made" for e
    using res by (auto simp: search_result_def)
  show ins: "ins \<le> length (sorted_index b)" using res by (simp add: search_result_def)
  show "i < ins \<Longrightarrow> key_of (slots b ! i) < key p a" using res ins by (auto simp: search_result_def)
  show "made \<noteq> MatchFull \<Longrightarrow> ins \<le> i \<Longrightarrow> i < length (sorted_index b) \<Longrightarrow> key p a < key_of (slots b ! i)"
    using res by (auto simp: search_result_def)
  show "made = MatchFull \<longleftrightarrow> assoc b (key p a) \<noteq> None"
  proof
    assume "made = MatchFull"
    with res have m: "m < length (sorted_index b)" "key_of (slots b ! m) = key p a"
      by (auto simp: search_result_def match_level_Full_iff)
    then show "assoc b (key p a) \<noteq> None" using assoc_nth [OF assms(1) m(1)] by simp
  next
    assume "assoc b (key p a) \<noteq> None"
    then obtain e where "e \<in> set (slots b)" "key_of e = key p a" using assoc_Some_iff [OF assms(1)] by blast
    from all [OF this(1)] this(2) show "made = MatchFull"
      by (metis match_level_Full_iff store_match_less_simps(2) not_le)
  qed
qed

lemma lookup_full:
  assumes "bucket_ok b" "lookup b p a MatchFull = (m, ins, MatchFull)"
  shows "m < length (sorted_index b)" "key_of (slots b ! m) = key p a"
    "assoc b (key p a) = Some (e_data (slot_entry b m))"
proof -
  show m: "m < length (sorted_index b)" and k: "key_of (slots b ! m) = key p a"
    using lookup_cases(2) [OF assms] by (auto simp: match_level_Full_iff)
  show "assoc b (key p a) = Some (e_data (slot_entry b m))"
    using assoc_nth [OF assms(1) m] k m by (simp add: slots_nth)
qed

section \<open>Changing a bucket\<close>

text \<open>A change that keeps the index and the keys keeps the bucket in order.\<close>

lemma bucket_ok_same_keys:
  assumes "bucket_ok b" "sorted_index b' = sorted_index b" "length (entry b') = length (entry b)"
    "map key_of (slots b') = map key_of (slots b)"
  shows "bucket_ok b'"
  using assms by (simp add: bucket_ok_def index_ok_def bucket_sorted_def)

lemma slots_dirty [simp]: "slots (b \<lparr>dirty := x\<rparr>) = slots b" "slots (b \<lparr>soft_dirty := x\<rparr>) = slots b"
  by (simp_all add: slots_def)

lemma bucket_ok_dirty [simp]:
  "bucket_ok (b \<lparr>dirty := x\<rparr>) = bucket_ok b" "bucket_ok (b \<lparr>soft_dirty := x\<rparr>) = bucket_ok b"
  by (simp_all add: bucket_ok_def index_ok_def bucket_sorted_def)

lemma assoc_dirty [simp]: "assoc (b \<lparr>dirty := x\<rparr>) = assoc b" "assoc (b \<lparr>soft_dirty := x\<rparr>) = assoc b"
  by (simp_all add: assoc_def)

lemma sorted_index_set_data [simp]: "sorted_index (set_data i d b) = sorted_index b"
  by (simp add: set_data_def)

lemma length_entry_set_data [simp]: "length (entry (set_data i d b)) = length (entry b)"
  by (simp add: set_data_def)

lemma slot_index_less: "index_ok b \<Longrightarrow> s < length (sorted_index b) \<Longrightarrow> slot_index b s < length (entry b)"
  by (simp add: index_ok_def)

lemma slots_set_data:
  assumes "index_ok b" "s < length (sorted_index b)"
  shows "slots (set_data (slot_index b s) d b) = (slots b)[s := (slots b ! s) \<lparr>e_data := d\<rparr>]"
proof (rule nth_equalityI)
  fix i assume "i < length (slots (set_data (slot_index b s) d b))"
  then have i: "i < length (sorted_index b)" by simp
  have "slot_index b i = slot_index b s \<longleftrightarrow> i = s"
    using assms i by (metis index_ok_def nth_eq_iff_index_eq unsigned_word_eqI)
  then show "slots (set_data (slot_index b s) d b) ! i = (slots b)[s := (slots b ! s) \<lparr>e_data := d\<rparr>] ! i"
    using i assms slot_index_less [OF assms(1)] by (auto simp: slots_def set_data_def nth_list_update)
qed (simp add: slots_def)

lemma key_of_data [simp]: "key_of (e \<lparr>e_data := d\<rparr>) = key_of e"
  by (simp add: key_of_def)

lemma map_key_update [simp]: "map key_of (es[s := (es ! s) \<lparr>e_data := d\<rparr>]) = map key_of es"
  by (cases "s < length es") (auto simp: map_update list_update_same_conv list_update_beyond)

lemma bucket_ok_set_data:
  assumes "bucket_ok b" "s < length (sorted_index b)"
  shows "bucket_ok (set_data (slot_index b s) d b)"
  using assms by (intro bucket_ok_same_keys [OF assms(1)]) (simp_all add: slots_set_data bucket_ok_def)

lemma map_of_update_value:
  assumes "distinct (map fst xs)" "i < length xs" "fst (xs ! i) = k"
  shows "map_of (xs[i := (k, d)]) = (map_of xs)(k \<mapsto> d)"
  using assms
proof (induction xs arbitrary: i)
  case (Cons x xs)
  show ?case
  proof (cases i)
    case 0
    with Cons show ?thesis by (cases x) (auto simp: fun_eq_iff)
  next
    case (Suc j)
    with Cons.prems have "k \<in> set (map fst xs)" by (metis Suc_less_eq length_Cons length_map nth_Cons_Suc nth_map nth_mem)
    with Suc Cons have "map_of (xs[j := (k, d)]) = (map_of xs)(k \<mapsto> d)" "fst x \<noteq> k" by auto
    with Suc show ?thesis by (cases x) (auto simp: fun_eq_iff)
  qed
qed simp

lemma assoc_set_data:
  assumes "bucket_ok b" "s < length (sorted_index b)" "key_of (slots b ! s) = k"
  shows "assoc (set_data (slot_index b s) d b) = (assoc b)(k \<mapsto> d)"
proof -
  let ?kv = "\<lambda>e. (key_of e, e_data e)"
  have "map ?kv ((slots b)[s := (slots b ! s) \<lparr>e_data := d\<rparr>]) = (map ?kv (slots b))[s := (k, d)]"
    using assms(3) by (simp add: map_update)
  then show ?thesis
    using assms distinct_keys [OF assms(1)]
    by (simp add: assoc_def slots_set_data bucket_ok_def map_of_update_value comp_def)
qed

text \<open>Adding an entry in its place.\<close>

lemma slots_inject:
  assumes "index_ok b" "length (entry b) < 2 ^ 32" "ins \<le> length (sorted_index b)"
  shows "slots (inject ins e b) = take ins (slots b) @ e # drop ins (slots b)"
proof -
  have old: "map (\<lambda>i. (entry b @ [e]) ! unat i) xs = map (\<lambda>i. entry b ! unat i) xs"
    if "set xs \<subseteq> set (sorted_index b)" for xs
    using assms(1) that by (auto simp: index_ok_def nth_append)
  have "unat (word_of_nat (length (entry b)) :: u32) = length (entry b)"
    using assms(2) by (simp add: unat_word_of_nat)
  then show ?thesis
    by (simp add: slots_def inject_def Let_def old set_take_subset set_drop_subset take_map drop_map)
qed

lemma index_ok_inject:
  assumes "index_ok b" "length (entry b) < 2 ^ 32" "ins \<le> length (sorted_index b)"
  shows "index_ok (inject ins e b)"
proof -
  have n: "unat (word_of_nat (length (entry b)) :: u32) = length (entry b)"
    using assms(2) by (simp add: unat_word_of_nat)
  then have fresh: "word_of_nat (length (entry b)) \<notin> set (sorted_index b)"
    using assms(1) by (auto simp: index_ok_def)
  have perm: "set (take ins (sorted_index b)) \<union> set (drop ins (sorted_index b)) = set (sorted_index b)"
    by (metis append_take_drop_id set_append)
  have "set (take ins (sorted_index b)) \<inter> set (drop ins (sorted_index b)) = {}"
    using assms(1) by (metis append_take_drop_id distinct_append index_ok_def)
  then show ?thesis
    using assms n fresh perm by (auto simp: index_ok_def inject_def Let_def less_Suc_eq)
qed

lemma sorted_wrt_insert:
  fixes k :: "'a :: linorder"
  assumes "sorted_wrt (<) ks" "\<And>i. i < ins \<Longrightarrow> ks ! i < k" "\<And>i. ins \<le> i \<Longrightarrow> i < length ks \<Longrightarrow> k < ks ! i"
    "ins \<le> length ks"
  shows "sorted_wrt (<) (take ins ks @ k # drop ins ks)"
proof -
  have "x < k" if "x \<in> set (take ins ks)" for x
    using that assms(2) by (auto simp: in_set_conv_nth)
  moreover have "k < x" if x: "x \<in> set (drop ins ks)" for x
  proof -
    obtain j where "j < length ks - ins" "x = ks ! (ins + j)" using x by (auto simp: in_set_conv_nth)
    with assms(3) [of "ins + j"] show ?thesis by simp
  qed
  ultimately show ?thesis
    using assms(1) by (force simp: sorted_wrt_append sorted_wrt_take sorted_wrt_drop)
qed

lemma bucket_ok_inject:
  assumes "bucket_ok b" "length (entry b) < 2 ^ 32" "lookup b p a MatchFull = (m, ins, made)" "made \<noteq> MatchFull"
    "key_of e = key p a"
  shows "bucket_ok (inject ins e b)" "slots (inject ins e b) = take ins (slots b) @ e # drop ins (slots b)"
    "assoc (inject ins e b) = (assoc b)(key p a \<mapsto> e_data e)"
proof -
  have ok: "index_ok b" using assms(1) by (simp add: bucket_ok_def)
  note lk = lookup_cases [OF assms(1,3)]
  show sl: "slots (inject ins e b) = take ins (slots b) @ e # drop ins (slots b)"
    using slots_inject ok assms(2) lk(4) by blast
  have "sorted_wrt (<) (take ins (map key_of (slots b)) @ key p a # drop ins (map key_of (slots b)))"
    using assms(1,4) lk(4-6) by (intro sorted_wrt_insert) (auto simp: bucket_ok_def bucket_sorted_def)
  then show ok': "bucket_ok (inject ins e b)"
    using index_ok_inject [OF ok assms(2) lk(4)]
    by (simp add: bucket_ok_def bucket_sorted_def sl assms(5) take_map drop_map)
  show "assoc (inject ins e b) = (assoc b)(key p a \<mapsto> e_data e)"
  proof (rule ext)
    fix k
    have "set (slots (inject ins e b)) = insert e (set (slots b))"
      by (metis sl Un_insert_right append_take_drop_id list.simps(15) set_append)
    then have "assoc (inject ins e b) k = Some d \<longleftrightarrow> ((assoc b)(key p a \<mapsto> e_data e)) k = Some d" for d
      using assoc_Some_iff [OF ok', of k d] assoc_Some_iff [OF assms(1), of k d] assms(4,5) lk(1)
        assoc_Some_iff [OF assms(1), of "key p a"] by (cases "k = key p a") auto
    then show "assoc (inject ins e b) k = ((assoc b)(key p a \<mapsto> e_data e)) k"
      by (metis not_None_eq)
  qed
qed

section \<open>The upgrade of the other entries of a hash\<close>

definition live :: "immutable_data \<Rightarrow> bool" where
  "live d \<longleftrightarrow> d_flags d AND PayloadObliterated = 0"

definition same_location :: "immutable_data \<Rightarrow> immutable_data \<Rightarrow> bool" where
  "same_location d d' \<longleftrightarrow> pack_file d = pack_file d' \<and> pack_offset d = pack_offset d'"

definition upgrade :: "immutable_data \<Rightarrow> immutable_data \<Rightarrow> immutable_data" where
  "upgrade data d = (if live d \<and> \<not> same_location d data then assign_deduplicated_payload d data else d)"

definition upgrade_entry :: "hash \<Rightarrow> immutable_data \<Rightarrow> immutable_store_entry \<Rightarrow> immutable_store_entry" where
  "upgrade_entry h data e = (if e_hash e = h then e \<lparr>e_data := upgrade data (e_data e)\<rparr> else e)"

lemma key_of_upgrade_entry [simp]: "key_of (upgrade_entry h data e) = key_of e"
  by (simp add: upgrade_entry_def)

lemma e_hash_upgrade_entry [simp]: "e_hash (upgrade_entry h data e) = e_hash e"
  by (simp add: upgrade_entry_def)

lemma upgrade_entry_other: "e_hash e \<noteq> h \<Longrightarrow> upgrade_entry h data e = e"
  by (simp add: upgrade_entry_def)

lemma upgrade_same [simp]: "upgrade data data = data"
  by (simp add: upgrade_def same_location_def)

lemma update_slot_eq:
  assumes "index_ok b" "s < length (sorted_index b)" "update_slot h data b s = (b', go)"
  shows "slots b' = (slots b)[s := upgrade_entry h data (slots b ! s)]" "sorted_index b' = sorted_index b"
    "length (entry b') = length (entry b)" "go \<longleftrightarrow> e_hash (slots b ! s) = h" "index_ok b'"
proof -
  have id: "(slots b)[s := slots b ! s] = slots b" by simp
  have *: "slots b' = (slots b)[s := upgrade_entry h data (slots b ! s)] \<and> sorted_index b' = sorted_index b \<and>
      length (entry b') = length (entry b) \<and> (go \<longleftrightarrow> e_hash (slots b ! s) = h)"
    using assms id slots_set_data [OF assms(1,2)]
    by (auto simp: update_slot_def Let_def slots_nth upgrade_entry_def upgrade_def live_def same_location_def
        split: if_splits)
  then show "slots b' = (slots b)[s := upgrade_entry h data (slots b ! s)]" "sorted_index b' = sorted_index b"
    "length (entry b') = length (entry b)" "go \<longleftrightarrow> e_hash (slots b ! s) = h" by auto
  with assms(1) show "index_ok b'" by (simp add: index_ok_def)
qed

lemma update_down_sorted:
  assumes "index_ok b" "n \<le> length (sorted_index b)" "sorted (map e_hash (slots b))"
    "\<And>j. j < n \<Longrightarrow> e_hash (slots b ! j) \<le> h"
  shows "slots (update_down h data n b) = map (upgrade_entry h data) (take n (slots b)) @ drop n (slots b) \<and>
    sorted_index (update_down h data n b) = sorted_index b \<and>
    length (entry (update_down h data n b)) = length (entry b)"
  using assms
proof (induction n arbitrary: b)
  case 0
  then show ?case by simp
next
  case (Suc n)
  let ?e = "slots b ! n"
  obtain b' go where step: "update_slot h data b n = (b', go)" by fastforce
  have n: "n < length (sorted_index b)" using Suc.prems(2) by simp
  note eq = update_slot_eq [OF Suc.prems(1) n step]
  have take: "take (Suc n) (slots b) = take n (slots b) @ [?e]" using n by (simp add: take_Suc_conv_app_nth)
  have split: "slots b' = take n (slots b) @ upgrade_entry h data ?e # drop (Suc n) (slots b)"
    using n eq(1) by (simp add: upd_conv_take_nth_drop)
  show ?case
  proof (cases "e_hash ?e = h")
    case True
    have hash: "map e_hash (slots b') = map e_hash (slots b)"
      using n by (simp add: eq(1) map_update list_update_same_conv)
    have "slots (update_down h data n b') = map (upgrade_entry h data) (take n (slots b')) @ drop n (slots b') \<and>
        sorted_index (update_down h data n b') = sorted_index b' \<and>
        length (entry (update_down h data n b')) = length (entry b')"
      using Suc.prems(3,4) n eq hash
      by (intro Suc.IH) (auto simp: nth_list_update)
    moreover have "take n (slots b') = take n (slots b)" "drop n (slots b') = upgrade_entry h data ?e # drop (Suc n) (slots b)"
      using split n by simp_all
    ultimately show ?thesis using True step eq(2-4) take by simp
  next
    case False
    then have "e_hash ?e < h" using Suc.prems(4) [of n] by simp
    moreover have "e_hash (slots b ! j) \<le> e_hash ?e" if "j < n" for j
      using Suc.prems(3) that n by (auto simp: sorted_iff_nth_mono)
    ultimately have "e_hash (slots b ! j) \<noteq> h" if "j < n" for j using that by fastforce
    then have "map (upgrade_entry h data) (take n (slots b)) = take n (slots b)"
      using n by (intro map_idI) (auto simp: in_set_conv_nth upgrade_entry_other)
    with False step eq split n take show ?thesis by (simp add: upgrade_entry_other)
  qed
qed

lemma update_up_sorted:
  assumes "index_ok b" "s < length (sorted_index b)" "sorted (map e_hash (slots b))"
    "\<And>j. s < j \<Longrightarrow> j < length (sorted_index b) \<Longrightarrow> h \<le> e_hash (slots b ! j)"
  shows "let b'' = update_up h data s (length (sorted_index b) - 1) b
    in slots b'' = take (Suc s) (slots b) @ map (upgrade_entry h data) (drop (Suc s) (slots b)) \<and>
       sorted_index b'' = sorted_index b \<and> length (entry b'') = length (entry b)"
  using assms
proof (induction "length (sorted_index b) - 1 - s" arbitrary: s b)
  case 0
  then have "\<not> s < length (sorted_index b) - 1" by simp
  with 0 show ?case by (subst update_up.simps) simp
next
  case (Suc n)
  let ?last = "length (sorted_index b) - 1" and ?e = "slots b ! Suc s"
  obtain b' go where step: "update_slot h data b (s + 1) = (b', go)" by fastforce
  have s: "Suc s < length (sorted_index b)" "s < ?last" using Suc.hyps(2) Suc.prems(2) by auto
  have eq: "slots b' = (slots b)[Suc s := upgrade_entry h data ?e]" "sorted_index b' = sorted_index b"
    "length (entry b') = length (entry b)" "go \<longleftrightarrow> e_hash ?e = h" "index_ok b'"
    using update_slot_eq [OF Suc.prems(1) _ step] s by auto
  have drop: "drop (Suc s) (slots b) = ?e # drop (Suc (Suc s)) (slots b)"
    using s by (simp add: Cons_nth_drop_Suc)
  have split: "slots b' = take (Suc s) (slots b) @ upgrade_entry h data ?e # drop (Suc (Suc s)) (slots b)"
    using s eq(1) by (simp add: upd_conv_take_nth_drop)
  have unfold: "update_up h data s ?last b = (if go then update_up h data (Suc s) ?last b' else b')"
    using s step by (subst update_up.simps) simp
  show ?case
  proof (cases "e_hash ?e = h")
    case True
    have hash: "map e_hash (slots b') = map e_hash (slots b)"
      using s by (simp add: eq(1) map_update list_update_same_conv)
    have "let b'' = update_up h data (Suc s) (length (sorted_index b') - 1) b'
      in slots b'' = take (Suc (Suc s)) (slots b') @ map (upgrade_entry h data) (drop (Suc (Suc s)) (slots b')) \<and>
         sorted_index b'' = sorted_index b' \<and> length (entry b'') = length (entry b')"
      using Suc.prems(3,4) Suc.hyps(2) s eq hash
      by (intro Suc.hyps(1)) (auto simp: nth_list_update)
    moreover have "take (Suc (Suc s)) (slots b') = take (Suc s) (slots b) @ [upgrade_entry h data ?e]"
      "drop (Suc (Suc s)) (slots b') = drop (Suc (Suc s)) (slots b)"
      using split s by simp_all
    ultimately show ?thesis using True unfold eq(2-4) drop by (simp add: Let_def)
  next
    case False
    then have "h < e_hash ?e" using Suc.prems(4) [of "Suc s"] s by simp
    moreover have "e_hash ?e \<le> e_hash (slots b ! j)" if "Suc s \<le> j" "j < length (sorted_index b)" for j
      using Suc.prems(3) that by (auto simp: sorted_iff_nth_mono)
    ultimately have "e_hash (slots b ! j) \<noteq> h" if "Suc s \<le> j" "j < length (sorted_index b)" for j
      using that by fastforce
    then have "map (upgrade_entry h data) (drop (Suc s) (slots b)) = drop (Suc s) (slots b)"
      by (intro map_idI) (auto simp: in_set_conv_nth upgrade_entry_other)
    with False unfold eq split s drop show ?thesis by (simp add: Let_def upgrade_entry_other)
  qed
qed

text \<open>Wherever the loops start, they change a bucket only by upgrading entries of the hash.\<close>

definition partly_upgraded ::
  "hash \<Rightarrow> immutable_data \<Rightarrow> immutable_store_bucket \<Rightarrow> immutable_store_bucket \<Rightarrow> bool" where
  "partly_upgraded h data b b' \<longleftrightarrow>
     sorted_index b' = sorted_index b \<and> length (entry b') = length (entry b) \<and>
     list_all2 (\<lambda>e e'. e' = e \<or> e' = upgrade_entry h data e) (slots b) (slots b')"

lemma upgrade_idem [simp]: "upgrade data (upgrade data d) = upgrade data d"
  by (auto simp: upgrade_def same_location_def assign_deduplicated_payload_def)

lemma upgrade_entry_idem [simp]: "upgrade_entry h data (upgrade_entry h data e) = upgrade_entry h data e"
  by (simp add: upgrade_entry_def)

lemma partly_upgraded_refl [simp]: "partly_upgraded h data b b"
  by (simp add: partly_upgraded_def list_all2_refl)

lemma partly_upgraded_nth:
  "partly_upgraded h data b b' \<Longrightarrow> i < length (sorted_index b) \<Longrightarrow>
   slots b' ! i = slots b ! i \<or> slots b' ! i = upgrade_entry h data (slots b ! i)"
  unfolding partly_upgraded_def list_all2_conv_all_nth by (metis length_slots)

lemma partly_upgradedI:
  assumes "sorted_index b' = sorted_index b" "length (entry b') = length (entry b)"
    "\<And>i. i < length (sorted_index b) \<Longrightarrow>
      slots b' ! i = slots b ! i \<or> slots b' ! i = upgrade_entry h data (slots b ! i)"
  shows "partly_upgraded h data b b'"
  unfolding partly_upgraded_def list_all2_conv_all_nth using assms by (metis length_slots)

lemma partly_upgraded_same:
  "partly_upgraded h data b b' \<Longrightarrow> sorted_index b' = sorted_index b \<and> length (entry b') = length (entry b)"
  by (simp add: partly_upgraded_def)

lemma partly_upgraded_trans [trans]:
  assumes "partly_upgraded h data b b'" "partly_upgraded h data b' b''"
  shows "partly_upgraded h data b b''"
proof (rule partly_upgradedI)
  fix i assume i: "i < length (sorted_index b)"
  then have "i < length (sorted_index b')" using partly_upgraded_same [OF assms(1)] by simp
  from partly_upgraded_nth [OF assms(1) i] partly_upgraded_nth [OF assms(2) this]
  show "slots b'' ! i = slots b ! i \<or> slots b'' ! i = upgrade_entry h data (slots b ! i)"
    by (metis upgrade_entry_idem)
qed (use partly_upgraded_same [OF assms(1)] partly_upgraded_same [OF assms(2)] in simp_all)

lemma partly_upgraded_index_ok: "partly_upgraded h data b b' \<Longrightarrow> index_ok b \<Longrightarrow> index_ok b'"
  by (simp add: partly_upgraded_def index_ok_def)

lemma partly_upgraded_length: "partly_upgraded h data b b' \<Longrightarrow> sorted_index b' = sorted_index b"
  by (simp add: partly_upgraded_def)

lemma partly_upgraded_keys:
  assumes "partly_upgraded h data b b'"
  shows "map key_of (slots b') = map key_of (slots b)"
proof (rule nth_equalityI)
  fix i assume "i < length (map key_of (slots b'))"
  then have "i < length (sorted_index b)" using partly_upgraded_same [OF assms] by simp
  with partly_upgraded_nth [OF assms this] partly_upgraded_same [OF assms]
  show "map key_of (slots b') ! i = map key_of (slots b) ! i" by auto
qed (use partly_upgraded_same [OF assms] in simp)

lemma partly_upgraded_update_slot:
  assumes "index_ok b" "s < length (sorted_index b)" "update_slot h data b s = (b', go)"
  shows "partly_upgraded h data b b'"
proof (rule partly_upgradedI)
  fix i assume "i < length (sorted_index b)"
  then show "slots b' ! i = slots b ! i \<or> slots b' ! i = upgrade_entry h data (slots b ! i)"
    using update_slot_eq(1) [OF assms] by (cases "i = s") simp_all
qed (use update_slot_eq(2,3) [OF assms] in simp_all)

lemma partly_upgraded_down:
  "index_ok b \<Longrightarrow> n \<le> length (sorted_index b) \<Longrightarrow> partly_upgraded h data b (update_down h data n b)"
proof (induction n arbitrary: b)
  case (Suc n)
  obtain b' go where step: "update_slot h data b n = (b', go)" by fastforce
  have one: "partly_upgraded h data b b'"
    using partly_upgraded_update_slot [OF Suc.prems(1) _ step] Suc.prems(2) by simp
  have "partly_upgraded h data b' (update_down h data n b')"
    using Suc.IH [OF partly_upgraded_index_ok [OF one Suc.prems(1)]]
      partly_upgraded_length [OF one] Suc.prems(2) by simp
  from partly_upgraded_trans [OF one this] one step show ?case by simp
qed simp

lemma partly_upgraded_up:
  "index_ok b \<Longrightarrow> n' \<le> length (sorted_index b) - 1 \<Longrightarrow> partly_upgraded h data b (update_up h data s n' b)"
proof (induction "n' - s" arbitrary: s b)
  case 0
  then show ?case by (subst update_up.simps) simp
next
  case (Suc n)
  obtain b' go where step: "update_slot h data b (s + 1) = (b', go)" by fastforce
  have one: "partly_upgraded h data b b'"
    using partly_upgraded_update_slot [OF Suc.prems(1) _ step] Suc.prems Suc.hyps(2) by simp
  have "partly_upgraded h data b' (update_up h data (s + 1) n' b')"
    using Suc.hyps(1) [OF _ partly_upgraded_index_ok [OF one Suc.prems(1)], of "s + 1"]
      partly_upgraded_length [OF one] Suc.hyps(2) Suc.prems(2) by simp
  from partly_upgraded_trans [OF one this] one step show ?case by (subst update_up.simps) simp
qed

lemma partly_upgraded_bucket_ok:
  assumes "partly_upgraded h data b b'" "bucket_ok b"
  shows "bucket_ok b'"
proof (rule bucket_ok_same_keys [OF assms(2)])
  show "map key_of (slots b') = map key_of (slots b)" using assms(1) by (rule partly_upgraded_keys)
qed (use assms(1) in \<open>auto simp: partly_upgraded_def\<close>)

lemma partly_upgraded_assoc:
  assumes "partly_upgraded h data b b'" "bucket_ok b"
  shows "assoc b' k = assoc b k \<or> (fst k = h \<and> assoc b' k = map_option (upgrade data) (assoc b k))"
proof (cases "k \<in> key_of ` set (slots b)")
  case True
  then obtain i where i: "i < length (sorted_index b)" "key_of (slots b ! i) = k"
    by (auto simp: in_set_conv_nth)
  have ok': "bucket_ok b'" using partly_upgraded_bucket_ok [OF assms] .
  have e: "slots b' ! i = slots b ! i \<or> slots b' ! i = upgrade_entry h data (slots b ! i)"
    "length (sorted_index b') = length (sorted_index b)"
    using partly_upgraded_nth [OF assms(1) i(1)] partly_upgraded_same [OF assms(1)] by simp_all
  then have "key_of (slots b' ! i) = k" using i(2) by auto
  then have "assoc b' k = Some (e_data (slots b' ! i))"
    using assoc_nth [OF ok', of i] i(1) e(2) by simp
  moreover have "assoc b k = Some (e_data (slots b ! i))" using assoc_nth [OF assms(2) i(1)] i(2) by simp
  moreover have "e_hash (slots b ! i) = fst k" using i(2) by (auto simp: key_of_def)
  ultimately show ?thesis using e(1) by (auto simp: upgrade_entry_def split: if_splits)
next
  case False
  moreover have "key_of ` set (slots b') = key_of ` set (slots b)"
    using partly_upgraded_keys [OF assms(1)] by (metis list.set_map)
  ultimately have "k \<notin> dom (assoc b')" "k \<notin> dom (assoc b)" by (simp_all add: dom_assoc)
  then have "assoc b' k = None" "assoc b k = None" by (simp_all add: domIff)
  then show ?thesis by simp
qed

lemma live_assign:
  "live data \<Longrightarrow> live (assign_deduplicated_payload d data)"
proof -
  assume "live data"
  then have "(d_flags data AND NOT PayloadStored) AND PayloadObliterated = 0"
    by (simp add: live_def word_bw_lcs flag_simps and.assoc)
  moreover have "stored_flags fl pf AND PayloadObliterated = 0" for fl pf
    by (simp add: stored_flags_def Let_def flag_simps bit.conj_disj_distrib2 and.assoc)
  ultimately show ?thesis
    by (simp add: live_def assign_deduplicated_payload_def bit.conj_disj_distrib2)
qed


section \<open>The effect of a store on the map\<close>

lemma fst_le_of_less: "(x :: 'a :: linorder \<times> 'b :: linorder) < y \<Longrightarrow> fst x \<le> fst y"
  by (cases x; cases y) auto

lemma fst_key_of [simp]: "fst (key_of e) = e_hash e"
  by (simp add: key_of_def)

lemma sorted_hashes:
  assumes "bucket_ok b"
  shows "sorted (map e_hash (slots b))"
proof -
  have "sorted_wrt (\<lambda>x y. fst x \<le> fst y) (map key_of (slots b))"
    using assms unfolding bucket_ok_def bucket_sorted_def
    by (auto elim!: sorted_wrt_mono_rel [rotated] intro: fst_le_of_less)
  then show ?thesis by (simp add: sorted_wrt_map)
qed

lemma store_data_full:
  fixes d k
  assumes ok: "bucket_ok b" and lk: "lookup b p a MatchFull = (m, ins, MatchFull)"
  defines "b' \<equiv> store_data b m ins MatchFull p a d"
  shows "bucket_ok b'" "assoc b' (key p a) = Some d" "length (entry b') = length (entry b)"
    "k \<noteq> key p a \<Longrightarrow> assoc b' k = assoc b k \<or>
       (fst k = addr_hash a \<and> pack_file d \<noteq> 0 \<and> assoc b' k = map_option (upgrade d) (assoc b k))"
proof -
  note full = lookup_full [OF ok lk]
  let ?b1 = "set_data (slot_index b m) d b"
  have b1: "bucket_ok ?b1" "assoc ?b1 = (assoc b)(key p a \<mapsto> d)"
    using bucket_ok_set_data [OF ok full(1)] assoc_set_data [OF ok full(1,2)] by auto
  then have idx: "index_ok ?b1" by (simp add: bucket_ok_def)
  let ?b2 = "update_down (addr_hash a) d ins ?b1"
  have p1: "partly_upgraded (addr_hash a) d ?b1 ?b2"
    using partly_upgraded_down [OF idx] lookup_cases(4) [OF ok lk] by simp
  let ?b3 = "update_up (addr_hash a) d ins (length (sorted_index ?b1) - 1) ?b2"
  have "partly_upgraded (addr_hash a) d ?b2 ?b3"
    using partly_upgraded_up [OF partly_upgraded_index_ok [OF p1 idx]] partly_upgraded_same [OF p1] by simp
  note p2 = partly_upgraded_trans [OF p1 this]
  have b': "b' = (if pack_file d \<noteq> 0 then ?b3 else ?b1) \<lparr>dirty := True\<rparr>"
    unfolding b'_def store_data_def Let_def by simp
  let ?b4 = "if pack_file d \<noteq> 0 then ?b3 else ?b1"
  have p: "partly_upgraded (addr_hash a) d ?b1 ?b4" using p2 by simp
  show "bucket_ok b'" using partly_upgraded_bucket_ok [OF p b1(1)] by (simp add: b')
  show "length (entry b') = length (entry b)" using partly_upgraded_same [OF p] by (simp add: b')
  show "assoc b' (key p a) = Some d"
    using partly_upgraded_assoc [OF p b1(1), of "key p a"] by (auto simp: b' b1(2))
  show "assoc b' k = assoc b k \<or>
      (fst k = addr_hash a \<and> pack_file d \<noteq> 0 \<and> assoc b' k = map_option (upgrade d) (assoc b k))"
    if "k \<noteq> key p a"
    using partly_upgraded_assoc [OF p b1(1), of k] that by (auto simp: b' b1(2))
qed

lemma assoc_map_upgrade:
  assumes "slots b' = map (upgrade_entry h d) (slots b)" "bucket_ok b"
  shows "assoc b' k = (if fst k = h then map_option (upgrade d) (assoc b k) else assoc b k)"
proof -
  have "map (\<lambda>e. (key_of e, e_data e)) (slots b') =
      map (\<lambda>(k, v). (k, if fst k = h then upgrade d v else v)) (map (\<lambda>e. (key_of e, e_data e)) (slots b))"
    by (simp add: assms(1) upgrade_entry_def)
  moreover have "map_of (map (\<lambda>(k, v). (k, if fst k = h then upgrade d v else v)) kvs) k =
      (if fst k = h then map_option (upgrade d) (map_of kvs k) else map_of kvs k)" for kvs
    by (induction kvs) auto
  ultimately show ?thesis by (simp only: assoc_def)
qed

lemma store_data_new:
  fixes d k
  assumes ok: "bucket_ok b" and lk: "lookup b p a MatchFull = (m, ins, made)" "made \<noteq> MatchFull"
    and len: "length (entry b) < 2 ^ 32"
  defines "b' \<equiv> store_data b m ins made p a d"
  shows "bucket_ok b'" "length (entry b') = Suc (length (entry b))"
    "assoc b' k = (if k = key p a then Some d
       else if fst k = addr_hash a \<and> pack_file d \<noteq> 0 then map_option (upgrade d) (assoc b k) else assoc b k)"
proof -
  let ?e = "\<lparr>e_address = a, e_partition = p, e_data = d\<rparr>" and ?h = "addr_hash a"
  have e: "key_of ?e = key p a" by (simp add: key_of_def)
  let ?b1 = "inject ins ?e b"
  note b1 = bucket_ok_inject [OF ok len lk e]
  note lc = lookup_cases [OF ok lk(1)]
  have idx: "index_ok ?b1" using b1(1) by (simp add: bucket_ok_def)
  have n1: "length (sorted_index ?b1) = Suc (length (sorted_index b))" "length (entry ?b1) = Suc (length (entry b))"
    using lc(4) by (simp_all add: inject_def Let_def)
  have nth: "slots ?b1 ! j = (if j < ins then slots b ! j else if j = ins then ?e else slots b ! (j - 1))"
    if "j < length (sorted_index ?b1)" for j
    using that lc(4) n1 by (auto simp: b1(2) nth_append nth_Cons' min_def)
  have below: "e_hash (slots ?b1 ! j) \<le> ?h" if "j < ins" for j
    using fst_le_of_less [OF lc(5) [OF that]] nth [of j] that lc(4) n1 by simp
  have above: "?h \<le> e_hash (slots ?b1 ! j)" if "ins < j" "j < length (sorted_index ?b1)" for j
    using fst_le_of_less [OF lc(6) [OF lk(2), of "j - 1"]] nth [of j] that n1 by simp
  let ?b2 = "update_down ?h d ins ?b1"
  have d2: "slots ?b2 = map (upgrade_entry ?h d) (take ins (slots ?b1)) @ drop ins (slots ?b1)"
    "sorted_index ?b2 = sorted_index ?b1" "length (entry ?b2) = length (entry ?b1)"
    using update_down_sorted [OF idx _ sorted_hashes [OF b1(1)] below] lc(4) n1 by auto
  have "map e_hash (slots ?b2) = map e_hash (take ins (slots ?b1) @ drop ins (slots ?b1))"
    by (simp only: d2(1) map_append map_map comp_def e_hash_upgrade_entry)
  then have hash2: "map e_hash (slots ?b2) = map e_hash (slots ?b1)" by (simp only: append_take_drop_id)
  have idx2: "index_ok ?b2" using idx d2(2,3) by (simp add: index_ok_def)
  let ?b3 = "update_up ?h d ins (length (sorted_index ?b1) - 1) ?b2"
  have above2: "?h \<le> e_hash (slots ?b2 ! j)" if "ins < j" "j < length (sorted_index ?b2)" for j
  proof -
    have "map e_hash (slots ?b2) ! j = map e_hash (slots ?b1) ! j" using hash2 by simp
    with above [OF that(1)] that(2) d2(2) show ?thesis by simp
  qed
  have "slots ?b3 = take (Suc ins) (slots ?b2) @ map (upgrade_entry ?h d) (drop (Suc ins) (slots ?b2))"
    "sorted_index ?b3 = sorted_index ?b1" "length (entry ?b3) = length (entry ?b1)"
    using update_up_sorted [OF idx2 _ _ above2] sorted_hashes [OF b1(1)] hash2 d2(2,3) lc(4) n1
    by (auto simp: Let_def)
  moreover have "upgrade_entry ?h d ?e = ?e" by (simp add: upgrade_entry_def)
  ultimately have b3: "slots ?b3 = map (upgrade_entry ?h d) (slots ?b1)" "sorted_index ?b3 = sorted_index ?b1"
    "length (entry ?b3) = length (entry ?b1)"
    using lc(4) by (simp_all add: d2(1) b1(2) take_map drop_map)
  have "bucket_ok ?b3"
    by (rule bucket_ok_same_keys [OF b1(1) b3(2,3)]) (simp add: b3(1) [simplified])
  moreover have b': "b' = (if pack_file d \<noteq> 0 then ?b3 else ?b1) \<lparr>dirty := True\<rparr>"
    using lk(2) unfolding b'_def store_data_def Let_def by simp
  ultimately show "bucket_ok b'" using b1(1) by simp
  show "length (entry b') = Suc (length (entry b))" using b3(3) n1 b' by simp
  show "assoc b' k = (if k = key p a then Some d
       else if fst k = addr_hash a \<and> pack_file d \<noteq> 0 then map_option (upgrade d) (assoc b k) else assoc b k)"
    using assoc_map_upgrade [OF b3(1) b1(1), of k] by (auto simp: b' b1(3))
qed

end
