(* ===== verification/Fan_Out.thy ===== *)
theory Fan_Out
  imports Lore_Types "HOL-Library.Finite_Map" "HOL-Library.Char_ord" "HOL-Library.List_Lexorder"
begin

text \<open>
  The layout of a group of buckets (\<open>lore-storage/src/local/fan_out.rs\<close>): how many buckets the
  hashes of a group are spread over, the names of the files in its directory, the level marker that
  records the count, and the recovery of a change of level that was interrupted.

  \<open>group_dir\<close> is the directory of a group with what the I/O to come answers. An operation works,
  fails with no effect, fails once its effect is there, or, for a write, leaves a part of its
  temporary file. A process stopped part way is a run whose I/O fails from that point on.
\<close>

section \<open>The directory of a group\<close>

datatype io_answer = Works | Fails | FailsAfter | FailsPartly nat

record group_dir =
  gd_made :: bool
  gd_files :: "(string, bytes) fmap"
  gd_io :: "io_answer list"

type_synonym 'a dir_op = "(group_dir, 'a) op"

definition next_io :: "group_dir \<Rightarrow> io_answer \<times> group_dir" where
  "next_io d = (case gd_io d of [] \<Rightarrow> (Works, d) | a # as \<Rightarrow> (a, d \<lparr>gd_io := as\<rparr>))"

text \<open>An operation with an effect on the files.\<close>

definition dir_effect :: "string \<Rightarrow> (group_dir \<Rightarrow> group_dir) \<Rightarrow> unit dir_op" where
  "dir_effect what f d =
     (case next_io d of
        (Works, d') \<Rightarrow> (Inr (), f d')
      | (FailsAfter, d') \<Rightarrow> (Inl (Internal what), f d')
      | (_, d') \<Rightarrow> (Inl (Internal what), d'))"

text \<open>An operation that only looks.\<close>

definition dir_query :: "string \<Rightarrow> (group_dir \<Rightarrow> 'a) \<Rightarrow> 'a dir_op" where
  "dir_query what f d = (case next_io d of (Works, d') \<Rightarrow> (Inr (f d'), d') | (_, d') \<Rightarrow> (Inl (Internal what), d'))"

definition put_file :: "string \<Rightarrow> bytes \<Rightarrow> group_dir \<Rightarrow> group_dir" where
  "put_file name content d = d \<lparr>gd_files := fmupd name content (gd_files d)\<rparr>"

definition drop_file :: "string \<Rightarrow> group_dir \<Rightarrow> group_dir" where
  "drop_file name d = d \<lparr>gd_files := fmdrop name (gd_files d)\<rparr>"

definition move_file :: "string \<Rightarrow> string \<Rightarrow> group_dir \<Rightarrow> group_dir" where
  "move_file old new d =
     (case fmlookup (gd_files d) old of None \<Rightarrow> d | Some content \<Rightarrow> put_file new content (drop_file old d))"

definition TEMPORARY_SUFFIX :: string where
  "TEMPORARY_SUFFIX = ''.tmp''"

definition temporary_path :: "string \<Rightarrow> string" where
  "temporary_path name = name @ TEMPORARY_SUFFIX"

text \<open>
  \<open>write_file_segments_atomic\<close>: the temporary file, then the rename. It needs the directory, and
  one that fails removes its temporary file unless the process stops before.
\<close>

definition dir_write :: "string \<Rightarrow> string \<Rightarrow> bytes \<Rightarrow> unit dir_op" where
  "dir_write what name content d =
     (let landed = (\<lambda>d. put_file name content (drop_file (temporary_path name) d))
      in if \<not> gd_made d then (Inl (Internal what), d)
         else case next_io d of
           (Works, d') \<Rightarrow> (Inr (), landed d')
         | (FailsAfter, d') \<Rightarrow> (Inl (Internal what), landed d')
         | (FailsPartly k, d') \<Rightarrow> (Inl (Internal what), put_file (temporary_path name) (take k content) d')
         | (Fails, d') \<Rightarrow> (Inl (Internal what), drop_file (temporary_path name) d'))"

definition dir_create :: "unit dir_op" where
  "dir_create = dir_effect ''Failed to create group directory'' (\<lambda>d. d \<lparr>gd_made := True\<rparr>)"

definition dir_names :: "group_dir \<Rightarrow> string list" where
  "dir_names d = sorted_list_of_fset (fmdom (gd_files d))"

section \<open>Levels\<close>

definition LEVEL_LADDER :: "nat list" where
  "LEVEL_LADDER = [1, 32, 64, 128, 256]"

definition FAN_OUT_LEVEL_MAX :: nat where
  "FAN_OUT_LEVEL_MAX = 256"

fun trailing_zeros :: "nat \<Rightarrow> nat" where
  "trailing_zeros n = (if n = 0 then 64 else if odd n then 0 else Suc (trailing_zeros (n div 2)))"

declare trailing_zeros.simps [simp del]

definition bucket_index_for :: "hash \<Rightarrow> nat \<Rightarrow> nat" where
  "bucket_index_for key count =
     (if count \<le> 1 then 0
      else unat (hash_as_bytes key ! 1) div 2 ^ trailing_zeros (256 div count))"

definition level_for :: "nat \<Rightarrow> nat \<Rightarrow> nat \<Rightarrow> nat" where
  "level_for current_level b_max threshold =
     (let product = min (current_level * b_max) (U64_RANGE - 1);
          required = (product + threshold - 1) div threshold
      in case find (\<lambda>m. required \<le> m) LEVEL_LADDER of Some m \<Rightarrow> m | None \<Rightarrow> 256)"

section \<open>File names\<close>

definition MARKER_FILENAME :: string where
  "MARKER_FILENAME = ''level''"

definition LEVEL_PENDING_FILENAME :: string where
  "LEVEL_PENDING_FILENAME = ''level.pending''"

definition BUCKET_FILENAME_PREFIX :: string where
  "BUCKET_FILENAME_PREFIX = ''index_''"

definition BUCKET_NEW_SUFFIX :: string where
  "BUCKET_NEW_SUFFIX = ''.new''"

definition HEX :: string where
  "HEX = ''0123456789abcdef''"

text \<open>Two digits of a value cast to \<open>u8\<close>.\<close>

definition write_hex_byte :: "nat \<Rightarrow> string" where
  "write_hex_byte n = (let v = n mod 256 in [HEX ! (v div 16), HEX ! (v mod 16)])"

definition hex_digit_value :: "char \<Rightarrow> nat option" where
  "hex_digit_value c =
     (let n = of_char c :: nat
      in if 48 \<le> n \<and> n \<le> 57 then Some (n - 48) else if 97 \<le> n \<and> n \<le> 102 then Some (n - 97 + 10) else None)"

fun parse_hex_byte :: "string \<Rightarrow> nat option" where
  "parse_hex_byte [high, low] =
     Option.bind (hex_digit_value high) (\<lambda>h. Option.bind (hex_digit_value low) (\<lambda>l. Some (16 * h + l)))"
| "parse_hex_byte _ = None"

definition bucket_path :: "nat \<Rightarrow> string" where
  "bucket_path i = BUCKET_FILENAME_PREFIX @ write_hex_byte i"

definition bucket_new_path :: "nat \<Rightarrow> string" where
  "bucket_new_path i = BUCKET_FILENAME_PREFIX @ write_hex_byte i @ BUCKET_NEW_SUFFIX"

definition is_bucket_file_name :: "string \<Rightarrow> bool" where
  "is_bucket_file_name name \<longleftrightarrow> length name = 8 \<and> take 6 name = BUCKET_FILENAME_PREFIX"

definition strip_prefix :: "string \<Rightarrow> string \<Rightarrow> string option" where
  "strip_prefix p s = (if take (length p) s = p then Some (drop (length p) s) else None)"

definition strip_suffix :: "string \<Rightarrow> string \<Rightarrow> string option" where
  "strip_suffix p s =
     (let n = length s - length p
      in if length p \<le> length s \<and> drop n s = p then Some (take n s) else None)"

definition new_file_bucket :: "string \<Rightarrow> nat option" where
  "new_file_bucket name =
     Option.bind (strip_prefix BUCKET_FILENAME_PREFIX name) (\<lambda>s.
     Option.bind (strip_suffix BUCKET_NEW_SUFFIX s) parse_hex_byte)"

definition is_temporary_file_name :: "string \<Rightarrow> bool" where
  "is_temporary_file_name name =
     (case strip_suffix TEMPORARY_SUFFIX name of
        None \<Rightarrow> False
      | Some target \<Rightarrow>
          let bucket = (case strip_suffix BUCKET_NEW_SUFFIX target of Some t \<Rightarrow> t | None \<Rightarrow> target)
          in target = MARKER_FILENAME \<or> target = LEVEL_PENDING_FILENAME \<or>
             Option.bind (strip_prefix BUCKET_FILENAME_PREFIX bucket) parse_hex_byte \<noteq> None)"

section \<open>Level markers\<close>

definition MARKER_MAGIC :: u32 where
  "MARKER_MAGIC = le_word [0x4C, 0x56, 0x4E, 0x4F]"

definition MARKER_VERSION :: u32 where
  "MARKER_VERSION = 1"

definition level_header :: "nat \<Rightarrow> bytes" where
  "level_header level =
     le_bytes 4 MARKER_MAGIC @ le_bytes 4 MARKER_VERSION @ le_bytes 4 (word_of_nat level :: u32) @ le_bytes 4 (0 :: u32)"

definition parse_level_header :: "bytes \<Rightarrow> nat result" where
  "parse_level_header bs =
     (if length bs < 16 then Inl (Internal ''level header file is too short'')
      else if (le_word (take 4 bs) :: u32) \<noteq> MARKER_MAGIC then Inl (Internal ''level header file has invalid magic'')
      else if (le_word (take 4 (drop 4 bs)) :: u32) \<noteq> MARKER_VERSION
      then Inl (Internal ''level header file has unsupported version'')
      else Inr (unat (le_word (take 4 (drop 8 bs)) :: u32)))"

definition read_level_header_file :: "string \<Rightarrow> nat option dir_op" where
  "read_level_header_file name =
     bind_op (dir_query ''Failed to read level header file'' (\<lambda>d. fmlookup (gd_files d) name)) (\<lambda>content d.
       case content of
         None \<Rightarrow> (Inr None, d)
       | Some bs \<Rightarrow> (bind_result (parse_level_header bs) (\<lambda>level. Inr (Some level)), d))"

definition write_level_header_file :: "string \<Rightarrow> nat \<Rightarrow> unit dir_op" where
  "write_level_header_file name level = dir_write ''Failed to write level header file'' name (level_header level)"

definition read_level_marker :: "nat option dir_op" where
  "read_level_marker = read_level_header_file MARKER_FILENAME"

definition write_level_marker :: "nat \<Rightarrow> unit dir_op" where
  "write_level_marker = write_level_header_file MARKER_FILENAME"

definition read_level_pending :: "nat option dir_op" where
  "read_level_pending = read_level_header_file LEVEL_PENDING_FILENAME"

definition write_level_pending :: "nat \<Rightarrow> unit dir_op" where
  "write_level_pending = write_level_header_file LEVEL_PENDING_FILENAME"

definition delete_level_pending :: "unit dir_op" where
  "delete_level_pending = dir_effect ''Failed to delete level.pending'' (drop_file LEVEL_PENDING_FILENAME)"

datatype group_level = Marked nat | PreFanOut | UnwrittenGroup

definition unwritten_group_level :: "bool \<Rightarrow> nat \<Rightarrow> nat" where
  "unwritten_group_level fan_out_aware initial_fan_out_level =
     (if fan_out_aware then initial_fan_out_level else FAN_OUT_LEVEL_MAX)"

definition group_has_buckets :: "bool dir_op" where
  "group_has_buckets = dir_query ''Failed to list group directory'' (\<lambda>d. list_ex is_bucket_file_name (dir_names d))"

definition read_group_level :: "group_level dir_op" where
  "read_group_level =
     bind_op read_level_marker (\<lambda>marker.
       case marker of
         Some level \<Rightarrow> return_op (Marked level)
       | None \<Rightarrow> bind_op group_has_buckets (\<lambda>has. return_op (if has then PreFanOut else UnwrittenGroup)))"

section \<open>Stale files and recovery\<close>

text \<open>One file of the listing: kept, or removed, with the failure of a temporary file ignored.\<close>

definition remove_stale_file :: "nat list \<Rightarrow> string \<Rightarrow> unit dir_op" where
  "remove_stale_file written name =
     (let removal = dir_effect ''Failed to remove stale file'' (drop_file name)
      in case new_file_bucket name of
           Some i \<Rightarrow> if i \<in> set written then return_op () else removal
         | None \<Rightarrow> if is_temporary_file_name name then ignore_op removal else return_op ())"

primrec remove_stale_each :: "nat list \<Rightarrow> string list \<Rightarrow> unit dir_op" where
  "remove_stale_each written [] = return_op ()"
| "remove_stale_each written (name # names) =
     bind_op (remove_stale_file written name) (\<lambda>_. remove_stale_each written names)"

definition remove_stale_files :: "nat list \<Rightarrow> unit dir_op" where
  "remove_stale_files written =
     bind_op (dir_query ''Failed to list group directory'' dir_names) (remove_stale_each written)"

definition rename_new :: "nat \<Rightarrow> unit dir_op" where
  "rename_new i =
     dir_effect ''Failed to rename .new bucket file during fan-out commit'' (move_file (bucket_new_path i) (bucket_path i))"

text \<open>The renames of a recovery: a missing file is skipped, any other failure ends it.\<close>

primrec recover_renames :: "nat list \<Rightarrow> unit dir_op" where
  "recover_renames [] = return_op ()"
| "recover_renames (i # is) = bind_op (rename_new i) (\<lambda>_. recover_renames is)"

definition recover_level_transition :: "nat option dir_op" where
  "recover_level_transition =
     bind_op read_level_pending (\<lambda>pending.
       case pending of
         None \<Rightarrow> return_op None
       | Some target \<Rightarrow>
           bind_op (recover_renames [0..<target]) (\<lambda>_.
           bind_op (write_level_marker target) (\<lambda>_.
           bind_op delete_level_pending (\<lambda>_. return_op (Some target)))))"

section \<open>Names and markers read back\<close>

lemma hex_digit_value_HEX: "n < 16 \<Longrightarrow> hex_digit_value (HEX ! n) = Some n"
proof -
  assume "n < 16"
  then have "n \<in> set [0..<16]" by simp
  moreover have "list_all (\<lambda>n. hex_digit_value (HEX ! n) = Some n) [0..<16]" by code_simp
  ultimately show ?thesis by (simp add: list_all_iff)
qed

lemma hex_digit_value_Some: "hex_digit_value c = Some n \<Longrightarrow> n < 16 \<and> c = HEX ! n"
proof -
  assume c: "hex_digit_value c = Some n"
  then have n: "n < 16" and e: "(of_char c :: nat) = (if n < 10 then 48 + n else 87 + n)"
    by (auto simp: hex_digit_value_def Let_def split: if_splits)
  have "n \<in> set [0..<16]" using n by simp
  moreover have "list_all (\<lambda>n. HEX ! n = char_of (if n < 10 then 48 + n else 87 + n :: nat)) [0..<16]" by code_simp
  ultimately have "HEX ! n = char_of (of_char c :: nat)" by (simp add: list_all_iff e)
  with n show ?thesis by simp
qed

lemma parse_write_hex_byte [simp]: "parse_hex_byte (write_hex_byte n) = Some (n mod 256)"
  by (simp add: write_hex_byte_def Let_def hex_digit_value_HEX)

lemma parse_hex_byte_Some: "parse_hex_byte s = Some n \<Longrightarrow> n < 256 \<and> s = write_hex_byte n"
  by (cases s rule: parse_hex_byte.cases)
     (auto simp: write_hex_byte_def Let_def bind_eq_Some_conv dest!: hex_digit_value_Some)

lemma length_write_hex_byte [simp]: "length (write_hex_byte n) = 2"
  by (simp add: write_hex_byte_def Let_def)

lemma write_hex_byte_eq: "write_hex_byte i = write_hex_byte j \<longleftrightarrow> i mod 256 = j mod 256"
  by (metis option.inject parse_write_hex_byte write_hex_byte_def)

lemmas name_defs = bucket_path_def bucket_new_path_def temporary_path_def MARKER_FILENAME_def LEVEL_PENDING_FILENAME_def
  BUCKET_FILENAME_PREFIX_def BUCKET_NEW_SUFFIX_def TEMPORARY_SUFFIX_def

lemma length_names [simp]:
  "length (bucket_path i) = 8" "length (bucket_new_path i) = 12" "length MARKER_FILENAME = 5"
  "length LEVEL_PENDING_FILENAME = 13" "length (temporary_path n) = length n + 4"
  by (simp_all add: name_defs)

lemma bucket_paths_eq [simp]:
  "i < 256 \<Longrightarrow> j < 256 \<Longrightarrow> bucket_path i = bucket_path j \<longleftrightarrow> i = j"
  "i < 256 \<Longrightarrow> j < 256 \<Longrightarrow> bucket_new_path i = bucket_new_path j \<longleftrightarrow> i = j"
  by (simp_all add: name_defs write_hex_byte_eq)

lemma names_differ [simp]:
  "bucket_path i \<noteq> bucket_new_path j" "bucket_new_path j \<noteq> bucket_path i"
  "bucket_path i \<noteq> MARKER_FILENAME" "MARKER_FILENAME \<noteq> bucket_path i"
  "bucket_new_path i \<noteq> MARKER_FILENAME" "MARKER_FILENAME \<noteq> bucket_new_path i"
  "bucket_path i \<noteq> LEVEL_PENDING_FILENAME" "LEVEL_PENDING_FILENAME \<noteq> bucket_path i"
  "bucket_new_path i \<noteq> LEVEL_PENDING_FILENAME" "LEVEL_PENDING_FILENAME \<noteq> bucket_new_path i"
  "MARKER_FILENAME \<noteq> LEVEL_PENDING_FILENAME" "LEVEL_PENDING_FILENAME \<noteq> MARKER_FILENAME"
  by (auto dest: arg_cong [of _ _ length])

text \<open>A temporary file is never one of the files that are read.\<close>

definition live_name :: "string \<Rightarrow> bool" where
  "live_name name \<longleftrightarrow> name = MARKER_FILENAME \<or> name = LEVEL_PENDING_FILENAME \<or>
     (\<exists>i. name = bucket_path i \<or> name = bucket_new_path i)"

lemma live_names [simp]:
  "live_name MARKER_FILENAME" "live_name LEVEL_PENDING_FILENAME" "live_name (bucket_path i)" "live_name (bucket_new_path i)"
  by (auto simp: live_name_def)

lemma HEX_not_p: "n < 16 \<Longrightarrow> HEX ! n \<noteq> CHR ''p''"
  using hex_digit_value_HEX [of n] by (auto simp: hex_digit_value_def)

lemma live_name_last: "live_name name \<Longrightarrow> last name \<noteq> CHR ''p''"
  by (auto simp: live_name_def name_defs write_hex_byte_def Let_def HEX_not_p)

lemma temporary_not_live: "\<not> live_name (temporary_path name)"
  using live_name_last [of "temporary_path name"] by (auto simp: temporary_path_def TEMPORARY_SUFFIX_def)

lemma temporary_differs [simp]: "live_name x \<Longrightarrow> x \<noteq> temporary_path y" "live_name x \<Longrightarrow> temporary_path y \<noteq> x"
  using temporary_not_live by auto

lemma parse_level_header [simp]: "level < 2 ^ 32 \<Longrightarrow> parse_level_header (level_header level) = Inr level"
  by (simp add: parse_level_header_def level_header_def unat_word_of_nat)

section \<open>Levels split\<close>

lemma ladder_cases: "n \<in> set LEVEL_LADDER \<longleftrightarrow> n = 1 \<or> n = 32 \<or> n = 64 \<or> n = 128 \<or> n = 256"
  by (auto simp: LEVEL_LADDER_def)

lemma trailing_zeros_ladder:
  "trailing_zeros 8 = 3" "trailing_zeros 4 = 2" "trailing_zeros 2 = 1" "trailing_zeros 1 = 0"
  by (simp_all add: trailing_zeros.simps)

lemma bucket_index_for_eq:
  "n \<in> set LEVEL_LADDER \<Longrightarrow> bucket_index_for key n = unat (hash_as_bytes key ! 1) div (256 div n)"
proof -
  have "unat (b :: 8 word) < 256" for b using unsigned_less [of b] by simp
  then show "n \<in> set LEVEL_LADDER \<Longrightarrow> ?thesis"
    using trailing_zeros_ladder by (auto simp: ladder_cases bucket_index_for_def)
qed

lemma bucket_index_for_less: "n \<in> set LEVEL_LADDER \<Longrightarrow> bucket_index_for key n < n"
proof -
  have "unat (b :: 8 word) < 256" for b using unsigned_less [of b] by simp
  then show "n \<in> set LEVEL_LADDER \<Longrightarrow> ?thesis"
    by (auto simp: bucket_index_for_eq) (auto simp: ladder_cases less_mult_imp_div_less)
qed

text \<open>A higher level splits each bucket: the new bucket of a key determines its old one.\<close>

lemma bucket_index_for_split:
  assumes "n \<in> set LEVEL_LADDER" "m \<in> set LEVEL_LADDER" "n \<le> m"
  shows "bucket_index_for key n = bucket_index_for key m div (m div n)"
  using assms by (simp add: bucket_index_for_eq div_mult2_eq [symmetric]) (auto simp: ladder_cases)

lemma level_for_ladder: "level_for n b t \<in> set LEVEL_LADDER"
proof -
  have "find P LEVEL_LADDER = Some m \<Longrightarrow> m \<in> set LEVEL_LADDER" for P m
    by (metis find_Some_iff nth_mem)
  moreover have "256 \<in> set LEVEL_LADDER" by (simp add: LEVEL_LADDER_def)
  ultimately show ?thesis by (auto simp: level_for_def Let_def split: option.splits)
qed

text \<open>The level chosen is the lowest at which the largest bucket is expected to fit.\<close>

lemma level_for_least:
  assumes t: "0 < t" and small: "n * b < U64_RANGE"
  shows "level_for n b t = 256 \<or> n * b \<le> level_for n b t * t"
    and "m \<in> set LEVEL_LADDER \<Longrightarrow> m < level_for n b t \<Longrightarrow> m * t < n * b"
proof -
  let ?r = "(n * b + t - 1) div t"
  have req: "?r \<le> m \<longleftrightarrow> n * b \<le> m * t" for m
  proof -
    have "?r \<le> m \<longleftrightarrow> n * b + t - 1 < (m + 1) * t" using t by (metis Suc_eq_plus1 div_less_iff_less_mult less_Suc_eq_le)
    also have "\<dots> \<longleftrightarrow> n * b \<le> m * t" using t by auto
    finally show ?thesis .
  qed
  have lf: "level_for n b t = (case find (\<lambda>m. n * b \<le> m * t) LEVEL_LADDER of Some m \<Rightarrow> m | None \<Rightarrow> 256)"
  proof -
    have "min (n * b) (U64_RANGE - 1) = n * b" using small by simp
    moreover have "(\<le>) ?r = (\<lambda>m. n * b \<le> m * t)" by (rule ext) (rule req)
    ultimately show ?thesis unfolding level_for_def Let_def by (simp only:)
  qed
  show "level_for n b t = 256 \<or> n * b \<le> level_for n b t * t"
    unfolding lf by (auto split: option.splits simp: find_Some_iff)
  show "m * t < n * b" if "m \<in> set LEVEL_LADDER" "m < level_for n b t"
    using that unfolding lf by (auto simp: LEVEL_LADDER_def split: if_splits)
qed

end
