(* ===== verification/Bucket_File.thy ===== *)
theory Bucket_File
  imports Store_Index Fan_Out
begin

text \<open>
  The file a bucket is written to (\<open>lore-storage/src/local/immutable_store.rs\<close>): its header, the
  sorted index, the entries, and the packfile sizes that follow them. The reader accepts the layouts
  of earlier versions, refuses later ones, and drops a file it finds corrupt.
\<close>

section \<open>Arrays of fixed-size values\<close>

definition write_array :: "('a \<Rightarrow> bytes) \<Rightarrow> 'a list \<Rightarrow> bytes" where
  "write_array encode xs = concat (map encode xs)"

text \<open>\<open>GrowVec::read_from\<close>: the values, and the bytes after them, or none where there are too few.\<close>

definition read_array :: "(bytes \<Rightarrow> 'a) \<Rightarrow> nat \<Rightarrow> nat \<Rightarrow> bytes \<Rightarrow> ('a list \<times> bytes) option" where
  "read_array decode width count bs =
     (if width * count \<le> length bs
      then Some (map (\<lambda>i. decode (slice_of (width * i) (width * i + width) bs)) [0..<count], drop (width * count) bs)
      else None)"

text \<open>A value laid out in a fixed number of bytes, and what holds of arrays of it.\<close>

locale layout =
  fixes encode :: "'a \<Rightarrow> bytes" and decode :: "bytes \<Rightarrow> 'a" and width :: nat and fits :: "'a \<Rightarrow> bool"
  assumes length_encode: "length (encode x) = width"
    and decode_encode: "fits x \<Longrightarrow> decode (encode x) = x"
begin

lemma length_write_array: "length (write_array encode xs) = width * length xs"
  by (induction xs) (simp_all add: write_array_def length_encode)

lemma slice_write_array:
  "i < length xs \<Longrightarrow> slice_of (width * i) (width * i + width) (write_array encode xs @ rest) = encode (xs ! i)"
proof (induction xs arbitrary: i)
  case (Cons x xs)
  show ?case
  proof (cases i)
    case 0
    then show ?thesis by (simp add: write_array_def slice_of_def length_encode)
  next
    case (Suc j)
    with Cons show ?thesis by (simp add: write_array_def slice_of_def length_encode)
  qed
qed simp

lemma read_write_array:
  assumes "list_all fits xs"
  shows "read_array decode width (length xs) (write_array encode xs @ rest) = Some (xs, rest)"
proof -
  have "map (\<lambda>i. decode (slice_of (width * i) (width * i + width) (write_array encode xs @ rest))) [0..<length xs] = xs"
    by (rule nth_equalityI) (use assms in \<open>simp_all add: slice_write_array decode_encode list_all_length\<close>)
  then show ?thesis by (simp add: read_array_def length_write_array)
qed

end

section \<open>Layouts\<close>

definition immutable_data_as_bytes :: "immutable_data \<Rightarrow> bytes" where
  "immutable_data_as_bytes d =
     le_bytes 4 (d_flags d) @ le_bytes 4 (d_size_payload d) @ le_bytes 8 (d_size_content d) @
     le_bytes 4 (pack_offset d) @ le_bytes 4 (pack_file d) @ le_bytes 8 (last_access d)"

definition immutable_data_of_array :: "bytes \<Rightarrow> immutable_data" where
  "immutable_data_of_array bs = \<lparr>d_flags = le_word (take 4 bs), d_size_payload = le_word (take 4 (drop 4 bs)),
     d_size_content = le_word (take 8 (drop 8 bs)), pack_offset = le_word (take 4 (drop 16 bs)),
     pack_file = le_word (take 4 (drop 20 bs)), last_access = le_word (take 8 (drop 24 bs))\<rparr>"

definition entry_as_bytes :: "immutable_store_entry \<Rightarrow> bytes" where
  "entry_as_bytes e = address_as_bytes (e_address e) @ partition_as_bytes (e_partition e) @ immutable_data_as_bytes (e_data e)"

definition entry_of_array :: "bytes \<Rightarrow> immutable_store_entry" where
  "entry_of_array bs = \<lparr>e_address = address_from_slice (take 48 bs), e_partition = partition_of_array (take 16 (drop 48 bs)),
     e_data = immutable_data_of_array (drop 64 bs)\<rparr>"

text \<open>An entry before it held its last access, as the entry it is converted to.\<close>

definition entry_before_last_access_of_array :: "bytes \<Rightarrow> immutable_store_entry" where
  "entry_before_last_access_of_array bs = entry_of_array (bs @ replicate 8 0)"

definition packfile_size_as_bytes :: "packfile_size \<Rightarrow> bytes" where
  "packfile_size_as_bytes z = le_bytes 4 (word_of_nat (psz_id z) :: u32) @ le_bytes 4 (psz_size z)"

definition packfile_size_of_array :: "bytes \<Rightarrow> packfile_size" where
  "packfile_size_of_array bs = \<lparr>psz_id = unat (le_word (take 4 bs) :: u32), psz_size = le_word (take 4 (drop 4 bs))\<rparr>"

record immutable_store_header =
  h_version :: u32
  h_packfile_sizes :: u32
  h_count :: u32
  h_first_packfile_size :: u32

definition header_as_bytes :: "immutable_store_header \<Rightarrow> bytes" where
  "header_as_bytes h = le_bytes 4 (h_version h) @ le_bytes 4 (h_packfile_sizes h) @ le_bytes 4 (h_count h) @
     le_bytes 4 (h_first_packfile_size h)"

definition header_of_array :: "bytes \<Rightarrow> immutable_store_header" where
  "header_of_array bs = \<lparr>h_version = le_word (take 4 bs), h_packfile_sizes = le_word (take 4 (drop 4 bs)),
     h_count = le_word (take 4 (drop 8 bs)), h_first_packfile_size = le_word (take 4 (drop 12 bs))\<rparr>"

section \<open>Recorded packfile sizes\<close>

definition SIZES_RECORDED :: u32 where
  "SIZES_RECORDED = push_bit 31 1"

definition SIZES_COUNT_SHIFT :: nat where
  "SIZES_COUNT_SHIFT = 24"

definition SIZES_ID_MASK :: u32 where
  "SIZES_ID_MASK = push_bit 24 1 - 1"

definition TRAILER_SIZES :: nat where
  "TRAILER_SIZES = 12"

definition record_sizes :: "packfile_size list \<Rightarrow> immutable_store_header \<Rightarrow> immutable_store_header" where
  "record_sizes sizes h =
     (let h = h \<lparr>h_packfile_sizes := SIZES_RECORDED OR push_bit SIZES_COUNT_SHIFT (word_of_nat (length sizes))\<rparr>
      in case sizes of
           [] \<Rightarrow> h
         | first # _ \<Rightarrow> h \<lparr>h_packfile_sizes := h_packfile_sizes h OR word_of_nat (psz_id first),
             h_first_packfile_size := psz_size first\<rparr>)"

datatype recorded_sizes = Unrecorded | Recorded "packfile_size option" bytes | Torn

definition recorded_sizes_of :: "immutable_store_header \<Rightarrow> bytes \<Rightarrow> recorded_sizes" where
  "recorded_sizes_of h trailer =
     (if h_packfile_sizes h AND SIZES_RECORDED = 0 then Unrecorded
      else
        let count = unat (drop_bit SIZES_COUNT_SHIFT (h_packfile_sizes h AND NOT SIZES_RECORDED))
        in if (count - 1) * 8 \<noteq> length trailer then Torn
           else Recorded
             (if count > 0 then Some \<lparr>psz_id = unat (h_packfile_sizes h AND SIZES_ID_MASK), psz_size = h_first_packfile_size h\<rparr>
              else None) trailer)"

text \<open>The sizes a file records, the first and the rest, as their reader takes them.\<close>

definition recorded_list :: "packfile_size option \<Rightarrow> bytes \<Rightarrow> packfile_size list" where
  "recorded_list first rest =
     (case first of None \<Rightarrow> [] | Some z \<Rightarrow> [z]) @
     (case read_array packfile_size_of_array 8 (length rest div 8) rest of None \<Rightarrow> [] | Some (zs, _) \<Rightarrow> zs)"

definition recordable_sizes :: "packfile_size list option \<Rightarrow> packfile_size list option" where
  "recordable_sizes unsettled =
     (case unsettled of
        None \<Rightarrow> None
      | Some sizes \<Rightarrow> if (case sizes of [] \<Rightarrow> True | first # _ \<Rightarrow> psz_id first \<le> unat SIZES_ID_MASK) then Some sizes else None)"

section \<open>Reading a bucket file\<close>

definition V_Initial :: u32 where "V_Initial = 1"
definition V_LastAccessTimestamps :: u32 where "V_LastAccessTimestamps = 2"
definition V_PackfilePerGroup :: u32 where "V_PackfilePerGroup = 3"
definition V_LastAccessInEntry :: u32 where "V_LastAccessInEntry = 4"
definition V_LazyFanOut :: u32 where "V_LazyFanOut = 5"

definition BUCKET_HEAD_READ :: nat where
  "BUCKET_HEAD_READ = 256 * 1024"

record bucket_file =
  bf_sorted_index :: "u32 list"
  bf_entry :: "immutable_store_entry list"
  bf_upgrade_packfile :: bool
  bf_mark_dirty :: bool
  bf_sizes :: recorded_sizes

definition empty_bucket_file :: bucket_file where
  "empty_bucket_file = \<lparr>bf_sorted_index = [], bf_entry = [], bf_upgrade_packfile = False, bf_mark_dirty = False,
     bf_sizes = Unrecorded\<rparr>"

datatype deserialize_file_error = FutureVersion u32 | Corrupt | Unreadable

text \<open>The bytes of an index slot and an entry, by version.\<close>

definition per_entry_size :: "u32 \<Rightarrow> nat option" where
  "per_entry_size v =
     (if v = V_LazyFanOut \<or> v = V_LastAccessInEntry then Some (4 + 96)
      else if v = V_PackfilePerGroup \<or> v = V_LastAccessTimestamps then Some (4 + 88 + 4)
      else if v = V_Initial then Some (4 + 96)
      else None)"

definition read_index_and_entries ::
  "(bytes \<Rightarrow> immutable_store_entry) \<Rightarrow> nat \<Rightarrow> nat \<Rightarrow> bytes \<Rightarrow> (u32 list \<times> immutable_store_entry list \<times> bytes) option" where
  "read_index_and_entries decode width count bs =
     Option.bind (read_array le_word 4 count bs) (\<lambda>(index, bs').
     Option.bind (read_array decode width count bs') (\<lambda>(entries, rest). Some (index, entries, rest)))"

text \<open>A read of the file past the head that came with its open.\<close>

definition read_past_head :: "group_dir \<Rightarrow> bool \<times> group_dir" where
  "read_past_head d = (case next_io d of (a, d') \<Rightarrow> (a = Works, d'))"

definition deserialize_file_content ::
  "bytes \<Rightarrow> group_dir \<Rightarrow> (deserialize_file_error + bucket_file) \<times> group_dir" where
  "deserialize_file_content bs d =
     (let file_size = length bs;
          in_head = (file_size \<le> BUCKET_HEAD_READ)
      in if length (take BUCKET_HEAD_READ bs) < 16 then (Inl Corrupt, d)
         else
           let header = header_of_array (take 16 bs)
           in if V_LazyFanOut < h_version header \<and> h_version header < 0xFFFF then (Inl (FutureVersion (h_version header)), d)
              else case per_entry_size (h_version header) of
                None \<Rightarrow> (Inl Corrupt, d)
              | Some per_entry \<Rightarrow>
                  let expected_count = (file_size - 16) div per_entry;
                      upgrade = (h_version header < V_PackfilePerGroup)
                  in if expected_count = 0 then (Inr empty_bucket_file, d)
                     else if h_count header \<noteq> word_of_nat expected_count then (Inl Corrupt, d)
                     else if h_version header \<ge> V_LastAccessInEntry then
                       case (if in_head then (True, d) else read_past_head d) of
                         (False, d') \<Rightarrow> (Inl Unreadable, d')
                       | (True, d') \<Rightarrow>
                          (case read_index_and_entries entry_of_array 96 expected_count (drop 16 bs) of
                             None \<Rightarrow> (Inl Corrupt, d')
                           | Some (index, entries, trailer) \<Rightarrow>
                               let more = (h_packfile_sizes header AND SIZES_RECORDED \<noteq> 0 \<and> trailer \<noteq> [])
                               in case (if in_head \<or> \<not> more then (True, d') else read_past_head d') of
                                    (False, d'') \<Rightarrow> (Inl Unreadable, d'')
                                  | (True, d'') \<Rightarrow>
                                      (Inr \<lparr>bf_sorted_index = index, bf_entry = entries, bf_upgrade_packfile = upgrade,
                                         bf_mark_dirty = False,
                                         bf_sizes = recorded_sizes_of header (if in_head \<or> more then trailer else [])\<rparr>, d''))
                     else
                       case (if in_head then (True, d) else read_past_head d) of
                         (False, d') \<Rightarrow> (Inl Unreadable, d')
                       | (True, d') \<Rightarrow>
                          (case read_index_and_entries entry_before_last_access_of_array 88 expected_count (drop 16 bs) of
                             None \<Rightarrow> (Inl Corrupt, d')
                           | Some (index, entries, _) \<Rightarrow>
                               (Inr \<lparr>bf_sorted_index = index, bf_entry = entries, bf_upgrade_packfile = upgrade,
                                  bf_mark_dirty = True, bf_sizes = Unrecorded\<rparr>, d')))"

definition recover_corrupt_bucket :: "nat \<Rightarrow> bucket_file dir_op" where
  "recover_corrupt_bucket i =
     bind_op (dir_effect ''Failed to remove corrupt storage bucket'' (drop_file (bucket_path i)))
       (\<lambda>_. return_op empty_bucket_file)"

definition deserialize_files :: "nat \<Rightarrow> bucket_file dir_op" where
  "deserialize_files i =
     bind_op (dir_query ''Failed to deserialize storage bucket'' (\<lambda>d. fmlookup (gd_files d) (bucket_path i))) (\<lambda>content d.
       case content of
         None \<Rightarrow> (Inr empty_bucket_file, d)
       | Some bs \<Rightarrow>
           (case deserialize_file_content bs d of
              (Inr file, d') \<Rightarrow> (Inr file, d')
            | (Inl (FutureVersion _), d') \<Rightarrow> (Inl (Internal ''Failed to deserialize storage bucket''), d')
            | (Inl Unreadable, d') \<Rightarrow> (Inl (Internal ''Failed to read storage bucket''), d')
            | (Inl Corrupt, d') \<Rightarrow> recover_corrupt_bucket i d'))"

section \<open>Writing a bucket file\<close>

definition new_header :: "u32 \<Rightarrow> nat \<Rightarrow> immutable_store_header" where
  "new_header version count = \<lparr>h_version = version, h_packfile_sizes = 0, h_count = word_of_nat count, h_first_packfile_size = 0\<rparr>"

text \<open>\<open>ImmutableBucketWrite::copy\<close> and \<open>finish\<close>: the contents of the file.\<close>

definition bucket_write :: "u32 \<Rightarrow> immutable_store_bucket \<Rightarrow> packfile_size list \<Rightarrow> bytes" where
  "bucket_write version b sizes =
     header_as_bytes (record_sizes sizes (new_header version (length (entry b)))) @
     write_array (le_bytes 4) (sorted_index b) @ write_array entry_as_bytes (entry b) @
     write_array packfile_size_as_bytes (drop 1 sizes)"

section \<open>Files read back\<close>

lemma data_of_array [simp]: "immutable_data_of_array (immutable_data_as_bytes d) = d"
  by (simp add: immutable_data_of_array_def immutable_data_as_bytes_def)

lemma length_data_as_bytes [simp]: "length (immutable_data_as_bytes d) = 32"
  by (simp add: immutable_data_as_bytes_def)

interpretation index_array: layout "le_bytes 4 :: u32 \<Rightarrow> bytes" le_word 4 "\<lambda>_. True"
  by unfold_locales simp_all

interpretation entry_array: layout entry_as_bytes entry_of_array 96 "\<lambda>_. True"
  by unfold_locales (simp_all add: entry_as_bytes_def entry_of_array_def)

interpretation size_array: layout packfile_size_as_bytes packfile_size_of_array 8 "\<lambda>z. psz_id z < 2 ^ 32"
  by unfold_locales (simp_all add: packfile_size_as_bytes_def packfile_size_of_array_def unat_word_of_nat)

lemma header_of_array_as_bytes [simp]: "header_of_array (header_as_bytes h) = h"
  by (simp add: header_of_array_def header_as_bytes_def)

lemma length_header_as_bytes [simp]: "length (header_as_bytes h) = 16"
  by (simp add: header_as_bytes_def)

text \<open>The word of the header that says what sizes are recorded.\<close>

lemma sizes_word:
  fixes c i :: u32
  assumes "take_bit 7 c = c" "take_bit 24 i = i"
  defines "w \<equiv> SIZES_RECORDED OR push_bit SIZES_COUNT_SHIFT c OR i"
  shows "w AND SIZES_RECORDED \<noteq> 0" "drop_bit SIZES_COUNT_SHIFT (w AND NOT SIZES_RECORDED) = c" "w AND SIZES_ID_MASK = i"
proof -
  have c: "bit c n \<Longrightarrow> n < 7" for n using assms(1) by (metis bit_take_bit_iff)
  have i: "bit i n \<Longrightarrow> n < 24" for n using assms(2) by (metis bit_take_bit_iff)
  have m: "SIZES_ID_MASK = mask 24" by (simp add: SIZES_ID_MASK_def mask_eq_exp_minus_1)
  have r: "bit SIZES_RECORDED n \<longleftrightarrow> n = 31" for n
    unfolding SIZES_RECORDED_def bit_push_bit_iff bit_1_iff by (auto intro: exI [of _ 31])
  have "bit (w AND SIZES_RECORDED) 31" by (simp add: w_def r bit_simps)
  then show "w AND SIZES_RECORDED \<noteq> 0" by (metis bit_0_eq bot_apply bot_bool_def)
  show "drop_bit SIZES_COUNT_SHIFT (w AND NOT SIZES_RECORDED) = c"
    by (rule bit_word_eqI)
       (auto simp: w_def r SIZES_COUNT_SHIFT_def bit_drop_bit_eq bit_and_iff bit_or_iff bit_not_iff bit_push_bit_iff
         dest: c i)
  show "w AND SIZES_ID_MASK = i"
    by (rule bit_word_eqI) (auto simp: w_def m r SIZES_COUNT_SHIFT_def bit_and_iff bit_or_iff bit_push_bit_iff bit_mask_iff dest: c i)
qed

text \<open>What may be recorded: as many sizes as there is room for, with ids of the width of their fields.\<close>

definition sizes_fit :: "packfile_size list \<Rightarrow> bool" where
  "sizes_fit sizes \<longleftrightarrow> length sizes \<le> 1 + TRAILER_SIZES \<and> list_all (\<lambda>z. psz_id z < 2 ^ 32) sizes \<and>
     (sizes \<noteq> [] \<longrightarrow> psz_id (hd sizes) < 2 ^ 24)"

lemma take_bit_of_small: "n < 2 ^ k \<Longrightarrow> take_bit k (word_of_nat n :: u32) = word_of_nat n"
  by (metis of_nat_take_bit take_bit_nat_eq_self)

lemma recorded_sizes_record:
  assumes "sizes_fit sizes"
  shows "recorded_sizes_of (record_sizes sizes h) trailer =
    (if (length sizes - 1) * 8 \<noteq> length trailer then Torn
     else Recorded (case sizes of [] \<Rightarrow> None | z # _ \<Rightarrow> Some z) trailer)"
proof -
  let ?c = "word_of_nat (length sizes) :: u32" and ?i = "(case sizes of [] \<Rightarrow> 0 | z # _ \<Rightarrow> word_of_nat (psz_id z)) :: u32"
  have c: "take_bit 7 ?c = ?c" "unat ?c = length sizes"
    using assms take_bit_of_small [of "length sizes" 7] by (auto simp: sizes_fit_def TRAILER_SIZES_def unat_word_of_nat)
  have i: "take_bit 24 ?i = ?i" using assms take_bit_of_small [of _ 24] by (cases sizes) (auto simp: sizes_fit_def)
  have w: "h_packfile_sizes (record_sizes sizes h) = SIZES_RECORDED OR push_bit SIZES_COUNT_SHIFT ?c OR ?i"
    by (cases sizes) (simp_all add: record_sizes_def Let_def or.assoc)
  have id: "z # zs = sizes \<Longrightarrow> unat (word_of_nat (psz_id z) :: u32) = psz_id z" for z zs
    using assms by (auto simp: sizes_fit_def unat_word_of_nat)
  have f: "z # zs = sizes \<Longrightarrow> h_first_packfile_size (record_sizes sizes h) = psz_size z" for z zs
    by (auto simp: record_sizes_def Let_def)
  note sw = sizes_word [OF c(1) i, folded w]
  show ?thesis
    unfolding recorded_sizes_of_def Let_def sw(2,3) if_not_P [OF sw(1)] c(2) using id f by (cases sizes) simp_all
qed

lemma recorded_list_read:
  assumes "sizes_fit sizes"
  shows "recorded_list (case sizes of [] \<Rightarrow> None | z # _ \<Rightarrow> Some z) (write_array packfile_size_as_bytes (drop 1 sizes)) = sizes"
proof -
  have "list_all (\<lambda>z. psz_id z < 2 ^ 32) (drop 1 sizes)"
    using assms by (auto simp: sizes_fit_def list_all_iff dest: in_set_dropD)
  from size_array.read_write_array [OF this, of "[]"] show ?thesis
    by (cases sizes) (simp_all add: recorded_list_def size_array.length_write_array)
qed

lemma record_sizes_fields [simp]:
  "h_version (record_sizes sizes h) = h_version h" "h_count (record_sizes sizes h) = h_count h"
  by (simp_all add: record_sizes_def Let_def split: list.splits)

definition bucket_body :: "immutable_store_bucket \<Rightarrow> bytes" where
  "bucket_body b = write_array (le_bytes 4) (sorted_index b) @ write_array entry_as_bytes (entry b)"

lemma read_bucket_body:
  assumes "length (sorted_index b) = length (entry b)"
  shows "read_index_and_entries entry_of_array 96 (length (entry b)) (bucket_body b @ rest) = Some (sorted_index b, entry b, rest)"
  using index_array.read_write_array [of "sorted_index b" "write_array entry_as_bytes (entry b) @ rest"]
    entry_array.read_write_array [of "entry b" rest] assms
  by (simp add: read_index_and_entries_def bucket_body_def list_all_iff)

lemma length_bucket_body:
  "length (sorted_index b) = length (entry b) \<Longrightarrow> length (bucket_body b) = 100 * length (entry b)"
  by (simp add: bucket_body_def index_array.length_write_array entry_array.length_write_array)

text \<open>A file that starts as one written does, whatever follows the entries, if anything does.\<close>

lemma deserialize_written:
  assumes b: "length (sorted_index b) = length (entry b)" "length (entry b) < 2 ^ 32" "entry b \<noteq> []"
    and v: "v = V_LazyFanOut \<or> v = V_LastAccessInEntry" and sizes: "sizes_fit sizes"
    and trailer: "length trailer < 100" and io: "gd_io d = []"
  defines "h \<equiv> record_sizes sizes (new_header v (length (entry b)))"
  shows "deserialize_file_content (header_as_bytes h @ bucket_body b @ trailer) d =
    (Inr \<lparr>bf_sorted_index = sorted_index b, bf_entry = entry b, bf_upgrade_packfile = False, bf_mark_dirty = False,
       bf_sizes = recorded_sizes_of h trailer\<rparr>, d)" (is "deserialize_file_content ?bs d = _")
proof -
  have len: "length ?bs = 16 + 100 * length (entry b) + length trailer" by (simp add: length_bucket_body b(1))
  have head: "\<not> length (take BUCKET_HEAD_READ ?bs) < 16" using len by (simp add: BUCKET_HEAD_READ_def)
  have h: "header_of_array (take 16 ?bs) = h" by simp
  have ver: "h_version h = v" "h_count h = word_of_nat (length (entry b))" by (simp_all add: h_def new_header_def)
  have cnt: "(length ?bs - 16) div 100 = length (entry b)" unfolding len using trailer by simp
  have vs: "\<not> (V_LazyFanOut < v \<and> v < 0xFFFF)" "per_entry_size v = Some 100" "\<not> v < V_PackfilePerGroup" "V_LastAccessInEntry \<le> v"
    using v by (auto simp: per_entry_size_def V_LazyFanOut_def V_LastAccessInEntry_def V_PackfilePerGroup_def)
  have rd: "read_index_and_entries entry_of_array 96 (length (entry b)) (drop 16 ?bs) = Some (sorted_index b, entry b, trailer)"
    using read_bucket_body [OF b(1)] by simp
  have past: "read_past_head d = (True, d)" by (simp add: read_past_head_def next_io_def io)
  have more: "h_packfile_sizes h AND SIZES_RECORDED \<noteq> 0"
    using recorded_sizes_record [OF sizes, of "new_header v (length (entry b))" trailer]
    by (auto simp: recorded_sizes_of_def h_def split: if_splits)
  show ?thesis
    unfolding deserialize_file_content_def Let_def h ver vs(2) option.case cnt rd if_not_P [OF head] if_not_P [OF vs(1)]
    using b(3) vs(3,4) more by (simp add: past)
qed

lemma bucket_write_eq:
  "bucket_write v b sizes = header_as_bytes (record_sizes sizes (new_header v (length (entry b)))) @ bucket_body b @
     write_array packfile_size_as_bytes (drop 1 sizes)"
  by (simp add: bucket_write_def bucket_body_def)

lemma length_trailer: "sizes_fit sizes \<Longrightarrow> length (write_array packfile_size_as_bytes (drop 1 sizes)) < 100"
  by (auto simp: size_array.length_write_array sizes_fit_def TRAILER_SIZES_def)


definition sample_entry :: "u64 \<Rightarrow> immutable_store_entry" where
  "sample_entry t = \<lparr>e_address = Address (Hash 9) (Context 1), e_partition = Partition 2,
     e_data = \<lparr>d_flags = 0, d_size_payload = 5, d_size_content = 5, pack_offset = 0, pack_file = 1, last_access = t\<rparr>\<rparr>"

definition sample_written :: immutable_store_bucket where
  "sample_written = empty_bucket \<lparr>entry := [sample_entry 3], sorted_index := [0]\<rparr>"

definition sample_sizes :: "packfile_size list" where
  "sample_sizes = [\<lparr>psz_id = 1, psz_size = 5\<rparr>, \<lparr>psz_id = 2, psz_size = 7\<rparr>]"

lemma sample_file:
  "length (sorted_index sample_written) = length (entry sample_written)" "length (entry sample_written) = 1"
  "entry sample_written \<noteq> []" "sizes_fit sample_sizes"
  by (simp_all add: sample_written_def sample_sizes_def sizes_fit_def TRAILER_SIZES_def)

text \<open>
  C31. A bucket file reads back. Whatever a bucket holds, and however many unsettled packfiles it
  records, reading the file written for it gives its index and entries in their order, asks for no upgrade
  and no rewrite, and gives the packfile sizes recorded unless the bucket was empty.
\<close>

theorem bucket_file_reads_back:
  assumes "length (sorted_index b) = length (entry b)" "length (entry b) < 2 ^ 32"
    "version = V_LazyFanOut \<or> version = V_LastAccessInEntry" "sizes_fit sizes" "gd_io d = []"
  shows "\<exists>sz. deserialize_file_content (bucket_write version b sizes) d =
      (Inr \<lparr>bf_sorted_index = sorted_index b, bf_entry = entry b, bf_upgrade_packfile = False, bf_mark_dirty = False,
         bf_sizes = sz\<rparr>, d) \<and>
    (entry b \<noteq> [] \<longrightarrow> (\<exists>first rest. sz = Recorded first rest \<and> recorded_list first rest = sizes))"
proof (cases "entry b = []")
  case False
  from deserialize_written [OF assms(1,2) this assms(3,4) length_trailer [OF assms(4)] assms(5)]
    recorded_sizes_record [OF assms(4)] recorded_list_read [OF assms(4)] assms(4)
  show ?thesis by (simp add: bucket_write_eq size_array.length_write_array)
next
  case True
  let ?bs = "bucket_write version b sizes"
  have len: "16 \<le> length ?bs" "(length ?bs - 16) div 100 = 0"
    using True assms(1) length_trailer [OF assms(4)] by (simp_all add: bucket_write_eq length_bucket_body)
  have v: "per_entry_size version = Some 100" "\<not> (V_LazyFanOut < version \<and> version < 0xFFFF)"
    using assms(3) by (auto simp: per_entry_size_def V_LazyFanOut_def V_LastAccessInEntry_def)
  have h: "h_version (header_of_array (take 16 ?bs)) = version" by (simp add: bucket_write_eq new_header_def)
  have head: "\<not> length (take BUCKET_HEAD_READ ?bs) < 16" using len(1) by (simp add: BUCKET_HEAD_READ_def)
  have "deserialize_file_content ?bs d = (Inr empty_bucket_file, d)"
    unfolding deserialize_file_content_def Let_def if_not_P [OF head] h if_not_P [OF v(2)] v(1) option.case len(2) by simp
  with True assms(1) show ?thesis by (simp add: empty_bucket_file_def)
qed

theorem bucket_file_reads_back_witness:
  "\<exists>sz first rest. deserialize_file_content (bucket_write V_LazyFanOut sample_written sample_sizes) \<lparr>gd_made = True, gd_files = fmempty, gd_io = []\<rparr> =
      (Inr \<lparr>bf_sorted_index = [0], bf_entry = [sample_entry 3], bf_upgrade_packfile = False, bf_mark_dirty = False,
         bf_sizes = sz\<rparr>, \<lparr>gd_made = True, gd_files = fmempty, gd_io = []\<rparr>) \<and>
    sz = Recorded first rest \<and> recorded_list first rest = sample_sizes"
  using bucket_file_reads_back [OF sample_file(1) _ _ sample_file(4), of V_LazyFanOut "\<lparr>gd_made = True, gd_files = fmempty, gd_io = []\<rparr>"]
    sample_file(2,3) by (auto simp: sample_written_def)





end
