(* ===== verification/Store_Group.thy ===== *)
theory Store_Group
  imports Bucket_File
begin

text \<open>
  A group of the local store (\<open>lore-storage/src/local/immutable_store.rs\<close>): its buckets, how they
  are read from and written to the group's directory, the change to a higher level, and the flush that
  commits one in two phases.

  The flags a group keeps beside its buckets are fields of the bucket, see \<open>Store_Index\<close>. A bucket
  that was never touched is the empty one. The locks that order the operations of a group are left
  out: each operation here is one that holds them.
\<close>

section \<open>State\<close>

record immutable_store_group =
  g_bucket :: "nat \<Rightarrow> immutable_store_bucket"
  bucket_count :: nat
  serialize_version :: u32
  fan_out_threshold :: nat
  committed_level :: nat
  pending_level :: nat
  packstore :: pack_store
  scheduled :: bool
  g_dir :: group_dir

type_synonym 'a group_op = "(immutable_store_group, 'a) op"

definition BUCKET_COUNT :: nat where
  "BUCKET_COUNT = 256"

definition on_dir :: "'a dir_op \<Rightarrow> 'a group_op" where
  "on_dir m g = (case m (g_dir g) of (r, d) \<Rightarrow> (r, g \<lparr>g_dir := d\<rparr>))"

definition on_pack :: "'a pack_op \<Rightarrow> 'a group_op" where
  "on_pack m g = (case m (packstore g) of (r, s) \<Rightarrow> (r, g \<lparr>packstore := s\<rparr>))"

definition set_bucket :: "nat \<Rightarrow> immutable_store_bucket \<Rightarrow> immutable_store_group \<Rightarrow> immutable_store_group" where
  "set_bucket i b g = g \<lparr>g_bucket := (g_bucket g)(i := b)\<rparr>"

definition build_group ::
  "nat \<Rightarrow> nat \<Rightarrow> u32 \<Rightarrow> nat \<Rightarrow> pack_store \<Rightarrow> group_dir \<Rightarrow> immutable_store_group" where
  "build_group count committed version threshold packs d = \<lparr>g_bucket = (\<lambda>_. empty_bucket), bucket_count = count,
     serialize_version = version, fan_out_threshold = threshold, committed_level = committed, pending_level = 0,
     packstore = packs, scheduled = False, g_dir = d\<rparr>"

text \<open>The levels a survey gives a group: its bucket count, and the count its marker records.\<close>

definition group_levels :: "nat \<Rightarrow> group_level \<Rightarrow> nat \<times> nat" where
  "group_levels unwritten_level level =
     (case level of Marked n \<Rightarrow> (n, n) | PreFanOut \<Rightarrow> (BUCKET_COUNT, 0) | UnwrittenGroup \<Rightarrow> (unwritten_level, 0))"

text \<open>The survey of one group: a pending change of level is rolled forward before the marker is read.\<close>

definition survey_group :: "group_level dir_op" where
  "survey_group d =
     (if \<not> gd_made d then (Inr UnwrittenGroup, d)
      else bind_op recover_level_transition (\<lambda>_. read_group_level) d)"

definition needs_flush :: "immutable_store_group \<Rightarrow> nat \<Rightarrow> bool" where
  "needs_flush g i \<longleftrightarrow> dirty (g_bucket g i) \<or> soft_dirty (g_bucket g i)"

definition reset_content :: "immutable_store_bucket \<Rightarrow> immutable_store_bucket" where
  "reset_content b = b \<lparr>entry := [], sorted_index := [], deserialized := False, upgrade_packfile := False\<rparr>"

definition invalidate :: "nat \<Rightarrow> nat \<Rightarrow> u32 \<Rightarrow> immutable_store_group \<Rightarrow> immutable_store_group" where
  "invalidate count committed version g = g \<lparr>
     g_bucket := (\<lambda>i. reset_content (g_bucket g i) \<lparr>dirty := False, soft_dirty := False\<rparr>), bucket_count := count,
     committed_level := committed, pending_level := 0, serialize_version := version, packstore := forget (packstore g)\<rparr>"

datatype pending_flush = FlushNothing | FlushStamps | FlushChanges

definition pending_flush_of :: "immutable_store_group \<Rightarrow> pending_flush" where
  "pending_flush_of g =
     (if list_ex (\<lambda>i. dirty (g_bucket g i)) [0..<BUCKET_COUNT] then FlushChanges
      else if list_ex (\<lambda>i. soft_dirty (g_bucket g i)) [0..<BUCKET_COUNT] then FlushStamps else FlushNothing)"

section \<open>Reading a bucket\<close>

text \<open>The location of a payload that lies past the end its packfile was opened with is cleared.\<close>

definition clear_lost :: "u32 list \<Rightarrow> immutable_store_entry \<Rightarrow> immutable_store_entry \<times> bool" where
  "clear_lost opened e =
     (let data = e_data e
      in if pack_file data = 0 then (e, False)
         else
           let index = unat (pack_file data) - 1;
               fin = unat (pack_offset data) + unat (d_size_payload data)
           in if fin > (if index < length opened then unat (opened ! index) else 0)
              then (e \<lparr>e_data := data \<lparr>pack_file := 0, pack_offset := 0, d_flags := d_flags data AND NOT PayloadStoredLocal\<rparr>\<rparr>, True)
              else (e, False))"

definition payloads_lost :: "recorded_sizes \<Rightarrow> bool group_op" where
  "payloads_lost sizes =
     (case sizes of
        Unrecorded \<Rightarrow> return_op False
      | Recorded first rest \<Rightarrow> on_pack (short_of (recorded_list first rest))
      | Torn \<Rightarrow> return_op True)"

definition clear_lost_payloads :: "bucket_file \<Rightarrow> (bucket_file \<times> bool) group_op" where
  "clear_lost_payloads bf =
     bind_op (payloads_lost (bf_sizes bf)) (\<lambda>lost.
       if \<not> lost then return_op (bf, False)
       else bind_op (on_pack opened_lengths) (\<lambda>opened.
         let cleared = map (clear_lost opened) (bf_entry bf)
         in return_op (bf \<lparr>bf_entry := map fst cleared\<rparr>, list_ex snd cleared)))"

definition count_fragments :: "nat \<Rightarrow> immutable_store_group \<Rightarrow> immutable_store_group" where
  "count_fragments n g =
     g \<lparr>packstore := (packstore g) \<lparr>ps_gc := map_option (add_loaded_fragments (word_of_nat n)) (ps_gc (packstore g))\<rparr>\<rparr>"

definition load_bucket :: "bucket_file \<Rightarrow> bool \<Rightarrow> immutable_store_bucket \<Rightarrow> immutable_store_bucket" where
  "load_bucket bf mark b = b \<lparr>sorted_index := bf_sorted_index bf, entry := bf_entry bf,
     upgrade_packfile := bf_upgrade_packfile bf, deserialized := True, dirty := (dirty b \<or> mark)\<rparr>"

text \<open>\<open>deserialize\<close>, with whether the fragments loaded are counted.\<close>

definition deserialize :: "bool \<Rightarrow> nat \<Rightarrow> unit group_op" where
  "deserialize counted i g =
     (if deserialized (g_bucket g i) then (Inr (), g)
      else
        bind_op (on_dir (deserialize_files i)) (\<lambda>bf.
        bind_op (clear_lost_payloads bf) (\<lambda>(bf', cleared).
        modify_op (\<lambda>g.
          let g' = set_bucket i (load_bucket bf' (bf_mark_dirty bf' \<or> cleared) (g_bucket g i)) g
          in if counted then count_fragments (length (bf_entry bf')) g' else g'))) g)"

section \<open>Writing a bucket\<close>

definition flush_packstore :: "bool \<Rightarrow> unit group_op" where
  "flush_packstore sync_data = on_pack (pack_flush_all sync_data)"

definition fan_out_uncommitted :: "immutable_store_group \<Rightarrow> bool" where
  "fan_out_uncommitted g \<longleftrightarrow> pending_level g \<noteq> 0 \<or> (committed_level g \<noteq> 0 \<and> committed_level g \<noteq> bucket_count g)"

definition nothing_to_flush :: "immutable_store_group \<Rightarrow> bool" where
  "nothing_to_flush g \<longleftrightarrow> \<not> fan_out_uncommitted g \<and> \<not> list_ex (needs_flush g) [0..<BUCKET_COUNT]"

text \<open>
  The write of a bucket's contents: with the sizes it records, or, where it records none, after a sync
  of the packfiles. The directory is created when missing, a failure of which shows in the write.
\<close>

definition bucket_sizes :: "bool \<Rightarrow> immutable_store_group \<Rightarrow> packfile_size list option" where
  "bucket_sizes sync_data g =
     (if sync_data then None else recordable_sizes (unsettled_sizes (1 + TRAILER_SIZES) (packstore g)))"

definition write_bucket :: "string \<Rightarrow> immutable_store_bucket \<Rightarrow> bool \<Rightarrow> unit group_op" where
  "write_bucket name b sync_data g =
     (if length (sorted_index b) \<noteq> length (entry b) then (Inl (Internal ''Failed to serialize storage bucket''), g)
      else
        bind_op (\<lambda>g. case bucket_sizes sync_data g of
                   Some sizes \<Rightarrow> (Inr sizes, g)
                 | None \<Rightarrow> bind_op (flush_packstore True) (\<lambda>_. return_op []) g) (\<lambda>sizes.
        bind_op (\<lambda>g. if gd_made (g_dir g) then (Inr (), g) else ignore_op (on_dir dir_create) g) (\<lambda>_ g.
        on_dir (dir_write ''Failed to serialize storage bucket'' name (bucket_write (serialize_version g) b sizes)) g)) g)"

text \<open>\<open>SerializeFailureGuard\<close>: a write that fails sets the flag it had claimed again.\<close>

definition rearm :: "bool \<Rightarrow> nat \<Rightarrow> immutable_store_group \<Rightarrow> immutable_store_group" where
  "rearm changed i g =
     set_bucket i (if changed then g_bucket g i \<lparr>dirty := True\<rparr> else g_bucket g i \<lparr>soft_dirty := True\<rparr>) g"

definition serialize_files :: "nat \<Rightarrow> string \<Rightarrow> bool \<Rightarrow> bool \<Rightarrow> unit group_op" where
  "serialize_files i name changed sync_data g =
     (case write_bucket name (g_bucket g i) sync_data g of
        (Inr _, g') \<Rightarrow> (Inr (), g')
      | (Inl e, g') \<Rightarrow> (Inl e, rearm changed i g'))"

definition claim_flags :: "nat \<Rightarrow> immutable_store_group \<Rightarrow> immutable_store_group" where
  "claim_flags i g = set_bucket i (g_bucket g i \<lparr>dirty := False, soft_dirty := False\<rparr>) g"

definition serialize :: "nat \<Rightarrow> bool \<Rightarrow> unit group_op" where
  "serialize i sync_data g =
     (if fan_out_uncommitted g then (Inl (Internal ''Bucket left dirty for the uncommitted fan-out of its group''), g)
      else if \<not> needs_flush g i then (Inr (), claim_flags i g)
      else serialize_files i (bucket_path i) (dirty (g_bucket g i)) sync_data (claim_flags i g))"

definition serialize_to_new :: "nat \<Rightarrow> bool \<Rightarrow> unit group_op" where
  "serialize_to_new i sync_data g = serialize_files i (bucket_new_path i) True sync_data (claim_flags i g)"

section \<open>Changing the level\<close>

definition reinsert :: "immutable_store_entry \<Rightarrow> immutable_store_bucket \<Rightarrow> immutable_store_bucket" where
  "reinsert e b = (case lookup b (e_partition e) (e_address e) MatchFull of (_, insert_slot, _) \<Rightarrow> inject insert_slot e b)"

definition redistribute_bucket :: "immutable_store_entry list \<Rightarrow> immutable_store_bucket \<Rightarrow> immutable_store_bucket" where
  "redistribute_bucket entries b =
     (let b' = fold reinsert entries (b \<lparr>entry := [], sorted_index := []\<rparr>)
      in b' \<lparr>deserialized := True, dirty := (dirty b \<or> entries \<noteq> [])\<rparr>)"

definition redistribute :: "nat \<Rightarrow> nat \<Rightarrow> immutable_store_group \<Rightarrow> immutable_store_group" where
  "redistribute n target g =
     (let entries = concat (map (\<lambda>i. entry (g_bucket g i)) [0..<n])
      in g \<lparr>g_bucket := (\<lambda>i. if i < target
               then redistribute_bucket (filter (\<lambda>e. bucket_index_for (e_hash e) target = i) entries) (g_bucket g i)
               else g_bucket g i),
            bucket_count := target\<rparr>)"

primrec deserialize_each :: "bool \<Rightarrow> nat list \<Rightarrow> unit group_op" where
  "deserialize_each counted [] = return_op ()"
| "deserialize_each counted (i # is) = bind_op (deserialize counted i) (\<lambda>_. deserialize_each counted is)"

definition maybe_fan_out :: "unit group_op" where
  "maybe_fan_out g =
     (let n = bucket_count g
      in if n \<ge> FAN_OUT_LEVEL_MAX then (Inr (), g)
         else
           let b_max = fold (\<lambda>i m. if dirty (g_bucket g i) then max m (length (entry (g_bucket g i))) else m) [0..<n] 0
           in if b_max \<le> fan_out_threshold g then (Inr (), g)
              else
                let target = level_for n b_max (fan_out_threshold g)
                in if target \<le> n then (Inr (), g)
                   else bind_op (deserialize_each False [0..<n]) (\<lambda>_. modify_op (redistribute n target)) g)"

section \<open>Flushing a group\<close>

definition roll_pending_commit_forward :: "unit group_op" where
  "roll_pending_commit_forward g =
     (if pending_level g = 0 then (Inr (), g)
      else bind_op (on_dir recover_level_transition) (\<lambda>_.
        modify_op (\<lambda>g'. g' \<lparr>committed_level := pending_level g, pending_level := 0\<rparr>)) g)"

definition commit_if_initial_level :: "unit group_op" where
  "commit_if_initial_level g =
     (if committed_level g \<noteq> 0 \<or> pending_level g \<noteq> 0 then (Inr (), g)
      else
        let active_buckets = bucket_count g
        in if active_buckets = FAN_OUT_LEVEL_MAX then (Inr (), g)
           else bind_op (on_dir dir_create) (\<lambda>_.
                bind_op (on_dir (write_level_marker active_buckets)) (\<lambda>_.
                modify_op (\<lambda>g. g \<lparr>committed_level := active_buckets\<rparr>))) g)"

text \<open>The first error of several steps, each of which is tried.\<close>

definition or_first :: "storage_error option \<Rightarrow> 'a result \<Rightarrow> storage_error option" where
  "or_first err r = (case err of Some e \<Rightarrow> Some e | None \<Rightarrow> (case r of Inl e \<Rightarrow> Some e | Inr _ \<Rightarrow> None))"

text \<open>A step taken only while no step failed.\<close>

definition unless_failed ::
  "unit group_op \<Rightarrow> storage_error option \<times> immutable_store_group \<Rightarrow> storage_error option \<times> immutable_store_group" where
  "unless_failed m st =
     (case st of (None, g) \<Rightarrow> (case m g of (r, g') \<Rightarrow> (or_first None r, g')) | (Some e, g) \<Rightarrow> (Some e, g))"

text \<open>The \<open>.new\<close> files of a commit: the first error, and the buckets written.\<close>

primrec write_news ::
  "bool \<Rightarrow> nat list \<Rightarrow> storage_error option \<Rightarrow> nat list \<Rightarrow> immutable_store_group \<Rightarrow>
   storage_error option \<times> nat list \<times> immutable_store_group" where
  "write_news sync_data [] err wrote g = (err, wrote, g)"
| "write_news sync_data (i # is) err wrote g =
     (if \<not> i < committed_level g \<and> \<not> needs_flush g i then write_news sync_data is err wrote g
      else case serialize_to_new i sync_data g of
        (r, g') \<Rightarrow> write_news sync_data is (or_first err r) (if is_ok r then wrote @ [i] else wrote) g')"

text \<open>The renames of a commit; unlike those of a recovery they fail on a missing file, and all are tried.\<close>

definition rename_written :: "nat \<Rightarrow> unit group_op" where
  "rename_written i g =
     (if fmlookup (gd_files (g_dir g)) (bucket_new_path i) = None
      then (case next_io (g_dir g) of
              (_, d) \<Rightarrow> (Inl (Internal ''Failed to rename .new bucket file during fan-out commit''), g \<lparr>g_dir := d\<rparr>))
      else on_dir (rename_new i) g)"

primrec rename_each ::
  "nat list \<Rightarrow> storage_error option \<Rightarrow> immutable_store_group \<Rightarrow> storage_error option \<times> immutable_store_group" where
  "rename_each [] err g = (err, g)"
| "rename_each (i # is) err g = (case rename_written i g of (r, g') \<Rightarrow> rename_each is (or_first err r) g')"

definition mark_dirty :: "nat list \<Rightarrow> immutable_store_group \<Rightarrow> immutable_store_group" where
  "mark_dirty is g = fold (\<lambda>i g. set_bucket i (g_bucket g i \<lparr>dirty := True\<rparr>) g) is g"

text \<open>A commit that wrote no file needs its marker only.\<close>

definition commit_empty :: "nat \<Rightarrow> storage_error option \<times> immutable_store_group \<Rightarrow> storage_error option \<times> immutable_store_group" where
  "commit_empty active st =
     unless_failed (modify_op (\<lambda>g. g \<lparr>committed_level := active\<rparr>)) (unless_failed (on_dir (write_level_marker active)) st)"

text \<open>Sentinel, renames, marker, and the sentinel removed. \<open>UnfinishedCommit\<close> marks the buckets otherwise.\<close>

definition commit_written ::
  "nat \<Rightarrow> nat list \<Rightarrow> storage_error option \<times> immutable_store_group \<Rightarrow> storage_error option \<times> immutable_store_group" where
  "commit_written active wrote st =
     (let st1 = unless_failed (on_dir (remove_stale_files wrote)) st;
          st2 = unless_failed (bind_op (on_dir (write_level_pending active)) (\<lambda>_.
                  modify_op (\<lambda>g. g \<lparr>pending_level := active\<rparr>))) st1;
          st3 = (case st2 of (None, g) \<Rightarrow> rename_each wrote None g | (Some e, g) \<Rightarrow> (Some e, g));
          st4 = unless_failed (on_dir (write_level_marker active)) st3;
          st5 = unless_failed (on_dir delete_level_pending) st4
      in case st5 of
           (None, g) \<Rightarrow> (None, g \<lparr>committed_level := active, pending_level := 0\<rparr>)
         | (Some e, g) \<Rightarrow> (Some e, mark_dirty wrote g))"

definition two_phase_commit :: "bool \<Rightarrow> immutable_store_group \<Rightarrow> storage_error option \<times> immutable_store_group" where
  "two_phase_commit sync_data g =
     (let active = bucket_count g
      in case unless_failed (on_dir dir_create) (None, g) of
           (Some e, g1) \<Rightarrow> (Some e, g1)
         | (None, g1) \<Rightarrow>
             (case write_news sync_data [0..<active] None [] g1 of
                (err, wrote, g2) \<Rightarrow>
                  if wrote = [] then commit_empty active (err, g2) else commit_written active wrote (err, g2)))"

primrec serialize_each ::
  "bool \<Rightarrow> nat list \<Rightarrow> storage_error option \<Rightarrow> immutable_store_group \<Rightarrow> storage_error option \<times> immutable_store_group" where
  "serialize_each sync_data [] err g = (err, g)"
| "serialize_each sync_data (i # is) err g =
     (if \<not> needs_flush g i then serialize_each sync_data is err g
      else case serialize i sync_data g of (r, g') \<Rightarrow> serialize_each sync_data is (or_first err r) g')"

definition flush_locked_group :: "bool \<Rightarrow> unit group_op" where
  "flush_locked_group sync_data =
     bind_op roll_pending_commit_forward (\<lambda>_ g.
       if \<not> list_ex (needs_flush g) [0..<BUCKET_COUNT] \<and> committed_level g = bucket_count g
       then (if sync_data then flush_packstore True g else (Inr (), g))
       else
         case maybe_fan_out g of
           (r, g1) \<Rightarrow>
             (case (if sync_data then flush_packstore True g1 else (Inr (), g1)) of
                (r', g2) \<Rightarrow>
                  (case or_first (or_first None r) r' of
                     Some e \<Rightarrow> (Inl e, g2)
                   | None \<Rightarrow>
                       (case (if serialize_version g2 = V_LazyFanOut \<and> committed_level g2 \<noteq> bucket_count g2
                              then two_phase_commit sync_data g2
                              else serialize_each sync_data [0..<bucket_count g2] None g2) of
                          (None, g3) \<Rightarrow> (Inr (), g3)
                        | (Some e, g3) \<Rightarrow> (Inl e, g3)))))"

section \<open>The delayed flush\<close>

text \<open>
  \<open>flush_delayed\<close> of a store on disk, from the moment it wakes. It answers nothing: an error stops
  it, and what it left flagged waits for the next flush.
\<close>

definition flush_delayed_bucket :: "nat \<Rightarrow> unit group_op" where
  "flush_delayed_bucket i g =
     (if \<not> needs_flush g i then (Inr (), g)
      else bind_op roll_pending_commit_forward (\<lambda>_.
           bind_op commit_if_initial_level (\<lambda>_. ignore_op (serialize i False))) g)"

primrec flush_delayed_each :: "nat list \<Rightarrow> unit group_op" where
  "flush_delayed_each [] = return_op ()"
| "flush_delayed_each (i # is) = bind_op (flush_delayed_bucket i) (\<lambda>_. flush_delayed_each is)"

definition flush_delayed :: "immutable_store_group \<Rightarrow> immutable_store_group" where
  "flush_delayed g =
     (let g' = g \<lparr>scheduled := False\<rparr>
      in if pending_flush_of g' = FlushNothing then g' else snd (flush_delayed_each [0..<BUCKET_COUNT] g'))"

end
