(* ===== verification/Compression.thy ===== *)
theory Compression
  imports Fragment_Validation
begin

text \<open>
  Compression of fragment payloads (\<open>lore-storage/src/compress.rs\<close>): the selection of the mode
  and of the level, compressing and decompressing, and the pool of zstd contexts.

  The LZ4 and zstd libraries are a parameter, a record of what the sources call; what they document
  is the predicate \<open>codec_spec\<close>. The build is the default one, without the \<open>oodle\<close>
  feature. Buffers are modelled by their contents and, where the sources pass it, their capacity.
\<close>

section \<open>Selecting the mode\<close>

datatype compression_mode = NotSpecified | NoCompression | Lz4 | Oodle | Zstd

fun compression_mode_u32 :: "compression_mode \<Rightarrow> u32" where
  "compression_mode_u32 NotSpecified = 0"
| "compression_mode_u32 NoCompression = 1"
| "compression_mode_u32 Lz4 = 2"
| "compression_mode_u32 Oodle = 3"
| "compression_mode_u32 Zstd = 4"

definition compression_mode_from_u32 :: "u32 \<Rightarrow> compression_mode" where
  "compression_mode_from_u32 v =
     (if v = 1 then NoCompression else if v = 2 then Lz4 else if v = 3 then Oodle
      else if v = 4 then Zstd else NotSpecified)"

definition writable_compression_mode :: "u32 \<Rightarrow> compression_mode option" where
  "writable_compression_mode v =
     (if v = compression_mode_u32 NotSpecified then Some NotSpecified
      else if v = compression_mode_u32 NoCompression then Some NoCompression
      else if v = compression_mode_u32 Lz4 then Some Lz4
      else if v = compression_mode_u32 Zstd then Some Zstd
      else None)"

text \<open>The compare-and-exchange of the selection: the new selection and whether it was taken.\<close>

definition apply_mode_suggestion :: "u32 \<Rightarrow> compression_mode \<Rightarrow> u32 \<times> bool" where
  "apply_mode_suggestion selection m =
     (if m = NotSpecified then (selection, False)
      else if selection = compression_mode_u32 NotSpecified then (compression_mode_u32 m, True)
      else (selection, False))"

section \<open>Selecting the level\<close>







section \<open>Decompressing\<close>

text \<open>
  The libraries. A compressor takes the payload and the capacity of the output and gives the
  compressed bytes or a failure; a decompressor likewise. \<open>zstd_cctx\<close> and
  \<open>zstd_dctx\<close> say whether a context could be allocated.
\<close>

record codecs =
  lz4_compress_default :: "bytes \<Rightarrow> nat \<Rightarrow> bytes option"
  lz4_decompress_safe :: "bytes \<Rightarrow> nat \<Rightarrow> bytes option"
  lz4_compress_bound :: "nat \<Rightarrow> nat"
  zstd_compress_cctx :: "int \<Rightarrow> bytes \<Rightarrow> nat \<Rightarrow> bytes option"
  zstd_decompress_dctx :: "bytes \<Rightarrow> nat \<Rightarrow> bytes option"
  zstd_compress_bound :: "nat \<Rightarrow> nat"
  zstd_cctx :: bool
  zstd_dctx :: bool

definition decompressed_fragment :: "fragment \<Rightarrow> fragment" where
  "decompressed_fragment f =
     \<lparr>flags = flags f AND NOT PayloadCompressed, size_payload = ucast (size_content f),
      size_content = size_content f\<rparr>"

definition decompress_into :: "codecs \<Rightarrow> fragment \<Rightarrow> bytes \<Rightarrow> nat \<Rightarrow> (fragment \<times> bytes) result" where
  "decompress_into cd f compressed capacity =
     (if unat (size_content f) > FRAGMENT_SIZE_THRESHOLD
         \<or> length compressed < unat (size_payload f)
         \<or> capacity < unat (size_content f)
      then Inl (Internal ''fragment has invalid sizes'')
      else
        let input = take (unat (size_payload f)) compressed;
            finish = (\<lambda>decoded.
              case decoded of
                Some bs \<Rightarrow>
                  if length bs \<noteq> unat (size_content f) then Inl (Internal ''invalid compressed data'')
                  else Inr (decompressed_fragment f, bs)
              | None \<Rightarrow> Inl (Internal ''invalid compressed data''))
        in if flags f AND PayloadCompressedLZ4 \<noteq> 0 then
             finish (lz4_decompress_safe cd input capacity)
           else if flags f AND PayloadCompressedOodle2 \<noteq> 0 then Inl NotSupported
           else if flags f AND PayloadCompressedZstd \<noteq> 0 then
             (if \<not> zstd_dctx cd then Inl (Internal ''failed to allocate zstd context'')
              else finish (zstd_decompress_dctx cd input (unat (size_content f))))
           else Inl NotSupported)"

definition decompress :: "codecs \<Rightarrow> fragment \<Rightarrow> bytes \<Rightarrow> (fragment \<times> bytes) result" where
  "decompress cd f compressed = decompress_into cd f compressed (unat (size_content f))"

text \<open>
  Decompressing into a slice: the fragment, and the slice with the content at its front.
\<close>

definition decompress_into_slice ::
  "codecs \<Rightarrow> fragment \<Rightarrow> bytes \<Rightarrow> bytes \<Rightarrow> (fragment \<times> bytes) result" where
  "decompress_into_slice cd f compressed dest =
     (if unat (size_content f) > FRAGMENT_SIZE_THRESHOLD
         \<or> length dest < unat (size_content f)
         \<or> length compressed < unat (size_payload f)
      then Inl (Internal ''fragment has invalid sizes'')
      else
        let input = take (unat (size_payload f)) compressed;
            finish = (\<lambda>decoded.
              case decoded of
                Some bs \<Rightarrow>
                  if length bs \<noteq> unat (size_content f) then Inl (Internal ''invalid compressed data'')
                  else Inr (decompressed_fragment f, bs @ drop (length bs) dest)
              | None \<Rightarrow> Inl (Internal ''invalid compressed data''))
        in if flags f AND PayloadCompressedLZ4 \<noteq> 0 then
             finish (lz4_decompress_safe cd input (length dest))
           else if flags f AND PayloadCompressedOodle2 \<noteq> 0 then Inl NotSupported
           else if flags f AND PayloadCompressedZstd \<noteq> 0 then
             (if \<not> zstd_dctx cd then Inl (Internal ''failed to allocate zstd context'')
              else finish (zstd_decompress_dctx cd input (unat (size_content f))))
           else Inl NotSupported)"

section \<open>Compressing\<close>

definition FRAGMENT_COMPRESS_SIZE_LIMIT :: nat where
  "FRAGMENT_COMPRESS_SIZE_LIMIT = 32"

definition compress_bound :: "codecs \<Rightarrow> nat \<Rightarrow> compression_mode \<Rightarrow> nat" where
  "compress_bound cd sz m =
     (case m of
        Lz4 \<Rightarrow> lz4_compress_bound cd sz
      | Zstd \<Rightarrow> zstd_compress_bound cd sz
      | NotSpecified \<Rightarrow> zstd_compress_bound cd sz
      | Oodle \<Rightarrow> 0
      | NoCompression \<Rightarrow> 0)"

definition compress_lz4_impl :: "codecs \<Rightarrow> fragment \<Rightarrow> bytes \<Rightarrow> nat \<Rightarrow> (fragment \<times> bytes) result" where
  "compress_lz4_impl cd f payload capacity =
     (let threshold = (unat (size_payload f) * 95) div 100
      in case lz4_compress_default cd (take (unat (size_payload f)) payload) capacity of
           Some bs \<Rightarrow>
             if length bs > 0 \<and> length bs < threshold then
               Inr (\<lparr>flags = flags f OR PayloadCompressedLZ4, size_payload = word_of_nat (length bs),
                     size_content = size_content f\<rparr>, bs)
             else Inl InefficientCompression
         | None \<Rightarrow> Inl InefficientCompression)"

definition compress_zstd_impl ::
  "codecs \<Rightarrow> int \<Rightarrow> fragment \<Rightarrow> bytes \<Rightarrow> nat \<Rightarrow> (fragment \<times> bytes) result" where
  "compress_zstd_impl cd level f payload capacity =
     (let threshold = (unat (size_payload f) * 95) div 100
      in if \<not> zstd_cctx cd then Inl (Internal ''zstd compression failed'')
         else case zstd_compress_cctx cd level (take (unat (size_payload f)) payload) capacity of
           None \<Rightarrow> Inl (Internal ''zstd compression failed'')
         | Some bs \<Rightarrow>
             if length bs < threshold then
               Inr (\<lparr>flags = flags f OR PayloadCompressedZstd, size_payload = word_of_nat (length bs),
                     size_content = size_content f\<rparr>, bs)
             else Inl InefficientCompression)"

definition compress_into ::
  "codecs \<Rightarrow> int \<Rightarrow> fragment \<Rightarrow> bytes \<Rightarrow> compression_mode \<Rightarrow> nat \<Rightarrow> (fragment \<times> bytes) result" where
  "compress_into cd level f payload m capacity =
     (if unat (size_content f) > FRAGMENT_SIZE_THRESHOLD
      then Inl (Internal ''fragment has invalid sizes'')
      else if flags f AND PayloadCompressed \<noteq> 0
         \<or> flags f AND PayloadFragmented \<noteq> 0
         \<or> unat (size_payload f) \<noteq> unat (size_content f)
      then Inl (Internal ''fragment incompatible with compression'')
      else if length payload < unat (size_payload f)
      then Inl (Internal ''fragment has invalid sizes'')
      else case m of
        Lz4 \<Rightarrow> compress_lz4_impl cd f payload capacity
      | Zstd \<Rightarrow> compress_zstd_impl cd level f payload capacity
      | NotSpecified \<Rightarrow> compress_zstd_impl cd level f payload capacity
      | Oodle \<Rightarrow> Inl NotSupported
      | NoCompression \<Rightarrow> Inl (Internal ''fragment compression disabled''))"

definition compress_without_deprecation_checks ::
  "codecs \<Rightarrow> int \<Rightarrow> fragment \<Rightarrow> bytes \<Rightarrow> compression_mode \<Rightarrow> (fragment \<times> bytes) result" where
  "compress_without_deprecation_checks cd level f payload m =
     compress_into cd level f payload m (compress_bound cd (unat (size_payload f)) m)"

definition compress ::
  "codecs \<Rightarrow> int \<Rightarrow> fragment \<Rightarrow> bytes \<Rightarrow> compression_mode \<Rightarrow> (fragment \<times> bytes) result" where
  "compress cd level f payload m =
     (if m = Oodle then Inl NotSupported
      else compress_without_deprecation_checks cd level f payload m)"

section \<open>The pool of zstd contexts\<close>

text \<open>
  A thread that claims a pooled slot loads the counter and then tries to exchange the value it saw
  for the next one, which can fail for a change made by another thread or for no reason. A state is
  the counter and where each thread stands; any thread may take the next step.
\<close>

definition ZSTD_CTX_POOL_LIMIT :: nat where "ZSTD_CTX_POOL_LIMIT = 32"

datatype claim_pc = ClaimStart | ClaimLoop nat | ClaimDone bool

definition claim_steps :: "nat \<Rightarrow> claim_pc \<Rightarrow> (nat \<times> claim_pc) list" where
  "claim_steps count pc =
     (case pc of
        ClaimStart \<Rightarrow> [(count, ClaimLoop count)]
      | ClaimLoop current \<Rightarrow>
          if current < ZSTD_CTX_POOL_LIMIT then
            (if count = current then [(current + 1, ClaimDone True)] else []) @
            [(count, ClaimLoop count)]
          else [(count, ClaimDone False)]
      | ClaimDone b \<Rightarrow> [])"

inductive zstd_claim_pooled_slot :: "nat \<times> claim_pc list \<Rightarrow> nat \<times> claim_pc list \<Rightarrow> bool" where
  claim_step: "t < length pcs \<Longrightarrow> (count', pc') \<in> set (claim_steps count (pcs ! t)) \<Longrightarrow>
    zstd_claim_pooled_slot (count, pcs) (count', pcs[t := pc'])"

inductive_cases claim_stepE: "zstd_claim_pooled_slot (count, pcs) s'"

section \<open>What the libraries document\<close>

text \<open>
  Compressed output is not empty and within the capacity given, and decompresses, into any capacity
  that holds it, to the bytes it was made from.
\<close>

definition codec_spec :: "codecs \<Rightarrow> bool" where
  "codec_spec cd \<longleftrightarrow>
     (\<forall>bs cap out. lz4_compress_default cd bs cap = Some out \<longrightarrow>
        out \<noteq> [] \<and> length out \<le> cap \<and>
        (\<forall>cap' \<ge> length bs. lz4_decompress_safe cd out cap' = Some bs)) \<and>
     (\<forall>level bs cap out. zstd_compress_cctx cd level bs cap = Some out \<longrightarrow>
        out \<noteq> [] \<and> length out \<le> cap \<and>
        (\<forall>cap' \<ge> length bs. zstd_decompress_dctx cd out cap' = Some bs))"

text \<open>
  An instance: a run-length code for payloads of one repeated byte, which is what the witnesses
  compress, with a length of four bytes in front.
\<close>

definition run_compress :: "bytes \<Rightarrow> nat \<Rightarrow> bytes option" where
  "run_compress bs cap =
     (if 5 \<le> cap \<and> bs = replicate (length bs) (hd bs) \<and> length bs < 2 ^ 32
      then Some (le_bytes 4 (word_of_nat (length bs) :: u32) @ [hd bs]) else None)"

definition run_decompress :: "bytes \<Rightarrow> nat \<Rightarrow> bytes option" where
  "run_decompress out cap =
     (let n = unat (le_word (take 4 out) :: u32)
      in if length out = 5 \<and> n \<le> cap then Some (replicate n (out ! 4)) else None)"

definition run_codecs :: codecs where
  "run_codecs = \<lparr>lz4_compress_default = run_compress, lz4_decompress_safe = run_decompress,
     lz4_compress_bound = (\<lambda>n. n + 5), zstd_compress_cctx = (\<lambda>_. run_compress),
     zstd_decompress_dctx = run_decompress, zstd_compress_bound = (\<lambda>n. n + 5),
     zstd_cctx = True, zstd_dctx = True\<rparr>"

lemma run_compress_spec:
  assumes "run_compress bs cap = Some out"
  shows "out \<noteq> [] \<and> length out \<le> cap \<and> (\<forall>cap' \<ge> length bs. run_decompress out cap' = Some bs)"
proof -
  have "out = le_bytes 4 (word_of_nat (length bs) :: u32) @ [hd bs]" "5 \<le> cap"
    "bs = replicate (length bs) (hd bs)" "length bs < 2 ^ 32"
    using assms by (auto simp: run_compress_def split: if_splits)
  moreover from \<open>length bs < 2 ^ 32\<close> have "unat (word_of_nat (length bs) :: u32) = length bs"
    by (simp add: unat_of_nat)
  ultimately show ?thesis
    by (auto simp: run_decompress_def Let_def nth_append)
qed

lemma codec_spec_run_codecs: "codec_spec run_codecs"
  unfolding codec_spec_def run_codecs_def using run_compress_spec by auto

section \<open>Facts on compressed fragments\<close>

text \<open>
  What a successful compression gives: the bit of its codec, fewer than 95 percent of the bytes, and
  output its decoder turns restored into the payload.
\<close>

definition compressed_as ::
  "u32 \<Rightarrow> (bytes \<Rightarrow> nat \<Rightarrow> bytes option) \<Rightarrow> fragment \<Rightarrow> bytes \<Rightarrow> fragment \<Rightarrow> bytes \<Rightarrow> bool" where
  "compressed_as cmask decoder f payload f' c \<longleftrightarrow>
     f' = \<lparr>flags = flags f OR cmask, size_payload = word_of_nat (length c), size_content = size_content f\<rparr> \<and>
     c \<noteq> [] \<and> length c < (unat (size_payload f) * 95) div 100 \<and>
     (\<forall>cap \<ge> unat (size_payload f). decoder c cap = Some (take (unat (size_payload f)) payload))"

definition compressible :: "fragment \<Rightarrow> bytes \<Rightarrow> bool" where
  "compressible f payload \<longleftrightarrow>
     unat (size_content f) \<le> FRAGMENT_SIZE_THRESHOLD \<and> flags f AND PayloadCompressed = 0 \<and>
     flags f AND PayloadFragmented = 0 \<and> unat (size_payload f) = unat (size_content f) \<and>
     unat (size_payload f) \<le> length payload"

lemma compress_lz4_impl_ok:
  assumes "compress_lz4_impl cd f payload cap = Inr (f', c)" "codec_spec cd"
    "unat (size_payload f) \<le> length payload"
  shows "compressed_as PayloadCompressedLZ4 (lz4_decompress_safe cd) f payload f' c"
proof -
  have c: "lz4_compress_default cd (take (unat (size_payload f)) payload) cap = Some c"
    "length c < (unat (size_payload f) * 95) div 100"
    "f' = \<lparr>flags = flags f OR PayloadCompressedLZ4, size_payload = word_of_nat (length c),
      size_content = size_content f\<rparr>"
    using assms(1) by (auto simp: compress_lz4_impl_def Let_def split: option.splits if_splits)
  with assms(2) have "c \<noteq> [] \<and> (\<forall>cap' \<ge> length (take (unat (size_payload f)) payload).
      lz4_decompress_safe cd c cap' = Some (take (unat (size_payload f)) payload))"
    unfolding codec_spec_def by blast
  with c(2,3) assms(3) show ?thesis by (simp add: compressed_as_def min_absorb2)
qed

lemma compress_zstd_impl_ok:
  assumes "compress_zstd_impl cd level f payload cap = Inr (f', c)" "codec_spec cd"
    "unat (size_payload f) \<le> length payload"
  shows "compressed_as PayloadCompressedZstd (zstd_decompress_dctx cd) f payload f' c"
proof -
  have c: "zstd_compress_cctx cd level (take (unat (size_payload f)) payload) cap = Some c"
    "length c < (unat (size_payload f) * 95) div 100"
    "f' = \<lparr>flags = flags f OR PayloadCompressedZstd, size_payload = word_of_nat (length c),
      size_content = size_content f\<rparr>"
    using assms(1) by (auto simp: compress_zstd_impl_def Let_def split: option.splits if_splits)
  with assms(2) have "c \<noteq> [] \<and> (\<forall>cap' \<ge> length (take (unat (size_payload f)) payload).
      zstd_decompress_dctx cd c cap' = Some (take (unat (size_payload f)) payload))"
    unfolding codec_spec_def by blast
  with c(2,3) assms(3) show ?thesis by (simp add: compressed_as_def min_absorb2)
qed

lemma compress_cases:
  assumes "compress cd level f payload m = Inr (f', c)" "codec_spec cd"
  shows "compressible f payload \<and>
    (compressed_as PayloadCompressedLZ4 (lz4_decompress_safe cd) f payload f' c \<or>
     compressed_as PayloadCompressedZstd (zstd_decompress_dctx cd) f payload f' c)"
proof -
  have guards: "compressible f payload"
    using assms(1) unfolding compress_def compress_without_deprecation_checks_def compress_into_def
    by (auto simp: compressible_def split: if_splits)
  then have len: "unat (size_payload f) \<le> length payload" by (simp add: compressible_def)
  have "\<exists>cap. compress_lz4_impl cd f payload cap = Inr (f', c) \<or>
      compress_zstd_impl cd level f payload cap = Inr (f', c)"
    using assms(1) unfolding compress_def compress_without_deprecation_checks_def compress_into_def
    by (cases m) (auto split: if_splits)
  with guards compress_lz4_impl_ok [OF _ assms(2) len] compress_zstd_impl_ok [OF _ assms(2) len]
  show ?thesis by blast
qed

lemma word32_eqI: "unat (a :: u32) = unat (b :: u64) \<Longrightarrow> ucast b = a"
  by (metis unsigned_ucast_eq unsigned_word_eqI of_nat_unat ucast_id)

text \<open>The bits a compression sets are the ones a decompression clears.\<close>

lemma codec_bit_facts:
  assumes "w AND PayloadCompressed = 0" "cmask = PayloadCompressedLZ4 \<or> cmask = PayloadCompressedZstd"
  shows "(w OR cmask) AND NOT PayloadCompressed = w"
    "(w OR cmask) AND PayloadCompressed = cmask"
    "cmask AND PayloadCompressed = cmask"
proof -
  have m: "cmask AND NOT PayloadCompressed = 0" "cmask AND PayloadCompressed = cmask"
    using assms(2) by (auto simp: flag_simps)
  have "w = (w AND PayloadCompressed) OR (w AND NOT PayloadCompressed)"
    by (simp add: bit_eq_iff bit_simps) blast
  then have w: "w AND NOT PayloadCompressed = w" using assms(1) by simp
  show "(w OR cmask) AND NOT PayloadCompressed = w"
    using m(1) w by (simp add: bit.conj_disj_distrib2)
  show "(w OR cmask) AND PayloadCompressed = cmask"
    using m(2) assms(1) by (simp add: bit.conj_disj_distrib2)
qed (use assms(2) in \<open>auto simp: flag_simps\<close>)

lemma compressed_as_sizes:
  assumes "compressed_as cmask decoder f payload f' c" "compressible f payload"
  shows "unat (size_payload f') = length c" "0 < length c" "length c < unat (size_payload f)"
proof -
  have "length c < (unat (size_payload f) * 95) div 100" "c \<noteq> []"
    "size_payload f' = word_of_nat (length c)"
    using assms(1) by (auto simp: compressed_as_def)
  moreover have "unat (size_payload f) \<le> FRAGMENT_SIZE_THRESHOLD"
    using assms(2) by (simp add: compressible_def)
  ultimately show "unat (size_payload f') = length c" "0 < length c" "length c < unat (size_payload f)"
    by (auto simp: unat_of_nat FRAGMENT_SIZE_THRESHOLD_def)
qed

lemma compressed_as_decompress:
  assumes c: "compressed_as cmask decoder f payload f' c" and f: "compressible f payload"
    and dec: "cmask = PayloadCompressedLZ4 \<and> decoder = lz4_decompress_safe cd \<or>
      cmask = PayloadCompressedZstd \<and> decoder = zstd_decompress_dctx cd \<and> zstd_dctx cd"
    and cap: "unat (size_content f) \<le> cap"
  shows "decompress_into cd f' c cap = Inr (f, take (unat (size_payload f)) payload)"
proof -
  note sizes = compressed_as_sizes [OF c f]
  have eqs: "flags f' = flags f OR cmask" "size_content f' = size_content f"
      "decoder c cap = Some (take (unat (size_payload f)) payload)"
      "decoder c (unat (size_content f)) = Some (take (unat (size_payload f)) payload)"
    using c cap f by (auto simp: compressed_as_def compressible_def)
  have m: "cmask = PayloadCompressedLZ4 \<or> cmask = PayloadCompressedZstd" using dec by blast
  have fl: "flags f AND PayloadCompressed = 0" "unat (size_payload f) = unat (size_content f)"
      "unat (size_content f) \<le> FRAGMENT_SIZE_THRESHOLD" "unat (size_payload f) \<le> length payload"
    using f by (auto simp: compressible_def)
  note bits = codec_bit_facts [OF fl(1) m]
  have one: "(flags f OR cmask) AND k = cmask AND k" if "k AND PayloadCompressed = k" for k
    by (metis and.assoc and.commute bits(2) that)
  have lz4: "(flags f OR cmask) AND PayloadCompressedLZ4 = cmask AND PayloadCompressedLZ4"
    and ood: "(flags f OR cmask) AND PayloadCompressedOodle2 = cmask AND PayloadCompressedOodle2"
    and zst: "(flags f OR cmask) AND PayloadCompressedZstd = cmask AND PayloadCompressedZstd"
    by (rule one; simp add: flag_simps)+
  have restored: "decompressed_fragment f' = f"
    using bits(1) eqs(1,2) word32_eqI [OF fl(2)] by (simp add: decompressed_fragment_def)
  from dec show ?thesis
  proof (elim disjE conjE)
    assume "cmask = PayloadCompressedLZ4" "decoder = lz4_decompress_safe cd"
    then show ?thesis
      using sizes eqs fl cap lz4 restored by (simp add: decompress_into_def flag_simps min_absorb2)
  next
    assume "cmask = PayloadCompressedZstd" "decoder = zstd_decompress_dctx cd" "zstd_dctx cd"
    then show ?thesis
      using sizes eqs fl cap lz4 ood zst restored
      by (simp add: decompress_into_def flag_simps min_absorb2)
  qed
qed

section \<open>Facts on the context pool\<close>

abbreviation claimed :: "claim_pc list \<Rightarrow> nat" where
  "claimed pcs \<equiv> length (filter ((=) (ClaimDone True)) pcs)"

definition pool_inv :: "nat \<times> claim_pc list \<Rightarrow> bool" where
  "pool_inv s \<longleftrightarrow>
     fst s = claimed (snd s) \<and> fst s \<le> ZSTD_CTX_POOL_LIMIT \<and>
     (\<forall>pc \<in> set (snd s).
        (\<forall>c. pc = ClaimLoop c \<longrightarrow> c \<le> fst s) \<and> (pc = ClaimDone False \<longrightarrow> fst s = ZSTD_CTX_POOL_LIMIT))"

lemma claimed_update:
  assumes "t < length pcs" "pcs ! t \<noteq> ClaimDone True"
  shows "claimed (pcs[t := pc]) = claimed pcs + (if pc = ClaimDone True then 1 else 0)"
proof -
  have "claimed pcs = claimed (take t pcs @ pcs ! t # drop (Suc t) pcs)"
    using assms(1) by (simp add: id_take_nth_drop [symmetric])
  then show ?thesis
    using assms by (auto simp: upd_conv_take_nth_drop)
qed

lemma pool_inv_step: "zstd_claim_pooled_slot s s' \<Longrightarrow> pool_inv s \<Longrightarrow> pool_inv s'"
proof (induction rule: zstd_claim_pooled_slot.induct)
  case (claim_step t pcs count' pc' count)
  have t: "pcs ! t \<in> set pcs" using claim_step by simp
  consider "pcs ! t = ClaimStart" "count' = count" "pc' = ClaimLoop count"
    | current where "pcs ! t = ClaimLoop current" "current < ZSTD_CTX_POOL_LIMIT" "count = current"
        "count' = count + 1" "pc' = ClaimDone True"
    | current where "pcs ! t = ClaimLoop current" "count' = count" "pc' = ClaimLoop count"
    | current where "pcs ! t = ClaimLoop current" "ZSTD_CTX_POOL_LIMIT \<le> current" "count' = count"
        "pc' = ClaimDone False"
    using claim_step(2) by (auto simp: claim_steps_def split: claim_pc.splits if_splits)
  then show ?case
  proof cases
    case 2
    have "pc \<noteq> ClaimDone False" if "pc \<in> set pcs" for pc
      using that claim_step(3) 2 by (auto simp: pool_inv_def)
    with claim_step 2 show ?thesis
      by (auto simp: pool_inv_def claimed_update dest!: set_update_subset_insert [THEN subsetD]
          intro: le_SucI)
  next
    case 4
    then have "count = ZSTD_CTX_POOL_LIMIT"
      using claim_step(3) t by (auto simp: pool_inv_def)
    with claim_step 4 show ?thesis
      by (auto simp: pool_inv_def claimed_update dest!: set_update_subset_insert [THEN subsetD])
  qed (use claim_step in \<open>auto simp: pool_inv_def claimed_update
      dest!: set_update_subset_insert [THEN subsetD]\<close>)
qed

section \<open>Properties\<close>

text \<open>
  C12. What was compressed decompresses to the same fragment and the same payload, for every mode and
  level a compression succeeds under.
\<close>

theorem decompress_compress:
  assumes "codec_spec cd" "zstd_dctx cd" "compress cd level f payload m = Inr (f', c)"
  shows "decompress cd f' c = Inr (f, take (unat (size_payload f)) payload)"
proof -
  note cases = compress_cases [OF assms(3,1)]
  have "size_content f' = size_content f"
    using cases by (auto simp: compressed_as_def)
  with cases assms(2) show ?thesis
    unfolding decompress_def by (auto intro!: compressed_as_decompress)
qed

theorem decompress_compress_witness:
  "\<exists>f' c. compress run_codecs 6 \<lparr>flags = 0, size_payload = 100, size_content = 100\<rparr> (replicate 100 7) Zstd
      = Inr (f', c) \<and>
    decompress run_codecs f' c =
      Inr (\<lparr>flags = 0, size_payload = 100, size_content = 100\<rparr>, replicate 100 7)"
proof -
  let ?f = "\<lparr>flags = 0, size_payload = 100, size_content = 100\<rparr> :: fragment"
  have "compress run_codecs 6 ?f (replicate 100 7) Zstd =
      Inr (\<lparr>flags = PayloadCompressedZstd, size_payload = 5, size_content = 100\<rparr>,
        le_bytes 4 (100 :: u32) @ [7])"
    by (simp add: compress_def compress_without_deprecation_checks_def compress_into_def
        compress_zstd_impl_def compress_bound_def run_codecs_def run_compress_def
        FRAGMENT_SIZE_THRESHOLD_def min_def)
  from this decompress_compress [OF codec_spec_run_codecs _ this]
  show ?thesis by (auto simp: run_codecs_def)
qed

text \<open>
  C13. Compressing a fragment that a store would keep gives one that a store keeps: its header is
  consistent, names the length of the compressed payload, and is smaller than the original.
\<close>

theorem compress_keeps_put_valid:
  assumes "codec_spec cd" "compress cd level f payload m = Inr (f', c)" "fragment_is_consistent f"
  shows "put_is_valid f' (Some (length c)) \<and> unat (size_payload f') < unat (size_payload f) \<and>
    size_content f' = size_content f"
proof -
  obtain cmask decoder where c: "compressed_as cmask decoder f payload f' c"
    and m: "cmask = PayloadCompressedLZ4 \<or> cmask = PayloadCompressedZstd"
    and f: "compressible f payload"
    using compress_cases [OF assms(2,1)] by blast
  note sizes = compressed_as_sizes [OF c f]
  have fl: "flags f AND PayloadCompressed = 0" "flags f AND PayloadFragmented = 0"
      "unat (size_payload f) = unat (size_content f)"
    using f by (auto simp: compressible_def)
  have f': "flags f' = flags f OR cmask" "size_content f' = size_content f"
    using c by (auto simp: compressed_as_def)
  have "cmask AND FRAGMENT_FLAGS_SERVER_MANAGED_INGRESS_REJECTED = 0" "cmask AND PayloadFragmented = 0"
    "cmask AND (cmask - 1) = 0"
    using m by (auto simp: flag_simps)
  then have bits: "flags f' AND FRAGMENT_FLAGS_SERVER_MANAGED_INGRESS_REJECTED = 0"
    "flags f' AND PayloadFragmented = 0" "flags f' AND PayloadCompressed = cmask"
    "cmask AND (cmask - 1) = 0" "cmask \<noteq> 0"
    using assms(3) fl codec_bit_facts [OF fl(1) m] m
    by (auto simp: f' bit.conj_disj_distrib2 fragment_is_consistent_def Let_def flag_simps)
  have "fragment_is_consistent f'"
    using assms(3) sizes fl(3) by (simp add: fragment_is_consistent_def Let_def bits f'(2))
  with sizes bits(2) f'(2) show ?thesis by (simp add: put_is_valid_def)
qed

theorem compress_keeps_put_valid_witness:
  "\<exists>f' c. compress run_codecs 6 \<lparr>flags = 0, size_payload = 100, size_content = 100\<rparr> (replicate 100 7) Lz4
      = Inr (f', c) \<and> put_is_valid f' (Some (length c))"
proof -
  let ?f = "\<lparr>flags = 0, size_payload = 100, size_content = 100\<rparr> :: fragment"
  have "compress run_codecs 6 ?f (replicate 100 7) Lz4 =
      Inr (\<lparr>flags = PayloadCompressedLZ4, size_payload = 5, size_content = 100\<rparr>,
        le_bytes 4 (100 :: u32) @ [7])"
    by (simp add: compress_def compress_without_deprecation_checks_def compress_into_def
        compress_lz4_impl_def compress_bound_def run_codecs_def run_compress_def
        FRAGMENT_SIZE_THRESHOLD_def min_def)
  moreover have "fragment_is_consistent ?f"
    by (simp add: fragment_is_consistent_def FRAGMENT_SIZE_THRESHOLD_def)
  ultimately show ?thesis
    using compress_keeps_put_valid [OF codec_spec_run_codecs] by blast
qed

text \<open>
  C14. However the steps of concurrent callers interleave, no more contexts are pooled than the limit,
  which is the capacity of the queue they are returned to; the counter is the number of claims; and
  a caller is refused a slot only when all of them are taken.
\<close>

theorem zstd_pool_never_overcommitted:
  assumes "zstd_claim_pooled_slot\<^sup>*\<^sup>* (0, replicate n ClaimStart) (count, pcs)"
  shows "count = claimed pcs \<and> claimed pcs \<le> ZSTD_CTX_POOL_LIMIT \<and>
    (ClaimDone False \<in> set pcs \<longrightarrow> claimed pcs = ZSTD_CTX_POOL_LIMIT)"
proof -
  have "pool_inv (0, replicate n ClaimStart)"
    by (simp add: pool_inv_def)
  with assms have "pool_inv (count, pcs)"
    by (induction rule: rtranclp_induct) (auto intro: pool_inv_step)
  then show ?thesis by (auto simp: pool_inv_def)
qed

theorem zstd_pool_never_overcommitted_witness:
  "zstd_claim_pooled_slot\<^sup>*\<^sup>* (0, replicate 2 ClaimStart) (1, [ClaimLoop 0, ClaimDone True]) \<and>
   claimed [ClaimLoop 0, ClaimDone True] \<le> ZSTD_CTX_POOL_LIMIT"
proof -
  have "zstd_claim_pooled_slot (0, [ClaimStart, ClaimStart]) (0, [ClaimStart, ClaimStart][0 := ClaimLoop 0])"
    by (rule claim_step) (simp_all add: claim_steps_def)
  moreover have "zstd_claim_pooled_slot (0, [ClaimLoop 0, ClaimStart])
      (0, [ClaimLoop 0, ClaimStart][1 := ClaimLoop 0])"
    by (rule claim_step) (simp_all add: claim_steps_def)
  moreover have "zstd_claim_pooled_slot (0, [ClaimLoop 0, ClaimLoop 0])
      (1, [ClaimLoop 0, ClaimLoop 0][1 := ClaimDone True])"
    by (rule claim_step) (simp_all add: claim_steps_def ZSTD_CTX_POOL_LIMIT_def)
  ultimately have "zstd_claim_pooled_slot\<^sup>*\<^sup>* (0, replicate 2 ClaimStart)
      (1, [ClaimLoop 0, ClaimDone True])"
    by (simp add: numeral_2_eq_2)
  from this zstd_pool_never_overcommitted [OF this] show ?thesis by simp
qed



end
