(* ===== verification/Store_Interface.thy ===== *)
theory Store_Interface
  imports Compression
begin

text \<open>
  The interface of an immutable store (\<open>ImmutableStore\<close> of \<open>lore-storage/src/immutable_store.rs\<close>
  and the types of \<open>lore-storage/src/store_types.rs\<close>): what a lookup answers, and how widely a
  store searches.
\<close>

section \<open>Answers\<close>

record store_match_result =
  mr_match_made :: store_match
  mr_partition :: partition
  mr_context :: lore_context
  mr_stored_local :: bool
  mr_stored_durable :: bool

definition store_match_result_default :: store_match_result where
  "store_match_result_default = \<lparr>mr_match_made = MatchNone, mr_partition = partition_default, mr_context = context_default,
     mr_stored_local = False, mr_stored_durable = False\<rparr>"

definition match_source_address :: "store_match_result \<Rightarrow> hash \<Rightarrow> address" where
  "match_source_address r h = Address h (mr_context r)"

record store_get_data =
  gd_fragment :: fragment
  gd_match_made :: store_match
  gd_partition :: partition
  gd_payload :: "bytes option"
  gd_content :: "(fragment \<times> bytes) option"

definition store_get_data_default :: store_get_data where
  "store_get_data_default = \<lparr>gd_fragment = fragment_default, gd_match_made = MatchNone, gd_partition = partition_default,
     gd_payload = None, gd_content = None\<rparr>"

definition get_data_metadata :: "fragment \<Rightarrow> store_match \<Rightarrow> partition \<Rightarrow> store_get_data" where
  "get_data_metadata f matched p =
     (if matched = MatchNone then store_get_data_default
      else \<lparr>gd_fragment = f, gd_match_made = matched, gd_partition = p, gd_payload = None, gd_content = None\<rparr>)"

definition into_payload :: "store_get_data \<Rightarrow> (fragment \<times> bytes) result" where
  "into_payload d =
     (case gd_payload d of
        Some payload \<Rightarrow> Inr (gd_fragment d, payload)
      | None \<Rightarrow> Inl (Internal ''store reported a match but served no payload''))"

text \<open>Where a read into a caller's buffer put the payload: the buffer it left, or the payload.\<close>

datatype payload_read = IntoBuffer bytes | Returned bytes

section \<open>Scopes\<close>

definition read_scope :: "bool \<Rightarrow> store_match" where
  "read_scope isolates_partitions = (if isolates_partitions then MatchFull else MatchHash)"

definition query_scope :: "bool \<Rightarrow> store_match" where
  "query_scope isolates_partitions = (if isolates_partitions then MatchPartition else MatchHash)"

section \<open>Expanding a payload\<close>

text \<open>
  The checks of \<open>lore-storage/src/read.rs\<close> on a payload and the fragment that describes it, and the
  content the payload expands to.
\<close>

definition check_payload_sizes :: "fragment \<Rightarrow> nat \<Rightarrow> unit result" where
  "check_payload_sizes f len = bind_result (validate_fragment_payload f len) (\<lambda>_. validate_plain_payload_size f)"

definition expand_payload :: "codecs \<Rightarrow> fragment \<Rightarrow> bytes \<Rightarrow> (fragment \<times> bytes) result" where
  "expand_payload cd f payload =
     bind_result (check_payload_sizes f (length payload)) (\<lambda>_.
       if flags f AND PayloadCompressed = 0 then Inr (f, payload) else decompress cd f payload)"

definition verify_receipt :: "codecs \<Rightarrow> (bytes \<Rightarrow> hash) \<Rightarrow> fragment \<Rightarrow> bytes \<Rightarrow> address \<Rightarrow> (fragment \<times> bytes) result" where
  "verify_receipt cd hash_of f payload a =
     bind_result (expand_payload cd f payload) (\<lambda>(f', content).
       if hash_of content \<noteq> addr_hash a then Inl (Internal ''fragment hash mismatch'') else Inr (f', content))"

text \<open>A payload as loaded, with the content it expands to where the load expanded it.\<close>

record loaded =
  ld_content :: "(fragment \<times> bytes) option"
  ld_raw :: "fragment \<times> bytes"

definition loaded_take :: "codecs \<Rightarrow> bool \<Rightarrow> loaded \<Rightarrow> (fragment \<times> bytes) result" where
  "loaded_take cd dec l =
     (if \<not> dec then Inr (ld_raw l)
      else case ld_content l of
        Some content \<Rightarrow> Inr content
      | None \<Rightarrow> expand_payload cd (fst (ld_raw l)) (snd (ld_raw l)))"

end
