(* ===== verification/Local_Store.thy ===== *)
theory Local_Store
  imports Store_Group Store_Interface
begin

text \<open>
  The local store (\<open>LocalImmutableStore\<close> of \<open>lore-storage/src/local/immutable_store.rs\<close>): the
  operations of the store interface over groups of buckets and their packstores.

  An operation that waits for a bucket's lock checks again that its group has not changed level
  meanwhile; what is here is the turn of that loop that finds it unchanged. The claim of the store
  directory and the gates that hold compaction off are left out.

  \<open>store_env\<close> is what an operation reads of its surroundings: the time, the hash function, the
  codecs, and which packfiles others hold.
\<close>

section \<open>State\<close>

record immutable_store_settings =
  protect_local_fragment :: bool
  implicit_durable_stored :: bool
  isolate_partitions :: bool
  flush_background :: bool
  verify_write :: bool
  atime :: bool

definition immutable_store_settings_default :: immutable_store_settings where
  "immutable_store_settings_default = \<lparr>protect_local_fragment = True, implicit_durable_stored = False,
     isolate_partitions = False, flush_background = False, verify_write = False, atime = True\<rparr>"

record local_immutable_store =
  s_path :: bool
  s_group :: "nat \<Rightarrow> immutable_store_group"
  s_settings :: immutable_store_settings

record store_env =
  env_now :: u64
  env_hash :: "bytes \<Rightarrow> hash"
  env_codecs :: codecs
  env_locked :: "nat \<Rightarrow> nat \<Rightarrow> bool"
  env_spread :: nat

type_synonym 'a store_op = "(local_immutable_store, 'a) op"
type_synonym 'a store_run = "(local_immutable_store, 'a) run"

definition group_index :: "hash \<Rightarrow> nat" where
  "group_index h = unat (hash_as_bytes h ! 0)"

definition set_group :: "nat \<Rightarrow> immutable_store_group \<Rightarrow> local_immutable_store \<Rightarrow> local_immutable_store" where
  "set_group i g s = s \<lparr>s_group := (s_group s)(i := g)\<rparr>"

definition on_group :: "nat \<Rightarrow> 'a group_op \<Rightarrow> 'a store_op" where
  "on_group i m s = (case m (s_group s i) of (r, g) \<Rightarrow> (r, set_group i g s))"

text \<open>The bucket of a hash, read from its file when it has not been.\<close>

definition bucket_of :: "hash \<Rightarrow> immutable_store_group \<Rightarrow> nat" where
  "bucket_of h g = bucket_index_for h (bucket_count g)"

definition open_bucket :: "bool \<Rightarrow> hash \<Rightarrow> nat group_op" where
  "open_bucket path h g =
     (let i = bucket_of h g
      in if \<not> deserialized (g_bucket g i) \<and> path then bind_op (deserialize True i) (\<lambda>_. return_op i) g
         else (Inr i, g))"

section \<open>Finding an entry\<close>

datatype lookup_reason = LookupRead | LookupWrite

record find_result =
  fr_group :: nat
  fr_data :: immutable_data
  fr_matching :: store_match
  fr_partition :: partition
  fr_context :: lore_context

definition ATIME_GRANULARITY_SECONDS :: nat where
  "ATIME_GRANULARITY_SECONDS = 60 * 60"

definition stamp_last_access ::
  "u64 \<Rightarrow> lookup_reason \<Rightarrow> nat \<Rightarrow> immutable_store_bucket \<Rightarrow> immutable_store_bucket" where
  "stamp_last_access now reason i b =
     (let data = e_data (entry b ! i);
          b' = set_data i (data \<lparr>last_access := now\<rparr>) b
      in if unat now - unat (last_access data) \<ge> ATIME_GRANULARITY_SECONDS
         then (case reason of LookupWrite \<Rightarrow> b' \<lparr>dirty := True\<rparr> | LookupRead \<Rightarrow> b' \<lparr>soft_dirty := True\<rparr>)
         else b')"

definition find_in_bucket ::
  "bool \<Rightarrow> u64 \<Rightarrow> nat \<Rightarrow> partition \<Rightarrow> address \<Rightarrow> lookup_reason \<Rightarrow> immutable_store_bucket \<Rightarrow> find_result \<times> immutable_store_bucket" where
  "find_in_bucket stamps now gi p a reason b =
     (let (match_slot, _, match_made) = lookup b p a MatchFull
      in if match_made = MatchNone
         then (\<lparr>fr_group = gi, fr_data = immutable_data_default, fr_matching = MatchNone, fr_partition = partition_default,
                fr_context = context_default\<rparr>, b)
         else
           let i = slot_index b match_slot;
               e = entry b ! i;
               obliterated = (d_flags (e_data e) AND PayloadObliterated = PayloadObliterated);
               b' = (if \<not> obliterated \<and> stamps then stamp_last_access now reason i b else b);
               data = (if obliterated then immutable_data_default \<lparr>d_flags := PayloadObliterated\<rparr> else e_data (entry b' ! i))
           in (\<lparr>fr_group = gi, fr_data = data, fr_matching = match_made, fr_partition = e_partition e, fr_context = e_context e\<rparr>, b'))"

definition find_entry :: "store_env \<Rightarrow> partition \<Rightarrow> address \<Rightarrow> lookup_reason \<Rightarrow> find_result store_op" where
  "find_entry env p a reason s =
     (let gi = group_index (addr_hash a)
      in on_group gi (bind_op (open_bucket (s_path s) (addr_hash a)) (\<lambda>i g.
           case find_in_bucket (atime (s_settings s)) (env_now env) gi p a reason (g_bucket g i) of
             (found, b) \<Rightarrow> (Inr found, set_bucket i b g))) s)"

section \<open>Storing\<close>

text \<open>\<open>store_entry\<close> of \<open>Store_Index\<close>, on the bucket of the address.\<close>

definition store_entry_of ::
  "store_env \<Rightarrow> partition \<Rightarrow> address \<Rightarrow> fragment \<Rightarrow> store_payload \<Rightarrow> bool \<Rightarrow> store_outcome store_op" where
  "store_entry_of env p a f payload force s =
     on_group (group_index (addr_hash a)) (bind_op (open_bucket (s_path s) (addr_hash a)) (\<lambda>i g.
       case store_entry (env_now env) (g_bucket g i) p a f payload force of
         Inl e \<Rightarrow> (Inl e, g)
       | Inr (b, outcome) \<Rightarrow> (Inr outcome, set_bucket i b g))) s"

text \<open>A payload written to the packstore of a group.\<close>

definition write_payload :: "store_env \<Rightarrow> nat \<Rightarrow> bytes \<Rightarrow> pack_store_ref store_run" where
  "write_payload env gi payload s =
     map_option (\<lambda>(r, ps). (r, set_group gi (s_group s gi \<lparr>packstore := ps\<rparr>) s))
       (pack_store_payload (env_locked env) (env_spread env) payload (packstore (s_group s gi)))"

definition store_payload_of ::
  "store_env \<Rightarrow> partition \<Rightarrow> address \<Rightarrow> fragment \<Rightarrow> bytes \<Rightarrow> bool \<Rightarrow> store_outcome store_run" where
  "store_payload_of env p a f payload force =
     bind_run (write_payload env (group_index (addr_hash a)) payload)
       (\<lambda>written. run_op (store_entry_of env p a f (Written written) force))"

text \<open>\<open>flush_later\<close>: that the delayed flush of a group is due.\<close>

definition flush_later :: "nat \<Rightarrow> u32 \<Rightarrow> local_immutable_store \<Rightarrow> local_immutable_store" where
  "flush_later gi fl s =
     (if fl AND PayloadStoredDurable = PayloadStoredDurable \<and> \<not> flush_background (s_settings s) then s
      else set_group gi (s_group s gi \<lparr>scheduled := True\<rparr>) s)"

definition load_payload :: "nat \<Rightarrow> immutable_data \<Rightarrow> bytes store_op" where
  "load_payload gi data =
     (if pack_file data = 0 then fail_op (Internal ''Load failed, no data stored locally'')
      else on_group gi (on_pack (pack_load (pack_file data) (pack_offset data) (d_size_payload data))))"

definition verify_written ::
  "store_env \<Rightarrow> partition \<Rightarrow> address \<Rightarrow> fragment \<Rightarrow> u32 \<Rightarrow> unit store_op" where
  "verify_written env p a f fragment_flags =
     bind_op (find_entry env p a LookupWrite) (\<lambda>found.
       if pack_file (fr_data found) = 0 then return_op ()
       else bind_op (load_payload (fr_group found) (fr_data found)) (\<lambda>data s.
         (bind_result
           (if fragment_flags AND PayloadCompressed \<noteq> 0
            then bind_result (decompress (env_codecs env) f data) (\<lambda>(_, content). Inr (env_hash env content))
            else Inr (env_hash env data))
           (\<lambda>h. if h \<noteq> addr_hash a then Inl (Internal ''Failed to verify written data'') else Inr ()), s)))"

definition outcome_written :: "store_env \<Rightarrow> partition \<Rightarrow> address \<Rightarrow> fragment \<Rightarrow> store_outcome \<Rightarrow> unit store_op" where
  "outcome_written env p a f outcome s =
     (let s' = (case flush_flags outcome of Some fl \<Rightarrow> flush_later (group_index (addr_hash a)) fl s | None \<Rightarrow> s)
      in case outcome of
           Stored fragment_flags pf \<Rightarrow>
             if verify_write (s_settings s) \<and> pf \<noteq> 0 \<and> fragment_flags AND PayloadObliterated = 0
             then verify_written env p a f fragment_flags s' else (Inr (), s')
         | _ \<Rightarrow> (Inr (), s'))"

definition store_fragment_entry ::
  "store_env \<Rightarrow> partition \<Rightarrow> address \<Rightarrow> fragment \<Rightarrow> bytes option \<Rightarrow> bool \<Rightarrow> unit store_run" where
  "store_fragment_entry env p a f payload force s =
     (if size_payload f = 0 then Some (Inl (Internal ''Invalid payload''), s)
      else if unat (size_payload f) > FRAGMENT_SIZE_THRESHOLD
      then Some (Inl (Internal ''fragment size_payload exceeds FRAGMENT_SIZE_THRESHOLD''), s)
      else if (case payload of Some bs \<Rightarrow> length bs \<noteq> unat (size_payload f) | None \<Rightarrow> False)
      then Some (Inl (Internal ''fragment payload length mismatch on store''), s)
      else
        bind_run (run_op (store_entry_of env p a f (if payload = None then Absent else Unwritten) force)) (\<lambda>outcome.
        bind_run (case (outcome, payload) of
                    (NeedsPayload, Some bs) \<Rightarrow> store_payload_of env p a f bs force
                  | _ \<Rightarrow> run_op (return_op outcome)) (\<lambda>outcome.
        run_op (outcome_written env p a f outcome))) s)"

text \<open>
  \<open>put\<close>. What it does with the entry it finds, once its fragment has passed the gate: an error, or the
  fragment it stores, if it stores one.
\<close>

definition put_decision :: "fragment \<Rightarrow> bytes option \<Rightarrow> bool \<Rightarrow> find_result \<Rightarrow> fragment option result" where
  "put_decision f payload force found =
     (let data = fr_data found
      in if fr_matching found = MatchFull \<and> payload = None \<and> d_flags data AND PayloadObliterated \<noteq> 0 then Inl PayloadNotFound
         else if fr_matching found \<noteq> MatchNone \<and> size_content f \<noteq> d_size_content data \<and> (\<not> force \<or> payload = None) \<and>
                 d_flags data AND PayloadObliterated = 0
         then Inl (Internal ''Hash collision'')
         else if fr_matching found = MatchFull then
           let new_payload = (pack_file data = 0 \<and> payload \<noteq> None);
               local_to_durable = (d_flags data AND PayloadStoredDurable = 0 \<and> flags f AND PayloadStoredDurable \<noteq> 0)
           in if new_payload \<or> local_to_durable \<or> force
              then Inr (Some (f \<lparr>flags := flags f OR (d_flags data AND PayloadStoredDurable)\<rparr>)) else Inr None
         else Inr (Some f))"

definition put ::
  "store_env \<Rightarrow> partition \<Rightarrow> address \<Rightarrow> fragment \<Rightarrow> bytes option \<Rightarrow> bool \<Rightarrow> unit store_run" where
  "put env p a fragment payload force s =
     (let f = fst (sanitise_fragment_behavior_flags fragment);
          payload_len = map_option length payload
      in case (if put_is_valid f payload_len then Inr () else refuse_put f payload_len True) of
           Inl e \<Rightarrow> Some (Inl e, s)
         | Inr _ \<Rightarrow>
             if force \<and> payload \<noteq> None then store_fragment_entry env p a f payload force s
             else
               bind_run (run_op (find_entry env p a LookupWrite)) (\<lambda>found s.
                 case put_decision f payload force found of
                   Inl e \<Rightarrow> Some (Inl e, s)
                 | Inr None \<Rightarrow> Some (Inr (), s)
                 | Inr (Some f') \<Rightarrow> store_fragment_entry env p a f' payload force s) s)"

section \<open>Reading\<close>

definition query_one :: "store_env \<Rightarrow> partition \<Rightarrow> address \<Rightarrow> store_match_result store_op" where
  "query_one env p a =
     bind_op (find_entry env p a LookupRead) (\<lambda>found. get_op (\<lambda>s.
       if d_flags (fr_data found) AND PayloadObliterated \<noteq> 0 \<or>
          fr_matching found < query_scope (isolate_partitions (s_settings s))
       then store_match_result_default
       else \<lparr>mr_match_made = fr_matching found, mr_partition = fr_partition found, mr_context = fr_context found,
              mr_stored_local = (pack_file (fr_data found) \<noteq> 0),
              mr_stored_durable = (d_flags (fr_data found) AND PayloadStoredDurable \<noteq> 0 \<or>
                implicit_durable_stored (s_settings s))\<rparr>))"

primrec query :: "store_env \<Rightarrow> partition \<Rightarrow> address list \<Rightarrow> store_match_result list store_op" where
  "query env p [] = return_op []"
| "query env p (a # as) = bind_op (query_one env p a) (\<lambda>r. bind_op (query env p as) (\<lambda>rs. return_op (r # rs)))"

definition get_metadata :: "store_env \<Rightarrow> partition \<Rightarrow> address \<Rightarrow> store_get_data store_op" where
  "get_metadata env p a =
     bind_op (find_entry env p a LookupRead) (\<lambda>found. get_op (\<lambda>s.
       let data = fr_data found
       in if d_flags data AND PayloadObliterated \<noteq> 0 \<or> fr_matching found < read_scope (isolate_partitions (s_settings s))
          then store_get_data_default
          else
            let stored = (stored_flags (d_flags data) (pack_file data)) OR
                  (if implicit_durable_stored (s_settings s) then PayloadStoredDurable else 0)
            in get_data_metadata \<lparr>flags = (d_flags data AND NOT PayloadStored) OR stored, size_payload = d_size_payload data,
                 size_content = d_size_content data\<rparr> (fr_matching found) (fr_partition found)))"

text \<open>What a read answers for the entry found: an error, or the fragment of its payload.\<close>

definition readable :: "immutable_store_settings \<Rightarrow> find_result \<Rightarrow> fragment result" where
  "readable settings found =
     (let data = fr_data found
      in if d_flags data AND PayloadObliterated \<noteq> 0 \<or> fr_matching found < read_scope (isolate_partitions settings)
         then Inl AddressNotFound
         else Inr \<lparr>flags = d_flags data OR (PayloadStoredLocal OR
                 (if implicit_durable_stored settings then PayloadStoredDurable else 0)),
               size_payload = d_size_payload data, size_content = d_size_content data\<rparr>)"

definition lift_result :: "'a result \<Rightarrow> ('s, 'a) op" where
  "lift_result r s = (r, s)"

definition get :: "store_env \<Rightarrow> partition \<Rightarrow> address \<Rightarrow> store_get_data store_op" where
  "get env p a =
     bind_op (find_entry env p a LookupRead) (\<lambda>found.
     bind_op (\<lambda>s. (readable (s_settings s) found, s)) (\<lambda>f.
       if pack_file (fr_data found) = 0 then fail_op PayloadNotFound
       else
         bind_op (lift_result (validate_fragment_payload f (unat (d_size_payload (fr_data found))))) (\<lambda>_.
         bind_op (load_payload (fr_group found) (fr_data found)) (\<lambda>payload.
         bind_op (lift_result (validate_fragment_payload f (length payload))) (\<lambda>_.
         return_op \<lparr>gd_fragment = f, gd_match_made = fr_matching found, gd_partition = fr_partition found,
           gd_payload = Some payload, gd_content = None\<rparr>)))))"

definition get_into :: "store_env \<Rightarrow> partition \<Rightarrow> address \<Rightarrow> bytes \<Rightarrow> (fragment \<times> payload_read) store_op" where
  "get_into env p a dst =
     bind_op (find_entry env p a LookupRead) (\<lambda>found.
     bind_op (\<lambda>s. (readable (s_settings s) found, s)) (\<lambda>f.
     bind_op (lift_result (validate_fragment_size f)) (\<lambda>_.
       let data = fr_data found
       in if pack_file data = 0 then fail_op PayloadNotFound
          else if \<not> payload_is_content f then
            bind_op (load_payload (fr_group found) data) (\<lambda>payload.
            bind_op (lift_result (validate_fragment_payload f (length payload))) (\<lambda>_. return_op (f, Returned payload)))
          else
            bind_op (lift_result (validate_buffer_capacity (unat (d_size_payload data)) (length dst))) (\<lambda>_.
            bind_op (on_group (fr_group found)
              (on_pack (pack_load_into (pack_file data) (pack_offset data) (d_size_payload data) dst))) (\<lambda>buffer.
            return_op (f, IntoBuffer buffer))))))"

section \<open>Copying and obliterating\<close>

definition copy ::
  "store_env \<Rightarrow> partition \<Rightarrow> address \<Rightarrow> partition \<Rightarrow> lore_context \<Rightarrow> bool \<Rightarrow> unit store_op" where
  "copy env source_partition source_address destination_partition destination_context durable s =
     (let gi = group_index (addr_hash source_address)
      in bind_op (on_group gi (bind_op (open_bucket (s_path s) (addr_hash source_address)) (\<lambda>i g.
           case copy_entry (env_now env) (g_bucket g i) source_partition source_address destination_partition
                  destination_context durable of
             Inl e \<Rightarrow> (Inl e, g)
           | Inr (b, changed) \<Rightarrow> (Inr changed, set_bucket i b g)))) (\<lambda>changed.
         modify_op (\<lambda>s. case changed of None \<Rightarrow> s | Some fl \<Rightarrow> flush_later gi fl s)) s)"

definition tombstone_of :: "partition \<Rightarrow> address \<Rightarrow> bool \<Rightarrow> tombstone_outcome store_op" where
  "tombstone_of p a compaction_stopped s =
     on_group (group_index (addr_hash a)) (bind_op (open_bucket (s_path s) (addr_hash a)) (\<lambda>i g.
       case tombstone (g_bucket g i) p a compaction_stopped of
         Inl e \<Rightarrow> (Inl e, g)
       | Inr (b, outcome) \<Rightarrow> (Inr outcome, set_bucket i b g))) s"

definition untombstone_of :: "partition \<Rightarrow> address \<Rightarrow> immutable_data \<Rightarrow> local_immutable_store \<Rightarrow> local_immutable_store" where
  "untombstone_of p a original s =
     (let gi = group_index (addr_hash a);
          g = s_group s gi;
          i = bucket_of (addr_hash a) g
      in set_group gi (set_bucket i (untombstone (g_bucket g i) p a original) g) s)"

definition write_bucket_of :: "hash \<Rightarrow> unit group_op" where
  "write_bucket_of h g =
     (let i = bucket_of h g;
          g' = set_bucket i (g_bucket g i \<lparr>dirty := True\<rparr>) g
      in if fan_out_uncommitted g' then flush_locked_group True g'
         else bind_op commit_if_initial_level (\<lambda>_. serialize i True) g')"

record obliterate_stats =
  num_fragments :: nat
  num_payloads :: nat

text \<open>
  The tombstone is tried with compaction running, and again once it is held off where its payload is to
  be zeroed. A second answer that compaction must stop cannot come, and would be tried for again.
\<close>

definition zero_payload :: "partition \<Rightarrow> address \<Rightarrow> immutable_data \<Rightarrow> obliterate_stats \<Rightarrow> obliterate_stats store_op" where
  "zero_payload p a original stats s =
     (let gi = group_index (addr_hash a)
      in case (if s_path s then on_group gi (write_bucket_of (addr_hash a)) s else (Inr (), s)) of
           (Inl e, s1) \<Rightarrow> (Inl e, untombstone_of p a original s1)
         | (Inr _, s1) \<Rightarrow>
             bind_op (on_group gi (on_pack (pack_obliterate (pack_file original) (pack_offset original) (d_size_payload original))))
               (\<lambda>_. return_op (stats \<lparr>num_payloads := num_payloads stats + 1, num_fragments := num_fragments stats + 1\<rparr>)) s1)"

definition obliterate_tombstoned ::
  "partition \<Rightarrow> address \<Rightarrow> obliterate_stats \<Rightarrow> tombstone_outcome \<Rightarrow> obliterate_stats option store_op" where
  "obliterate_tombstoned p a stats outcome s =
     (case outcome of
        Already \<Rightarrow> (Inr (Some stats), s)
      | TombKept \<Rightarrow> (Inr (Some (stats \<lparr>num_fragments := num_fragments stats + 1\<rparr>)),
          flush_later (group_index (addr_hash a)) PayloadObliterated s)
      | Zero original \<Rightarrow> bind_op (zero_payload p a original stats) (\<lambda>st. return_op (Some st)) s
      | ZeroOnceCompactionStops \<Rightarrow> (Inr None, s))"

definition obliterate_one :: "partition \<Rightarrow> address \<Rightarrow> obliterate_stats \<Rightarrow> obliterate_stats option store_op" where
  "obliterate_one p a stats =
     bind_op (tombstone_of p a False) (\<lambda>outcome.
     bind_op (obliterate_tombstoned p a stats outcome) (\<lambda>ended.
       case ended of
         Some st \<Rightarrow> return_op (Some st)
       | None \<Rightarrow> bind_op (tombstone_of p a True) (obliterate_tombstoned p a stats)))"

text \<open>\<open>obliterate\<close>, which first obliterates what a fragment list names.\<close>

definition obliterate_references :: "store_env \<Rightarrow> partition \<Rightarrow> address \<Rightarrow> hash list store_op" where
  "obliterate_references env p a =
     bind_op (find_entry env p a LookupWrite) (\<lambda>found.
       let data = fr_data found
       in if fr_matching found \<noteq> MatchFull then fail_op AddressNotFound
          else if d_flags data AND PayloadFragmented = 0 then return_op []
          else if pack_file data = 0 then fail_op PayloadNotFound
          else bind_op (load_payload (group_index (addr_hash a)) data) (\<lambda>payload.
            return_op (map ref_hash (as_type_slice payload))))"

text \<open>
  Its recursion as the work left: a fragment to visit, or, once what it names is gone, the fragment
  itself. An error ends it. A list that named itself would be followed for ever.
\<close>

datatype obliterate_work = Visit address | Finish address

partial_function (option) obliterate_loop ::
  "store_env \<Rightarrow> partition \<Rightarrow> obliterate_work list \<Rightarrow> obliterate_stats \<Rightarrow> local_immutable_store \<Rightarrow>
   (obliterate_stats result \<times> local_immutable_store) option" where
  "obliterate_loop env p work stats s =
     (case work of
        [] \<Rightarrow> Some (Inr stats, s)
      | Visit a # ws \<Rightarrow>
          (case obliterate_references env p a s of
             (Inl e, s') \<Rightarrow> Some (Inl e, s')
           | (Inr hs, s') \<Rightarrow>
               obliterate_loop env p (map (\<lambda>h. Visit (Address h (addr_context a))) hs @ Finish a # ws) stats s')
      | Finish a # ws \<Rightarrow>
          (case obliterate_one p a stats s of
             (Inl e, s') \<Rightarrow> Some (Inl e, s')
           | (Inr None, s') \<Rightarrow> obliterate_loop env p (Finish a # ws) stats s'
           | (Inr (Some stats'), s') \<Rightarrow> obliterate_loop env p ws stats' s'))"

definition obliterate :: "store_env \<Rightarrow> partition \<Rightarrow> address \<Rightarrow> obliterate_stats \<Rightarrow> obliterate_stats store_run" where
  "obliterate env p a stats = obliterate_loop env p [Visit a] stats"

end
