(* ===== verification/Content_Store.thy ===== *)
theory Content_Store
  imports Store_Interface
begin

text \<open>
  What an immutable store promises those who write content to it and read it back: the contract
  between \<open>ImmutableStore\<close> and the read and write paths.

  Content is a fragment as it is once expanded: whether it is a fragment list, the size of what it
  stands for, and its bytes. A store is addressed by hashes, so the contract is about a set of
  contents no two of which share a hash. The local store provides it, see \<open>Local_Store_Laws\<close>.
\<close>

section \<open>Content\<close>

type_synonym content = "bool \<times> u64 \<times> bytes"

abbreviation content_bytes :: "content \<Rightarrow> bytes" where
  "content_bytes c \<equiv> snd (snd c)"

abbreviation content_size :: "content \<Rightarrow> u64" where
  "content_size c \<equiv> fst (snd c)"

text \<open>A payload stands for the content it expands to.\<close>

definition means :: "codecs \<Rightarrow> fragment \<Rightarrow> bytes \<Rightarrow> content \<Rightarrow> bool" where
  "means cd f payload c \<longleftrightarrow>
     (\<exists>f'. expand_payload cd f payload = Inr (f', content_bytes c)) \<and> size_content f = content_size c \<and>
     (flags f AND PayloadFragmented \<noteq> 0 \<longleftrightarrow> fst c)"

definition coherent :: "(bytes \<Rightarrow> hash) \<Rightarrow> content set \<Rightarrow> bool" where
  "coherent hash_of contents \<longleftrightarrow> inj_on (\<lambda>c. hash_of (content_bytes c)) contents"

lemma coherentD:
  "coherent hash_of contents \<Longrightarrow> c \<in> contents \<Longrightarrow> c' \<in> contents \<Longrightarrow>
   hash_of (content_bytes c) = hash_of (content_bytes c') \<Longrightarrow> c = c'"
  by (auto simp: coherent_def dest: inj_onD)

text \<open>Only the bits that say how a payload is represented matter to what it means.\<close>

definition REPRESENTATION :: u32 where
  "REPRESENTATION = PayloadFragmented OR PayloadCompressed"

lemma representation_bits:
  assumes "x AND REPRESENTATION = y AND REPRESENTATION" "m AND REPRESENTATION = m"
  shows "x AND m = y AND m"
proof -
  have "REPRESENTATION AND m = m" using assms(2) by (simp add: and.commute)
  then have "z AND m = (z AND REPRESENTATION) AND m" for z :: u32 by (simp add: and.assoc)
  then show ?thesis using assms(1) by metis
qed

lemma representation_masks:
  "PayloadFragmented AND REPRESENTATION = PayloadFragmented" "PayloadCompressed AND REPRESENTATION = PayloadCompressed"
  "PayloadCompressedLZ4 AND REPRESENTATION = PayloadCompressedLZ4"
  "PayloadCompressedZstd AND REPRESENTATION = PayloadCompressedZstd"
  "PayloadCompressedOodle2 AND REPRESENTATION = PayloadCompressedOodle2"
  by (simp_all add: REPRESENTATION_def flag_simps)

lemma decoded_iff:
  "(\<exists>f'. (if c1 then Inl e1
         else if c2 then (case o1 of None \<Rightarrow> Inl e2 | Some bs \<Rightarrow> if len bs then Inl e3 else Inr (f, bs))
         else if c3 then Inl e4
         else if c4 then (if c5 then Inl e5 else case o2 of None \<Rightarrow> Inl e6 | Some bs \<Rightarrow> if len bs then Inl e7 else Inr (f, bs))
         else Inl e8) = Inr (f', b)) \<longleftrightarrow>
   (\<not> c1 \<and> (if c2 then o1 = Some b \<and> \<not> len b else \<not> c3 \<and> c4 \<and> \<not> c5 \<and> o2 = Some b \<and> \<not> len b))"
  by (auto split: option.splits)

lemma expand_payload_cong:
  assumes "flags f AND REPRESENTATION = flags g AND REPRESENTATION" "size_payload f = size_payload g"
    "size_content f = size_content g"
  shows "(\<exists>f'. expand_payload cd f payload = Inr (f', b)) \<longleftrightarrow> (\<exists>g'. expand_payload cd g payload = Inr (g', b))"
proof -
  note bits = representation_masks [THEN representation_bits [OF assms(1)]]
  have "check_payload_sizes f n = check_payload_sizes g n" for n
    by (simp add: check_payload_sizes_def validate_fragment_payload_def validate_fragment_size_def
        validate_plain_payload_size_def payload_is_plain_def assms(2,3) bits)
  moreover have "(\<exists>f'. decompress cd f payload = Inr (f', b)) \<longleftrightarrow> (\<exists>g'. decompress cd g payload = Inr (g', b))"
    unfolding decompress_def decompress_into_def Let_def assms(2,3) bits decoded_iff ..
  ultimately show ?thesis
    unfolding expand_payload_def bits by (cases "check_payload_sizes g (length payload)") auto
qed

lemma means_cong:
  assumes "flags f AND REPRESENTATION = flags g AND REPRESENTATION" "size_payload f = size_payload g"
    "size_content f = size_content g"
  shows "means cd f payload c \<longleftrightarrow> means cd g payload c"
  unfolding means_def expand_payload_cong [OF assms] assms(3)
    representation_bits [OF assms(1) representation_masks(1)] ..

lemma means_valid:
  assumes "means cd f payload c"
  shows "validate_fragment_payload f (length payload) = Inr ()" "length payload = unat (size_payload f)"
    "check_payload_sizes f (length payload) = Inr ()"
proof -
  from assms have ok: "check_payload_sizes f (length payload) = Inr ()"
    by (cases "check_payload_sizes f (length payload)") (auto simp: means_def expand_payload_def)
  then show v: "validate_fragment_payload f (length payload) = Inr ()"
    by (cases "validate_fragment_payload f (length payload)") (auto simp: check_payload_sizes_def)
  then show "length payload = unat (size_payload f)"
    by (cases "validate_fragment_size f") (auto simp: validate_fragment_payload_def split: if_splits)
  show "check_payload_sizes f (length payload) = Inr ()" by (rule ok)
qed

lemma decompress_fragment: "decompress cd f payload = Inr (f', b) \<Longrightarrow> f' = decompressed_fragment f"
  unfolding decompress_def decompress_into_def Let_def by (simp split: if_split_asm option.split_asm)

text \<open>The fragment expansion gives back has the size and the kind of the content.\<close>

lemma means_expands:
  assumes "means cd f payload c"
  obtains f' where "expand_payload cd f payload = Inr (f', content_bytes c)" "size_content f' = content_size c"
    "flags f' AND PayloadFragmented = flags f AND PayloadFragmented" "(flags f AND PayloadFragmented \<noteq> 0) = fst c"
proof -
  obtain f' where f': "expand_payload cd f payload = Inr (f', content_bytes c)"
    "size_content f = content_size c" "(flags f AND PayloadFragmented \<noteq> 0) = fst c"
    using assms by (auto simp: means_def)
  have clear: "(x AND NOT PayloadCompressed) AND PayloadFragmented = x AND PayloadFragmented" for x :: u32
    by (simp add: flag_simps and.assoc)
  have "f' = f \<or> f' = decompressed_fragment f"
    using f'(1) decompress_fragment unfolding expand_payload_def
    by (cases "check_payload_sizes f (length payload)") (auto split: if_splits)
  with f' that [OF f'(1)] show thesis by (auto simp: decompressed_fragment_def clear)
qed

end
