(* ===== verification/Store_Index_Laws.thy ===== *)
theory Store_Index_Laws
  imports Store_Index
begin

text \<open>
  What the operations on a bucket promise: the search finds the best match, a store, a copy and a
  tombstone keep the order of the bucket and the agreement of its flags with its payloads, and their
  effect on the map from keys to data is the one the documentation of the source gives.
\<close>

section \<open>A bucket of two associations\<close>

text \<open>
  Two live associations of one hash in one partition, in contexts 1 and 2, neither with a payload:
  the bucket the concrete instances below evaluate.
\<close>

definition sample_data :: "u32 \<Rightarrow> immutable_data" where
  "sample_data pf = \<lparr>d_flags = (if pf = 0 then 0 else PayloadStoredLocal), d_size_payload = 10, d_size_content = 10,
     pack_offset = 0, pack_file = pf, last_access = 0\<rparr>"

definition sample_address :: "128 word \<Rightarrow> address" where
  "sample_address c = Address (Hash 5) (Context c)"

definition sample_bucket :: "u32 \<Rightarrow> u32 \<Rightarrow> immutable_store_bucket" where
  "sample_bucket pf1 pf2 = \<lparr>
     entry = [\<lparr>e_address = sample_address 1, e_partition = Partition 1, e_data = sample_data pf1\<rparr>,
              \<lparr>e_address = sample_address 2, e_partition = Partition 1, e_data = sample_data pf2\<rparr>],
     sorted_index = [0, 1], deserialized = True, upgrade_packfile = False, dirty = False, soft_dirty = False\<rparr>"

definition sample_fragment :: fragment where
  "sample_fragment = \<lparr>flags = 0, size_payload = 10, size_content = 10\<rparr>"

lemmas sample_simps = sample_data_def sample_address_def sample_bucket_def sample_fragment_def

lemma bucket_ok_sample: "bucket_ok (sample_bucket pf1 pf2)"
  by (simp add: bucket_ok_def index_ok_def bucket_sorted_def slots_def key_of_def sample_simps less_lore_context_def)

section \<open>Flags and payloads agree\<close>

definition local_ok :: "immutable_data \<Rightarrow> bool" where
  "local_ok d \<longleftrightarrow> (d_flags d AND PayloadStoredLocal \<noteq> 0 \<longleftrightarrow> pack_file d \<noteq> 0)"

lemma not_stored_local [simp]: "(x AND NOT PayloadStored) AND PayloadStoredLocal = 0"
  by (simp add: flag_simps and.assoc)

lemma stored_flags_local: "stored_flags fl pf AND PayloadStoredLocal = (if pf \<noteq> 0 then PayloadStoredLocal else 0)"
  by (simp add: stored_flags_def Let_def flag_simps bit.conj_disj_distrib2 and.assoc)

lemma local_flags: "((fl AND NOT PayloadStored) OR stored_flags fl' pf) AND PayloadStoredLocal \<noteq> 0 \<longleftrightarrow> pf \<noteq> 0"
proof -
  have "((fl AND NOT PayloadStored) OR stored_flags fl' pf) AND PayloadStoredLocal
      = stored_flags fl' pf AND PayloadStoredLocal"
    by (simp add: bit.conj_disj_distrib2)
  then show ?thesis by (simp add: stored_flags_local) (simp add: flag_simps)
qed

lemma not_stored_flags [simp]:
  "((x AND NOT PayloadStored) OR stored_flags y pf) AND NOT PayloadStored = x AND NOT PayloadStored"
  "((x AND NOT PayloadStored) OR (y AND PayloadStored)) AND NOT PayloadStored = x AND NOT PayloadStored"
proof -
  have "stored_flags y pf AND NOT PayloadStored = 0"
    by (simp add: stored_flags_def Let_def flag_simps bit.conj_disj_distrib2 and.assoc)
  then show "((x AND NOT PayloadStored) OR stored_flags y pf) AND NOT PayloadStored = x AND NOT PayloadStored"
    by (simp add: bit.conj_disj_distrib2 and.assoc)
  show "((x AND NOT PayloadStored) OR (y AND PayloadStored)) AND NOT PayloadStored = x AND NOT PayloadStored"
    by (simp add: bit.conj_disj_distrib2 and.assoc)
qed

lemma local_ok_assign [simp]: "local_ok (assign_deduplicated_payload d data)"
  by (simp add: local_ok_def assign_deduplicated_payload_def local_flags)

lemma local_ok_upgrade: "local_ok d \<Longrightarrow> local_ok (upgrade data d)"
  by (simp add: upgrade_def)

lemma local_ok_tombstone [simp]: "local_ok tombstone_data"
  by (simp add: local_ok_def tombstone_data_def flag_simps)

lemma local_ok_durable: "d_flags d OR PayloadStoredDurable = fl \<Longrightarrow> local_ok d \<Longrightarrow> local_ok (d \<lparr>d_flags := fl\<rparr>)"
  by (auto simp: local_ok_def bit.conj_disj_distrib2 flag_simps)

lemma local_ok_merge: "local_ok (merge_from_copy_source d s durable)"
proof -
  let ?m = "assign_deduplicated_payload (d \<lparr>d_size_content := d_size_content s\<rparr>) s"
  have "local_ok ?m" "local_ok (?m \<lparr>d_flags := d_flags ?m OR PayloadStoredDurable\<rparr>)"
    using local_ok_durable [OF refl, of ?m] by simp_all
  then show ?thesis by (simp add: merge_from_copy_source_def Let_def)
qed

lemma local_ok_access [simp]: "local_ok (d \<lparr>last_access := t\<rparr>) = local_ok d"
  by (simp add: local_ok_def)

definition bucket_local :: "immutable_store_bucket \<Rightarrow> bool" where
  "bucket_local b \<longleftrightarrow> (\<forall>d \<in> ran (assoc b). local_ok d)"

lemma assoc_sample:
  "assoc (sample_bucket pf1 pf2) =
     [(Hash 5, Partition 1, Context 1) \<mapsto> sample_data pf1, (Hash 5, Partition 1, Context 2) \<mapsto> sample_data pf2]"
  by (rule ext) (simp add: assoc_def slots_def key_of_def sample_bucket_def sample_address_def)

lemma bucket_local_sample: "bucket_local (sample_bucket pf1 pf2)"
  by (auto simp: bucket_local_def assoc_sample ran_def local_ok_def sample_data_def flag_simps split: if_splits)

lemma lookup_sample:
  "lookup (sample_bucket pf1 pf2) (Partition 1) (sample_address 1) MatchFull = (0, 0, MatchFull)"
  "lookup (sample_bucket pf1 pf2) (Partition 1) (sample_address 2) MatchFull = (1, 0, MatchFull)"
  "lookup (sample_bucket pf1 pf2) (Partition 1) (sample_address 3) MatchFull = (1, 2, MatchPartition)"
  by (simp_all add: lookup_def lookup_loop.simps sample_simps less_lore_context_def Let_def)

section \<open>The cases of a store\<close>

text \<open>The data a store writes: the payload of a matched entry, the one written, or none.\<close>

definition adopts ::
  "immutable_store_bucket \<Rightarrow> address \<Rightarrow> fragment \<Rightarrow> immutable_data \<Rightarrow> bool" where
  "adopts b a f d \<longleftrightarrow>
     (\<exists>k d0. assoc b k = Some d0 \<and> fst k = addr_hash a \<and> pack_file d0 \<noteq> 0 \<and> same_location d d0 \<and>
        d_size_payload d = d_size_payload d0 \<and> d_flags d AND NOT PayloadStored = d_flags d0 AND NOT PayloadStored \<and>
        (d_size_content d0 = size_content f \<or> \<not> live d0))"

definition fresh_data :: "u64 \<Rightarrow> fragment \<Rightarrow> pack_store_ref option \<Rightarrow> immutable_data" where
  "fresh_data now f r =
     (let pf = (case r of None \<Rightarrow> 0 | Some r \<Rightarrow> ref_id r)
      in \<lparr>d_flags = (flags f AND NOT PayloadStored) OR stored_flags (flags f) pf,
          d_size_payload = size_payload f, d_size_content = size_content f,
          pack_offset = (case r of None \<Rightarrow> 0 | Some r \<Rightarrow> ref_offset r), pack_file = pf, last_access = now\<rparr>)"

definition stores ::
  "u64 \<Rightarrow> immutable_store_bucket \<Rightarrow> address \<Rightarrow> fragment \<Rightarrow> store_payload \<Rightarrow> immutable_data \<Rightarrow> bool" where
  "stores now b a f payload d \<longleftrightarrow>
     d_size_content d = size_content f \<and> last_access d = now \<and> local_ok d \<and>
     (adopts b a f d \<or>
      (\<exists>r. payload = Written r \<and> d = fresh_data now f (Some r)) \<or>
      (payload = Absent \<and> pack_file d = 0 \<and> d_flags d = d_flags (fresh_data now f None) \<and>
       d_size_payload d = size_payload f))"

text \<open>A store answers with an error, keeps the entry, asks for its payload, or writes data.\<close>

lemma store_entry_cases:
  assumes ok: "bucket_ok b" and st: "store_entry now b p a f payload force = Inr (b', out)"
    and lk: "lookup b p a MatchFull = (m, ins, made)"
  obtains
    (kept) "made = MatchFull" "(b', out) = keep_entry b (slot_index b m) f"
      "(\<not> force \<and> pack_file (e_data (slot_entry b m)) \<noteq> 0) \<or> payload = Absent"
  | (needs) "out = NeedsPayload" "b' = b" "payload = Unwritten"
  | (stored) d fl where "out = Stored fl (pack_file d)" "b' = store_data b m ins made p a d"
      "stores now b a f payload d" "payload \<noteq> Unwritten \<or> adopts b a f d"
proof -
  let ?old = "e_data (slot_entry b m)"
  let ?dedup = "made \<noteq> MatchNone \<and> (\<not> force \<or> payload = Absent)"
  let ?adopt = "?dedup \<and> pack_file ?old \<noteq> 0"
  have match: "made \<noteq> MatchNone \<Longrightarrow> m < length (sorted_index b) \<and>
      assoc b (key_of (slots b ! m)) = Some ?old \<and> fst (key_of (slots b ! m)) = addr_hash a"
    using lookup_cases(2) [OF ok lk] assoc_nth [OF ok, of m]
    by (auto simp: slots_nth match_level_def split: if_splits)
  consider "made = MatchFull \<and> ((\<not> force \<and> pack_file ?old \<noteq> 0) \<or> payload = Absent)"
    | "\<not> (made = MatchFull \<and> ((\<not> force \<and> pack_file ?old \<noteq> 0) \<or> payload = Absent))" by blast
  then show thesis
  proof cases
    case 1
    with st show thesis
      by (intro kept) (auto simp: store_entry_def lk Let_def split: if_splits)
  next
    case 2
    let ?fl = "if ?adopt then (d_flags ?old AND NOT PayloadStored) OR (flags f AND PayloadStored) else flags f"
    let ?sp = "if ?adopt then d_size_payload ?old else size_payload f"
    let ?wr = "payload \<noteq> Absent \<and> \<not> ?adopt"
    let ?pfx = "if ?dedup then pack_file ?old else 0" and ?pox = "if ?dedup then pack_offset ?old else 0"
    let ?pf = "case payload of Written r \<Rightarrow> if ?wr then ref_id r else ?pfx | _ \<Rightarrow> ?pfx"
    let ?po = "case payload of Written r \<Rightarrow> if ?wr then ref_offset r else ?pox | _ \<Rightarrow> ?pox"
    let ?d = "\<lparr>d_flags = (?fl AND NOT PayloadStored) OR stored_flags ?fl ?pf, d_size_payload = ?sp,
      d_size_content = size_content f, pack_offset = ?po, pack_file = ?pf, last_access = now\<rparr>"
    have st': "(if ?wr \<and> payload = Unwritten then (b, NeedsPayload)
        else (store_data b m ins made p a ?d, Stored ?fl ?pf)) = (b', out)"
      using st 2 by (cases payload) (auto simp: store_entry_def lk Let_def split: if_splits)
    define d where "d = ?d"
    have fin: "(b', out) = (store_data b m ins made p a d, Stored ?fl (pack_file d))"
      if nw: "\<not> (?wr \<and> payload = Unwritten)"
      using st' unfolding if_not_P [OF nw] by (simp add: d_def)
    have lok: "local_ok d" by (simp add: d_def local_ok_def local_flags)
    have size: "made \<noteq> MatchNone \<Longrightarrow> d_size_content ?old = size_content f \<or> \<not> live ?old"
      using st by (auto simp: store_entry_def lk Let_def live_def split: if_splits)
    consider (a) "?adopt" | (w) r where "\<not> ?adopt" "payload = Written r"
      | (n) "\<not> ?adopt" "payload = Absent" | (u) "\<not> ?adopt" "payload = Unwritten"
      by (cases payload) blast+
    then show thesis
    proof cases
      case a
      have d: "pack_file d = pack_file ?old" "pack_offset d = pack_offset ?old" "d_size_payload d = d_size_payload ?old"
        "d_flags d AND NOT PayloadStored = d_flags ?old AND NOT PayloadStored"
        "d_size_content d = size_content f" "last_access d = now"
        using a by (cases payload; auto simp: d_def not_stored_flags)+
      have ad: "adopts b a f d"
        unfolding adopts_def using match d size a
        by (intro exI [of _ "key_of (slots b ! m)"] exI [of _ ?old]) (auto simp: same_location_def)
      have "(b', out) = (store_data b m ins made p a d, Stored ?fl (pack_file d))"
        using a by (intro fin) auto
      with ad lok d show thesis by (intro stored [of ?fl d]) (auto simp: stores_def)
    next
      case w
      have d: "d = fresh_data now f (Some r)" using w by (auto simp: d_def fresh_data_def Let_def)
      have "(b', out) = (store_data b m ins made p a d, Stored ?fl (pack_file d))"
        using w by (intro fin) auto
      with lok d w show thesis
        by (intro stored [of ?fl d]) (auto simp: stores_def fresh_data_def Let_def)
    next
      case n
      have d: "pack_file d = 0" "d_flags d = d_flags (fresh_data now f None)" "d_size_payload d = size_payload f"
        "d_size_content d = size_content f" "last_access d = now"
        using n by (auto simp: d_def fresh_data_def Let_def)
      have "(b', out) = (store_data b m ins made p a d, Stored ?fl (pack_file d))"
        using n by (intro fin) auto
      with lok d n show thesis by (intro stored [of ?fl d]) (auto simp: stores_def)
    next
      case u
      with st' show thesis by (intro needs) auto
    qed
  qed
qed

section \<open>The effect of a store on a bucket\<close>

definition kept_data :: "fragment \<Rightarrow> immutable_data \<Rightarrow> immutable_data" where
  "kept_data f d = d \<lparr>d_flags := (d_flags d AND NOT PayloadStored) OR stored_flags (flags f) (pack_file d)\<rparr>"

lemma and_not_or_and: "((x :: u32) AND NOT m) OR (x AND m) = x"
  by (rule bit_word_eqI) (auto simp: bit_simps)

lemma keep_entry_effect:
  assumes "bucket_ok b" "m < length (sorted_index b)" "key_of (slots b ! m) = k"
    "keep_entry b (slot_index b m) f = (b', out)"
  shows "bucket_ok b' \<and> length (entry b') = length (entry b) \<and> (\<exists>c. out = Kept c) \<and>
    assoc b' = (assoc b)(k \<mapsto> kept_data f (e_data (slot_entry b m)))"
proof -
  let ?old = "e_data (slot_entry b m)"
  have "assoc b k = Some ?old" using assoc_nth [OF assms(1,2)] assms(2,3) by (simp add: slots_nth)
  moreover have "kept_data f ?old = ?old" if "stored_flags (flags f) (pack_file ?old) = d_flags ?old AND PayloadStored"
    using that by (simp add: kept_data_def and_not_or_and)
  ultimately show ?thesis
    using assms bucket_ok_set_data [OF assms(1,2)] assoc_set_data [OF assms(1-3)]
    by (auto simp: keep_entry_def Let_def kept_data_def split: if_splits)
qed

definition others_upgraded ::
  "hash \<Rightarrow> immutable_data \<Rightarrow> entry_key \<Rightarrow> (entry_key \<rightharpoonup> immutable_data) \<Rightarrow> (entry_key \<rightharpoonup> immutable_data) \<Rightarrow> bool" where
  "others_upgraded h d k M M' \<longleftrightarrow>
     (\<forall>k'. k' \<noteq> k \<longrightarrow> M' k' = M k' \<or> (fst k' = h \<and> pack_file d \<noteq> 0 \<and> M' k' = map_option (upgrade d) (M k')))"

definition store_effect ::
  "u64 \<Rightarrow> immutable_store_bucket \<Rightarrow> partition \<Rightarrow> address \<Rightarrow> fragment \<Rightarrow> store_payload \<Rightarrow> bool \<Rightarrow>
   immutable_store_bucket \<Rightarrow> store_outcome \<Rightarrow> bool" where
  "store_effect now b p a f payload force b' out \<longleftrightarrow>
      (out = NeedsPayload \<and> b' = b \<and> payload = Unwritten) \<or>
      (\<exists>c d. out = Kept c \<and> assoc b (key p a) = Some d \<and> assoc b' = (assoc b)(key p a \<mapsto> kept_data f d) \<and>
         ((\<not> force \<and> pack_file d \<noteq> 0) \<or> payload = Absent)) \<or>
      (\<exists>fl d. out = Stored fl (pack_file d) \<and> stores now b a f payload d \<and> (payload \<noteq> Unwritten \<or> adopts b a f d) \<and>
         assoc b' (key p a) = Some d \<and> others_upgraded (addr_hash a) d (key p a) (assoc b) (assoc b') \<and>
         (assoc b (key p a) = None \<longrightarrow> pack_file d \<noteq> 0 \<longrightarrow>
            (\<forall>k. fst k = addr_hash a \<longrightarrow> k \<noteq> key p a \<longrightarrow> assoc b' k = map_option (upgrade d) (assoc b k))))"

lemma store_entry_effect:
  assumes ok: "bucket_ok b" and len: "length (entry b) < 2 ^ 32"
    and st: "store_entry now b p a f payload force = Inr (b', out)"
  shows "bucket_ok b' \<and> length (entry b') \<le> Suc (length (entry b)) \<and>
    store_effect now b p a f payload force b' out"
proof -
  obtain m ins made where lk: "lookup b p a MatchFull = (m, ins, made)" by (metis prod.exhaust)
  show ?thesis
    using ok st lk
  proof (cases rule: store_entry_cases)
    case kept
    then have lk': "lookup b p a MatchFull = (m, ins, MatchFull)" using lk by simp
    note full = lookup_full [OF ok lk']
    from keep_entry_effect [OF ok full(1,2) kept(2) [symmetric]] full(3) kept(3) show ?thesis by (auto simp: store_effect_def)
  next
    case needs
    with ok show ?thesis by (simp add: store_effect_def)
  next
    case (stored d fl)
    show ?thesis
    proof (cases "made = MatchFull")
      case True
      then have lk': "lookup b p a MatchFull = (m, ins, MatchFull)" using lk by simp
      note eff = store_data_full [OF ok lk', where d = d]
      have "assoc b (key p a) \<noteq> None" using lookup_full [OF ok lk'] by simp
      moreover have "others_upgraded (addr_hash a) d (key p a) (assoc b) (assoc b')"
        using eff(4) stored(2) True by (auto simp: others_upgraded_def)
      ultimately show ?thesis using eff(1-3) stored True by (auto simp: store_effect_def)
    next
      case False
      note eff = store_data_new [OF ok lk False len, where d = d]
      have "others_upgraded (addr_hash a) d (key p a) (assoc b) (assoc b')"
        using eff(3) stored(2) by (auto simp: others_upgraded_def)
      then show ?thesis using eff stored by (auto simp: store_effect_def)
    qed
  qed
qed

text \<open>A predicate on the data of a bucket survives a store when it survives what a store does to data.\<close>

lemma store_entry_ran:
  assumes "bucket_ok b" "length (entry b) < 2 ^ 32" "store_entry now b p a f payload force = Inr (b', out)"
    and old: "\<And>k d. assoc b k = Some d \<Longrightarrow> P (fst k) d"
    and kept: "\<And>d. P (addr_hash a) d \<Longrightarrow> P (addr_hash a) (kept_data f d)"
    and new: "\<And>d. stores now b a f payload d \<Longrightarrow> payload \<noteq> Unwritten \<or> adopts b a f d \<Longrightarrow> P (addr_hash a) d"
    and upg: "\<And>d d'. P (addr_hash a) d \<Longrightarrow> P (addr_hash a) d' \<Longrightarrow> pack_file d \<noteq> 0 \<Longrightarrow> P (addr_hash a) (upgrade d d')"
    and some: "assoc b' k = Some x"
  shows "P (fst k) x"
proof -
  have "store_effect now b p a f payload force b' out" using store_entry_effect [OF assms(1-3)] by blast
  then consider (same) "b' = b"
    | (keep) d where "assoc b (key p a) = Some d" "assoc b' = (assoc b)(key p a \<mapsto> kept_data f d)"
    | (store) d where "stores now b a f payload d" "payload \<noteq> Unwritten \<or> adopts b a f d"
      "assoc b' (key p a) = Some d" "others_upgraded (addr_hash a) d (key p a) (assoc b) (assoc b')"
    unfolding store_effect_def by blast
  then show ?thesis
  proof cases
    case same
    with old some show ?thesis by simp
  next
    case keep
    with old [of k] old [of "key p a"] kept some show ?thesis by (cases "k = key p a") auto
  next
    case d: (store d)
    then have P: "P (addr_hash a) d" using new by blast
    show ?thesis
    proof (cases "k = key p a")
      case True
      with d(3) some P show ?thesis by simp
    next
      case False
      then have "assoc b' k = assoc b k \<or>
          (fst k = addr_hash a \<and> pack_file d \<noteq> 0 \<and> assoc b' k = map_option (upgrade d) (assoc b k))"
        using d(4) unfolding others_upgraded_def by blast
      with some old [of k] upg [OF P] show ?thesis by (elim disjE) auto
    qed
  qed
qed

text \<open>
  C19. Storing an entry, on every branch, keeps the bucket in order: its index remains a permutation
  of its entries that sorts them strictly by hash, partition and context. And it keeps the flag that
  says a payload is stored locally equal to whether the entry points at one.
\<close>

theorem store_entry_keeps_bucket:
  assumes "bucket_ok b" "bucket_local b" "length (entry b) < 2 ^ 32"
    "store_entry now b p a fragment payload force = Inr (b', outcome)"
  shows "bucket_ok b' \<and> bucket_local b' \<and> length (entry b') \<le> Suc (length (entry b))"
proof -
  have "local_ok d" if "assoc b' k = Some d" for k d
    using store_entry_ran [OF assms(1,3,4), of "\<lambda>_. local_ok", OF _ _ _ _ that] assms(2)
    by (auto simp: bucket_local_def kept_data_def stores_def local_flags local_ok_def [of "_ \<lparr>d_flags := _\<rparr>"]
        intro!: local_ok_upgrade ranI)
  then show ?thesis
    using store_entry_effect [OF assms(1,3,4)] by (auto simp: bucket_local_def ran_def)
qed

theorem store_entry_keeps_bucket_witness:
  "\<exists>b' outcome. store_entry 7 (sample_bucket 0 0) (Partition 1) (sample_address 3) sample_fragment
      (Written \<lparr>ref_id = 4, ref_offset = 0\<rparr>) False = Inr (b', outcome) \<and>
    bucket_ok b' \<and> bucket_local b' \<and> length (entry b') \<le> Suc (length (entry (sample_bucket 0 0)))"
proof -
  obtain b' outcome where st: "store_entry 7 (sample_bucket 0 0) (Partition 1) (sample_address 3) sample_fragment
      (Written \<lparr>ref_id = 4, ref_offset = 0\<rparr>) False = Inr (b', outcome)"
    by (simp add: store_entry_def lookup_sample Let_def) (simp add: sample_simps flag_simps)
  moreover have "length (entry (sample_bucket 0 0)) < 2 ^ 32" by (simp add: sample_bucket_def)
  ultimately show ?thesis
    using store_entry_keeps_bucket [OF bucket_ok_sample bucket_local_sample _ st] by blast
qed

text \<open>
  C20. The search finds the best match a bucket holds. At full strength \<open>lookup\<close> answers with the
  strongest level at which any entry matches the address, the slot of an entry matching at that
  level, and, where no entry is the one asked for, the slot at which it belongs.
\<close>

theorem lookup_finds_best_match:
  assumes "bucket_ok b" "lookup b p a MatchFull = (match_slot, insert_slot, match_made)"
  shows "(\<forall>e \<in> set (slots b). match_level (addr_hash a, p, addr_context a) (key_of e) \<le> match_made)
    \<and> (match_made \<noteq> MatchNone \<longrightarrow> match_slot < length (slots b)
        \<and> match_level (addr_hash a, p, addr_context a) (key_of (slots b ! match_slot)) = match_made)
    \<and> (match_made \<noteq> MatchFull \<longrightarrow>
        (\<forall>i < length (slots b). key_of (slots b ! i) < (addr_hash a, p, addr_context a) \<longleftrightarrow> i < insert_slot))"
proof -
  note lc = lookup_cases [OF assms]
  have "key_of (slots b ! i) < key p a \<longleftrightarrow> i < insert_slot"
    if "match_made \<noteq> MatchFull" "i < length (slots b)" for i
    using lc(5) [of i] lc(6) [OF that(1), of i] that(2) by (cases "i < insert_slot") (auto dest: less_asym)
  with lc(2,3) show ?thesis by auto
qed

theorem lookup_finds_best_match_witness:
  "lookup (sample_bucket 0 0) (Partition 1) (sample_address 3) MatchFull = (1, 2, MatchPartition) \<and>
    list_all (\<lambda>e. match_level (Hash 5, Partition 1, Context 3) (key_of e) \<le> MatchPartition) (slots (sample_bucket 0 0))"
  using lookup_finds_best_match [OF bucket_ok_sample lookup_sample(3), of 0 0] lookup_sample(3) [of 0 0]
  by (simp add: sample_address_def list_all_iff)

text \<open>
  C22. Storing a payload under a new association gives it to every other live association of the same
  hash, so that all of them point at one payload, and leaves tombstones as they are.
\<close>

theorem store_new_association_shares_payload:
  assumes "bucket_ok b" "length (entry b) < 2 ^ 32" "assoc b (addr_hash a, p, addr_context a) = None"
    "store_entry now b p a fragment payload force = Inr (b', Stored fl pf)" "pf \<noteq> 0"
    "assoc b (addr_hash a, p', c') = Some d"
  shows "\<exists>new d'. assoc b' (addr_hash a, p, addr_context a) = Some new \<and> pack_file new = pf
    \<and> assoc b' (addr_hash a, p', c') = Some d' \<and> (live d \<longrightarrow> same_location d' new) \<and> (\<not> live d \<longrightarrow> d' = d)"
proof -
  have "store_effect now b p a fragment payload force b' (Stored fl pf)"
    using store_entry_effect [OF assms(1,2,4)] by blast
  with assms(3,5) obtain new where new: "pf = pack_file new" "assoc b' (key p a) = Some new"
    "\<forall>k. fst k = addr_hash a \<longrightarrow> k \<noteq> key p a \<longrightarrow> assoc b' k = map_option (upgrade new) (assoc b k)"
    by (auto simp: store_effect_def)
  have "(addr_hash a, p', c') \<noteq> key p a" using assms(3,6) by auto
  with new(3) assms(6) have "assoc b' (addr_hash a, p', c') = Some (upgrade new d)" by simp
  with new(1,2) show ?thesis
    by (auto simp: upgrade_def same_location_def assign_deduplicated_payload_def)
qed

theorem store_new_association_shares_payload_witness:
  "\<exists>b' new d'. store_entry 7 (sample_bucket 0 0) (Partition 1) (sample_address 3) sample_fragment
      (Written \<lparr>ref_id = 4, ref_offset = 0\<rparr>) False = Inr (b', Stored 0 4) \<and> live (sample_data 0) \<and>
    assoc b' (Hash 5, Partition 1, Context 3) = Some new \<and> pack_file new = 4 \<and>
    assoc b' (Hash 5, Partition 1, Context 1) = Some d' \<and> same_location d' new"
proof -
  obtain b' where st: "store_entry 7 (sample_bucket 0 0) (Partition 1) (sample_address 3) sample_fragment
      (Written \<lparr>ref_id = 4, ref_offset = 0\<rparr>) False = Inr (b', Stored 0 4)"
    by (simp add: store_entry_def lookup_sample Let_def) (simp add: sample_simps flag_simps)
  have lv: "live (sample_data 0)" by (simp add: live_def sample_data_def)
  have "\<exists>new d'. assoc b' (addr_hash (sample_address 3), Partition 1, addr_context (sample_address 3)) = Some new
      \<and> pack_file new = 4 \<and> assoc b' (addr_hash (sample_address 3), Partition 1, Context 1) = Some d'
      \<and> (live (sample_data 0) \<longrightarrow> same_location d' new) \<and> (\<not> live (sample_data 0) \<longrightarrow> d' = sample_data 0)"
    by (rule store_new_association_shares_payload [OF bucket_ok_sample _ _ st])
       (simp_all add: assoc_sample, simp_all add: sample_bucket_def sample_address_def)
  with st lv show ?thesis by (auto simp: sample_address_def)
qed

section \<open>Tombstones\<close>

lemma in_takeWhile_down:
  "i < m \<Longrightarrow> (\<And>j. i \<le> j \<Longrightarrow> j < m \<Longrightarrow> P j) \<Longrightarrow> i \<in> set (takeWhile P (rev [0..<m]))"
  by (induction m) (auto simp: less_Suc_eq)

lemma in_takeWhile_up:
  assumes "s \<le> i" "i < n" "\<And>j. s \<le> j \<Longrightarrow> j \<le> i \<Longrightarrow> P j"
  shows "i \<in> set (takeWhile P [s..<n])"
proof -
  have "[s..<n] = [s..<Suc i] @ [Suc i..<n]" using assms by (metis Suc_leI le_SucI upt_add_eq_append le_add_diff_inverse)
  moreover have "takeWhile P ([s..<Suc i] @ [Suc i..<n]) = [s..<Suc i] @ takeWhile P [Suc i..<n]"
    using assms(3) by (intro takeWhile_append2) auto
  ultimately show ?thesis using assms(1) by simp
qed

lemma hash_run:
  assumes "bucket_ok b" "i \<le> j" "j \<le> k" "k < length (sorted_index b)"
    "e_hash (slots b ! i) = h" "e_hash (slots b ! k) = h"
  shows "e_hash (slots b ! j) = h"
proof -
  have mono: "e_hash (slots b ! x) \<le> e_hash (slots b ! y)" if "x \<le> y" "y < length (sorted_index b)" for x y
    using sorted_hashes [OF assms(1)] that by (auto simp: sorted_iff_nth_mono)
  show ?thesis
    using mono [of i j] mono [of j k] assms(2-6) by (intro antisym) auto
qed

lemma is_last_fragment_iff:
  assumes ok: "bucket_ok b" and m: "m < length (sorted_index b)" "e_hash (slots b ! m) = h"
  shows "is_last_fragment b m h \<longleftrightarrow>
    (\<forall>i < length (sorted_index b). i \<noteq> m \<longrightarrow> e_hash (slots b ! i) = h \<longrightarrow> d_flags (e_data (slots b ! i)) = PayloadObliterated)"
proof -
  let ?n = "length (sorted_index b)" and ?same = "\<lambda>s. e_hash (slot_entry b s) = h"
  have down: "i \<in> set (takeWhile ?same (rev [0..<m]))" if i: "i < m" "e_hash (slots b ! i) = h" for i
  proof (rule in_takeWhile_down [OF i(1)])
    fix j assume "i \<le> j" "j < m"
    with hash_run [OF ok _ _ m(1) i(2) m(2), of j] m(1) show "?same j" by (simp add: slots_nth)
  qed
  have up: "i \<in> set (takeWhile ?same [m + 1..<?n])" if i: "m < i" "i < ?n" "e_hash (slots b ! i) = h" for i
  proof (rule in_takeWhile_up)
    fix j assume "m + 1 \<le> j" "j \<le> i"
    with hash_run [OF ok _ _ i(2) m(2) i(3), of j] i(2) show "?same j" by (simp add: slots_nth)
  qed (use i in auto)
  let ?D = "\<lambda>s. d_flags (e_data (slot_entry b s)) \<noteq> PayloadObliterated"
  have "is_last_fragment b m h \<longleftrightarrow>
      \<not> (\<exists>i \<in> set (takeWhile ?same (rev [0..<m])) \<union> set (takeWhile ?same [m + 1..<?n]). ?D i)"
    unfolding is_last_fragment_def Let_def list_ex_iff by blast
  also have "set (takeWhile ?same (rev [0..<m])) \<union> set (takeWhile ?same [m + 1..<?n])
      = {i. i < ?n \<and> i \<noteq> m \<and> e_hash (slots b ! i) = h}" (is "?L = ?R")
  proof
    show "?L \<subseteq> ?R" using m(1) by (auto dest!: set_takeWhileD simp: slots_nth)
    show "?R \<subseteq> ?L" using down up by (force simp: neq_iff)
  qed
  finally have "is_last_fragment b m h \<longleftrightarrow> \<not> (\<exists>i \<in> ?R. ?D i)" .
  moreover have "?D i \<longleftrightarrow> d_flags (e_data (slots b ! i)) \<noteq> PayloadObliterated" if "i < ?n" for i
    using that by (simp add: slots_nth)
  ultimately show ?thesis by blast
qed

text \<open>
  C21. A payload is given up for zeroing only when its last live association is: when \<open>tombstone\<close>
  answers that the payload is to be zeroed, compaction is held off, the entry was replaced by a
  tombstone, and every other entry of the hash in the bucket is a tombstone too. When it keeps the
  payload, the entry had none or another entry of the hash is not a tombstone.
\<close>

theorem tombstone_zeroes_last_reference:
  assumes "bucket_ok b" "tombstone b p a compaction_stopped = Inr (b', outcome)"
  shows "bucket_ok b' \<and>
    (case outcome of
       Zero original \<Rightarrow> compaction_stopped \<and> assoc b (addr_hash a, p, addr_context a) = Some original
         \<and> pack_file original \<noteq> 0 \<and> assoc b' = (assoc b)((addr_hash a, p, addr_context a) \<mapsto> tombstone_data)
         \<and> (\<forall>k d. assoc b' k = Some d \<longrightarrow> fst k = addr_hash a \<longrightarrow> d_flags d = PayloadObliterated)
     | TombKept \<Rightarrow> assoc b' = (assoc b)((addr_hash a, p, addr_context a) \<mapsto> tombstone_data)
         \<and> (\<exists>original. assoc b (addr_hash a, p, addr_context a) = Some original
              \<and> (pack_file original = 0 \<or>
                 (\<exists>k d. assoc b' k = Some d \<and> fst k = addr_hash a \<and> d_flags d \<noteq> PayloadObliterated)))
     | _ \<Rightarrow> b' = b)"
proof -
  obtain m ins made where lk: "lookup b p a MatchFull = (m, ins, made)" by (metis prod.exhaust)
  have "made = MatchFull" using assms(2) by (auto simp: tombstone_def lk Let_def split: if_splits)
  then have lk': "lookup b p a MatchFull = (m, ins, MatchFull)" using lk by simp
  note full = lookup_full [OF assms(1) lk']
  let ?old = "e_data (slot_entry b m)" and ?b1 = "set_data (slot_index b m) tombstone_data b"
  have b1: "bucket_ok ?b1" "assoc ?b1 = (assoc b)(key p a \<mapsto> tombstone_data)"
    using bucket_ok_set_data [OF assms(1) full(1)] assoc_set_data [OF assms(1) full(1,2)] by auto
  have h: "e_hash (slots b ! m) = addr_hash a" using full(2) by (simp add: key_of_def)
  have other: "k = key p a \<or> (\<exists>i < length (sorted_index b). i \<noteq> m \<and> key_of (slots b ! i) = k \<and> d = e_data (slots b ! i))"
    if "assoc b k = Some d" for k d
    using that assoc_Some_iff [OF assms(1)] full(2) by (auto simp: in_set_conv_nth)
  have back': "\<exists>k d. ((assoc b)(key p a \<mapsto> tombstone_data)) k = Some d \<and> fst k = addr_hash a \<and> d_flags d \<noteq> PayloadObliterated"
    if "i < length (sorted_index b)" "i \<noteq> m" "e_hash (slots b ! i) = addr_hash a"
      "d_flags (e_data (slots b ! i)) \<noteq> PayloadObliterated" for i
  proof -
    have "key_of (slots b ! i) \<noteq> key p a"
      using distinct_keys [OF assms(1)] that(1,2) full(1,2) by (simp add: distinct_conv_nth) metis
    then show ?thesis using assoc_nth [OF assms(1) that(1)] that
      by (intro exI [of _ "key_of (slots b ! i)"] exI [of _ "e_data (slots b ! i)"]) simp
  qed
  note last = is_last_fragment_iff [OF assms(1) full(1) h]
  have out: "(b', outcome) = (if d_flags ?old AND PayloadObliterated = PayloadObliterated then (b, Already)
      else if is_last_fragment b m (addr_hash a) \<and> pack_file ?old \<noteq> 0 \<and> \<not> compaction_stopped
      then (b, ZeroOnceCompactionStops)
      else (?b1 \<lparr>dirty := True\<rparr>, if is_last_fragment b m (addr_hash a) \<and> pack_file ?old \<noteq> 0 then Zero ?old else TombKept))"
    using assms(2) by (auto simp: tombstone_def lk' Let_def split: if_splits)
  show ?thesis
  proof (cases "is_last_fragment b m (addr_hash a)")
    case True
    have "d_flags d = PayloadObliterated" if "((assoc b)(key p a \<mapsto> tombstone_data)) k = Some d" "fst k = addr_hash a" for k d
      using that other [of k d] last True
      by (cases "k = key p a") (auto simp: tombstone_data_def)
    with out True assms(1) b1 full(3) show ?thesis by (auto split: if_splits)
  next
    case False
    then obtain i where "i < length (sorted_index b)" "i \<noteq> m" "e_hash (slots b ! i) = addr_hash a"
      "d_flags (e_data (slots b ! i)) \<noteq> PayloadObliterated" using last by blast
    from back' [OF this] out False assms(1) b1 full(3) show ?thesis by (auto split: if_splits)
  qed
qed

theorem tombstone_zeroes_last_reference_witness:
  "\<exists>b'. tombstone (sample_bucket 3 3) (Partition 1) (sample_address 2) True = Inr (b', TombKept) \<and> bucket_ok b' \<and>
    assoc b' = (assoc (sample_bucket 3 3))((Hash 5, Partition 1, Context 2) \<mapsto> tombstone_data)"
proof -
  have tw: "list_ex P (takeWhile Q [0]) \<longleftrightarrow> Q 0 \<and> P (0 :: nat)" for P Q by simp
  obtain b' where ts: "tombstone (sample_bucket 3 3) (Partition 1) (sample_address 2) True = Inr (b', TombKept)"
    by (simp add: tombstone_def lookup_sample Let_def)
       (simp add: sample_simps is_last_fragment_def Let_def tw set_data_def flag_simps tombstone_data_def)
  from tombstone_zeroes_last_reference [OF bucket_ok_sample ts] ts show ?thesis
    by (auto simp: sample_address_def)
qed

section \<open>Copy sources\<close>

definition live_slot :: "immutable_store_bucket \<Rightarrow> nat \<Rightarrow> bool" where
  "live_slot b s \<longleftrightarrow> \<not> is_obliterated b s"

definition source_slot :: "immutable_store_bucket \<Rightarrow> nat \<Rightarrow> bool" where
  "source_slot b s \<longleftrightarrow> live_slot b s \<and> pack_file (e_data (slot_entry b s)) \<noteq> 0"

lemma is_copy_source_eq:
  "is_copy_source b s rep =
     (if live_slot b s \<and> \<not> source_slot b s then (Some (case rep of Some r \<Rightarrow> r | None \<Rightarrow> s), False)
      else (rep, source_slot b s))"
  by (auto simp: is_copy_source_def live_slot_def source_slot_def)

text \<open>
  The slots examined so far are \<open>{lo..<hi}\<close>; the walk goes on below and above them while the
  run of the partition does.
\<close>

definition walk_inv ::
  "immutable_store_bucket \<Rightarrow> partition \<Rightarrow> hash \<Rightarrow> nat \<Rightarrow> nat \<Rightarrow> nat option \<Rightarrow> nat option \<Rightarrow> nat option \<Rightarrow> bool" where
  "walk_inv b p h lo hi bk fw rep \<longleftrightarrow>
     lo \<le> hi \<and> (lo < hi \<or> bk \<noteq> None) \<and>
     (\<forall>s \<in> {lo..<hi}. run_slot b p h s \<and> \<not> source_slot b s) \<and>
     (case rep of None \<Rightarrow> \<forall>s \<in> {lo..<hi}. \<not> live_slot b s | Some r \<Rightarrow> r \<in> {lo..<hi} \<and> live_slot b r) \<and>
     bk = (if 0 < lo \<and> run_slot b p h (lo - 1) then Some (lo - 1) else None) \<and>
     fw = (if run_slot b p h hi then Some hi else None)"

definition source_found :: "immutable_store_bucket \<Rightarrow> partition \<Rightarrow> hash \<Rightarrow> nat option \<Rightarrow> bool" where
  "source_found b p h res \<longleftrightarrow>
     (case res of
        None \<Rightarrow> \<forall>s. run_slot b p h s \<longrightarrow> \<not> live_slot b s
      | Some s \<Rightarrow> run_slot b p h s \<and> live_slot b s \<and>
          (source_slot b s \<or> (\<forall>t. run_slot b p h t \<longrightarrow> \<not> source_slot b t)))"

lemma source_slot_found: "run_slot b p h s \<Longrightarrow> source_slot b s \<Longrightarrow> source_found b p h (Some s)"
  by (simp add: source_found_def source_slot_def)

lemma run_convex:
  assumes "bucket_ok b" "run_slot b p h i" "run_slot b p h k" "i \<le> j" "j \<le> k"
  shows "run_slot b p h j"
proof -
  have len: "k < length (sorted_index b)" using assms(3) by (simp add: run_slot_def)
  have mono: "key_of (slots b ! x) \<le> key_of (slots b ! y)" if "x \<le> y" "y < length (sorted_index b)" for x y
    using assms(1) that
    by (cases "x = y") (auto simp: bucket_ok_def bucket_sorted_def sorted_wrt_iff_nth_less intro: less_imp_le)
  have e: "key_of (slots b ! i) = (h, p, e_context (slots b ! i))" "key_of (slots b ! k) = (h, p, e_context (slots b ! k))"
    using assms(2-5) len by (auto simp: run_slot_def in_partition_run_def key_of_def slots_nth)
  have "key_of (slots b ! i) \<le> key_of (slots b ! j)" "key_of (slots b ! j) \<le> key_of (slots b ! k)"
    using mono assms(4,5) len by auto
  then have "e_hash (slots b ! j) = h \<and> e_partition (slots b ! j) = p"
    unfolding e by (auto simp: key_of_def)
  then show ?thesis using assms(5) len by (simp add: run_slot_def in_partition_run_def slots_nth)
qed

lemma walk_inv_down:
  assumes "walk_inv b p h lo hi (Some s) fw rep" "is_copy_source b s rep = (rep', False)"
  shows "walk_inv b p h (lo - 1) hi (walk_down b p h s) fw rep'"
proof -
  have s: "s = lo - 1" "0 < lo" "run_slot b p h s"
    using assms(1) by (auto simp: walk_inv_def split: if_splits)
  have ns: "\<not> source_slot b s" "rep' = (if live_slot b s then Some (case rep of Some r \<Rightarrow> r | None \<Rightarrow> s) else rep)"
    using assms(2) by (auto simp: is_copy_source_eq source_slot_def split: if_splits)
  have "lo \<le> hi" using assms(1) by (simp add: walk_inv_def)
  then have V: "{lo - 1..<hi} = insert s {lo..<hi}" using s(1,2) by auto
  have rep: "case rep' of None \<Rightarrow> \<forall>t \<in> insert s {lo..<hi}. \<not> live_slot b t | Some r \<Rightarrow> r \<in> insert s {lo..<hi} \<and> live_slot b r"
    using assms(1) ns(2) unfolding walk_inv_def by (cases rep) auto
  show ?thesis
    unfolding walk_inv_def V
  proof (intro conjI)
    show "walk_down b p h s = (if 0 < lo - 1 \<and> run_slot b p h (lo - 1 - 1) then Some (lo - 1 - 1) else None)"
      by (simp add: walk_down_def s(1))
  qed (use assms(1) s ns(1) rep \<open>lo \<le> hi\<close> in \<open>auto simp: walk_inv_def\<close>)
qed

lemma walk_inv_up:
  assumes "walk_inv b p h lo hi bk (Some s) rep" "is_copy_source b s rep = (rep', False)"
  shows "walk_inv b p h lo (hi + 1) bk (walk_up b p h s) rep'"
proof -
  have s: "s = hi" "run_slot b p h hi"
    using assms(1) by (auto simp: walk_inv_def split: if_splits)
  have ns: "\<not> source_slot b s" "rep' = (if live_slot b s then Some (case rep of Some r \<Rightarrow> r | None \<Rightarrow> s) else rep)"
    using assms(2) by (auto simp: is_copy_source_eq source_slot_def split: if_splits)
  have "lo \<le> hi" using assms(1) by (simp add: walk_inv_def)
  then have V: "{lo..<hi + 1} = insert s {lo..<hi}" using s(1) by auto
  have rep: "case rep' of None \<Rightarrow> \<forall>t \<in> insert s {lo..<hi}. \<not> live_slot b t | Some r \<Rightarrow> r \<in> insert s {lo..<hi} \<and> live_slot b r"
    using assms(1) ns(2) unfolding walk_inv_def by (cases rep) auto
  show ?thesis
    unfolding walk_inv_def V
  proof (intro conjI)
    show "walk_up b p h s = (if run_slot b p h (hi + 1) then Some (hi + 1) else None)"
      by (simp add: walk_up_def s(1))
  qed (use assms(1) s ns(1) rep \<open>lo \<le> hi\<close> in \<open>auto simp: walk_inv_def\<close>)
qed

lemma walk_inv_ends:
  assumes "walk_inv b p h lo hi bk fw rep"
  shows "bk = None \<Longrightarrow> 0 < lo \<Longrightarrow> \<not> run_slot b p h (lo - 1)" "fw = None \<Longrightarrow> \<not> run_slot b p h hi"
    "bk = Some s \<Longrightarrow> s = lo - 1 \<and> 0 < lo \<and> run_slot b p h s" "fw = Some t \<Longrightarrow> t = hi \<and> run_slot b p h t"
    "lo \<le> x \<Longrightarrow> x < hi \<Longrightarrow> run_slot b p h x"
  using assms by (simp_all add: walk_inv_def split: if_splits)

lemma walk_inv_done:
  assumes ok: "bucket_ok b" and inv: "walk_inv b p h lo hi None None rep"
  shows "source_found b p h rep"
proof -
  note ends = walk_inv_ends [OF inv]
  have lohi: "lo < hi" using inv by (simp add: walk_inv_def)
  have inside: "s \<in> {lo..<hi}" if run: "run_slot b p h s" for s
  proof (rule ccontr)
    assume "s \<notin> {lo..<hi}"
    then consider "s < lo" | "hi \<le> s" by fastforce
    then show False
    proof cases
      case 1
      have "run_slot b p h lo" using lohi by (intro ends(5)) auto
      then have "run_slot b p h (lo - 1)" by (rule run_convex [OF ok run]) (use 1 in auto)
      moreover have "0 < lo" using 1 by simp
      ultimately show False using ends(1) by blast
    next
      case 2
      have "run_slot b p h (hi - 1)" using lohi by (intro ends(5)) auto
      then have "run_slot b p h hi" by (rule run_convex [OF ok _ run]) (use 2 in auto)
      then show False using ends(2) by blast
    qed
  qed
  have "\<forall>s \<in> {lo..<hi}. run_slot b p h s \<and> \<not> source_slot b s"
    "case rep of None \<Rightarrow> \<forall>s \<in> {lo..<hi}. \<not> live_slot b s | Some r \<Rightarrow> r \<in> {lo..<hi} \<and> live_slot b r"
    using inv unfolding walk_inv_def by blast+
  with inside show ?thesis unfolding source_found_def by (cases rep; simp only: option.case; blast)
qed

lemma copy_walk_found:
  assumes ok: "bucket_ok b"
  shows "walk_inv b p h lo hi bk fw rep \<Longrightarrow> source_found b p h (copy_walk b p h bk fw rep)"
proof (induction "lo + (length (sorted_index b) - hi)" arbitrary: lo hi bk fw rep rule: less_induct)
  case less
  note ends = walk_inv_ends [OF less.prems]
  have up: "source_found b p h (case fw' of None \<Rightarrow> copy_walk b p h bk' None rep'
      | Some t \<Rightarrow> let (rep'', src) = is_copy_source b t rep' in
          if src then Some t else copy_walk b p h bk' (walk_up b p h t) rep'')"
    if inv: "walk_inv b p h lo' hi bk' fw' rep'" and le: "lo' \<le> lo" "lo' < lo \<or> fw' \<noteq> None" for lo' bk' fw' rep'
  proof (cases fw')
    case None
    with inv le less.hyps [of lo' hi bk' None rep'] show ?thesis by simp
  next
    case (Some t)
    obtain rep'' src where src: "is_copy_source b t rep' = (rep'', src)" by fastforce
    have t: "t = hi" "run_slot b p h t" using walk_inv_ends(4) [OF inv Some] by auto
    show ?thesis
    proof (cases src)
      case True
      then have "source_slot b t" using src by (auto simp: is_copy_source_eq split: if_splits)
      with True Some src t show ?thesis by (simp add: source_slot_found)
    next
      case False
      have "walk_inv b p h lo' (hi + 1) bk' (walk_up b p h t) rep''"
        using walk_inv_up [of b p h lo' hi bk' t rep' rep''] inv Some src False by simp
      moreover have "hi < length (sorted_index b)" using t by (simp add: run_slot_def)
      ultimately show ?thesis using less.hyps [of lo' "hi + 1"] le Some src False by simp
    qed
  qed
  show ?case
  proof (cases bk)
    case None
    show ?thesis
    proof (cases fw)
      case fw: None
      with None less.prems walk_inv_done [OF ok] show ?thesis by (subst copy_walk.simps) simp
    next
      case (Some t)
      with up [OF less.prems [unfolded None]] None show ?thesis by (subst copy_walk.simps) simp
    qed
  next
    case (Some s)
    obtain rep' src where src: "is_copy_source b s rep = (rep', src)" by fastforce
    show ?thesis
    proof (cases src)
      case True
      then have "source_slot b s" using src by (auto simp: is_copy_source_eq split: if_splits)
      with source_slot_found ends(3) [OF Some] have "source_found b p h (Some s)" by blast
      with True Some src show ?thesis by (subst copy_walk.simps) simp
    next
      case False
      have "walk_inv b p h (lo - 1) hi (walk_down b p h s) fw rep'"
        using walk_inv_down [of b p h lo hi s fw rep rep'] less.prems Some src False by simp
      from up [OF this] ends(3) [OF Some] have "source_found b p h (case fw of
          None \<Rightarrow> copy_walk b p h (walk_down b p h s) None rep'
        | Some t \<Rightarrow> let (rep'', src) = is_copy_source b t rep' in
            if src then Some t else copy_walk b p h (walk_down b p h s) (walk_up b p h t) rep'')" by simp
      with Some src False show ?thesis by (subst copy_walk.simps) simp
    qed
  qed
qed

text \<open>The search for an association of a partition.\<close>

lemma lookup_partition_step:
  fixes b p a m
  assumes "start < fin" "made \<in> {MatchNone, MatchHash}"
  defines "slot \<equiv> (start + fin) div 2"
  defines "e \<equiv> key_of (slot_entry b slot)"
  defines "lv \<equiv> match_level (key p a) e"
  shows "lookup_loop b p a MatchPartition start fin made m =
    (if lv = MatchPartition \<or> lv = MatchFull then (slot, start, MatchPartition)
     else if key p a < e then lookup_loop b p a MatchPartition start slot (max made lv) (if made < lv then slot else m)
     else lookup_loop b p a MatchPartition (slot + 1) fin (max made lv) (if made < lv then slot else m))"
proof -
  let ?E = "slot_entry b slot"
  have lt: "key p a < e \<longleftrightarrow> addr_hash a < e_hash ?E \<or> addr_hash a = e_hash ?E \<and>
      (p < e_partition ?E \<or> p = e_partition ?E \<and> addr_context a < e_context ?E)"
    by (simp add: e_def key_of_def less_prod_def')
  have lv: "lv = (if addr_hash a \<noteq> e_hash ?E then MatchNone else if p \<noteq> e_partition ?E then MatchHash
      else if addr_context a \<noteq> e_context ?E then MatchPartition else MatchFull)"
    by (auto simp: lv_def e_def key_of_def match_level_def)
  have unfold: "lookup_loop b p a MatchPartition start fin made m =
     (if addr_hash a = e_hash ?E then
        if p = e_partition ?E then (slot, start, MatchPartition)
        else if p < e_partition ?E
        then lookup_loop b p a MatchPartition start slot MatchHash (if made = MatchNone then slot else m)
        else lookup_loop b p a MatchPartition (slot + 1) fin MatchHash (if made = MatchNone then slot else m)
      else if addr_hash a < e_hash ?E then lookup_loop b p a MatchPartition start slot made m
      else lookup_loop b p a MatchPartition (slot + 1) fin made m)"
  proof -
    have slot: "(start + fin) div 2 = slot" by (simp add: slot_def)
    consider "made = MatchNone" | "made = MatchHash" using assms(2) by blast
    then show ?thesis
      by cases (subst lookup_loop.simps, simp add: assms(1) Let_def slot del: not_less)+
  qed
  consider "addr_hash a \<noteq> e_hash ?E" | "addr_hash a = e_hash ?E" "p \<noteq> e_partition ?E"
    | "addr_hash a = e_hash ?E" "p = e_partition ?E" by blast
  then show ?thesis
  proof cases
    case 1
    then have "(key p a < e) = (addr_hash a < e_hash ?E)" "lv = MatchNone" using lt lv by auto
    moreover have "max made MatchNone = made" by (simp add: max_def antisym)
    ultimately show ?thesis unfolding unfold using 1 by simp
  next
    case 2
    then have "(key p a < e) = (p < e_partition ?E)" "lv = MatchHash" using lt lv by auto
    moreover have "max made MatchHash = MatchHash" "made < MatchHash \<longleftrightarrow> made = MatchNone"
      using assms(2) by (auto simp: max_def)
    ultimately show ?thesis unfolding unfold using 2 by simp
  next
    case 3
    then have "lv = MatchPartition \<or> lv = MatchFull" using lv by simp
    then show ?thesis unfolding unfold using 3 by simp
  qed
qed

lemma lookup_partition_loop:
  assumes ok: "bucket_ok b" and inv: "search_inv (map key_of (slots b)) (key p a) start fin made m"
    and made: "made \<in> {MatchNone, MatchHash}"
    and res: "lookup_loop b p a MatchPartition start fin made m = (m', ins, made')"
  shows "made' = MatchPartition \<and> run_slot b p (addr_hash a) m' \<or>
    made' \<in> {MatchNone, MatchHash} \<and> (\<forall>s. \<not> run_slot b p (addr_hash a) s)"
  using inv made res
proof (induction "fin - start" arbitrary: start fin made m rule: less_induct)
  case less
  let ?ks = "map key_of (slots b)" and ?k = "key p a"
  have sorted: "sorted_wrt (<) ?ks" using ok by (simp add: bucket_ok_def bucket_sorted_def)
  show ?case
  proof (cases "start < fin")
    case False
    then have "start = fin" using less.prems(1) by (simp add: search_inv_def)
    with less.prems(1) search_inv_done [OF _ sorted] have "search_result ?ks ?k (m, start, made)" by simp
    then have "\<forall>e \<in> set ?ks. match_level ?k e \<le> made" by (simp add: search_result_def)
    moreover have "MatchPartition \<le> match_level ?k (key_of (slots b ! s))" if "run_slot b p (addr_hash a) s" for s
      using that by (auto simp: run_slot_def in_partition_run_def slots_nth match_level_def key_of_def less_eq_store_match_def)
    moreover have "made < MatchPartition" using less.prems(2) by auto
    moreover have "key_of (slots b ! s) \<in> set ?ks" if "run_slot b p (addr_hash a) s" for s
      using that by (auto simp: run_slot_def)
    ultimately have "\<not> run_slot b p (addr_hash a) s" for s
      by (meson leD order.trans)
    moreover have "made' = made" using less.prems(3) False by (subst (asm) lookup_loop.simps) simp
    ultimately show ?thesis using less.prems(2) by blast
  next
    case True
    let ?slot = "(start + fin) div 2"
    have slot: "?slot < length ?ks" "?slot < fin" using less.prems True by (auto simp: search_inv_def)
    then have e: "key_of (slot_entry b ?slot) = ?ks ! ?slot" by (simp add: slots_nth)
    let ?lv = "match_level ?k (key_of (slot_entry b ?slot))"
    show ?thesis
    proof (cases "?lv = MatchPartition \<or> ?lv = MatchFull")
      case run: True
      then have "run_slot b p (addr_hash a) ?slot"
        using slot by (auto simp: match_level_def run_slot_def in_partition_run_def key_of_def split: if_splits)
      moreover have "lookup_loop b p a MatchPartition start fin made m = (?slot, start, MatchPartition)"
        using lookup_partition_step [OF True less.prems(2), of b p a m] run by simp
      ultimately show ?thesis using less.prems(3) by simp
    next
      case no: False
      then have ne: "?ks ! ?slot \<noteq> ?k" using e by (auto simp: match_level_def)
      note inv = search_step [OF less.prems(1) True sorted ne, folded e]
      let ?m = "if made < ?lv then ?slot else m"
      have made: "max made ?lv \<in> {MatchNone, MatchHash}"
        using less.prems(2) no by (simp add: max_def) (metis store_match.exhaust)
      have step: "lookup_loop b p a MatchPartition start fin made m =
          (if ?k < key_of (slot_entry b ?slot) then lookup_loop b p a MatchPartition start ?slot (max made ?lv) ?m
           else lookup_loop b p a MatchPartition (?slot + 1) fin (max made ?lv) ?m)"
        using lookup_partition_step [OF True less.prems(2), of b p a m] no by simp
      show ?thesis
      proof (cases "?k < key_of (slot_entry b ?slot)")
        case lt: True
        with less.hyps [OF _ inv(1) [OF lt] made] less.prems(3) step slot \<open>start < fin\<close> show ?thesis by simp
      next
        case nlt: False
        with less.hyps [OF _ inv(2) [OF nlt] made] less.prems(3) step slot \<open>start < fin\<close> show ?thesis by simp
      qed
    qed
  qed
qed

lemma lookup_partition:
  assumes "bucket_ok b" "lookup b p a MatchPartition = (m, ins, made)"
  shows "made = MatchPartition \<and> run_slot b p (addr_hash a) m \<or>
    made \<in> {MatchNone, MatchHash} \<and> (\<forall>s. \<not> run_slot b p (addr_hash a) s)"
  using assms bucket_ok_length [OF assms(1)]
  by (intro lookup_partition_loop [OF assms(1) _ _ assms(2) [unfolded lookup_def]]) (auto simp: search_inv_def)

lemma copy_source_zero_context:
  assumes ok: "bucket_ok b" and zero: "context_is_zero (addr_context a)"
  shows "source_found b p (addr_hash a) (copy_source_slot b p a)"
proof -
  obtain m ins made where lk: "lookup b p a MatchPartition = (m, ins, made)" by (metis prod.exhaust)
  from lookup_partition [OF ok lk] show ?thesis
  proof (elim disjE conjE)
    assume m: "made = MatchPartition" "run_slot b p (addr_hash a) m"
    have "walk_inv b p (addr_hash a) (m + 1) (m + 1) (Some m) (walk_up b p (addr_hash a) m) None"
      using m(2) by (simp add: walk_inv_def walk_up_def)
    from copy_walk_found [OF ok this] show ?thesis
      using zero m(1) by (simp add: copy_source_slot_def lk)
  next
    assume n: "made \<in> {MatchNone, MatchHash}" "\<forall>s. \<not> run_slot b p (addr_hash a) s"
    then have "copy_source_slot b p a = None" using zero by (auto simp: copy_source_slot_def lk)
    with n(2) show ?thesis by (simp add: source_found_def)
  qed
qed

text \<open>Whether an association is one a copy from an address may read: a zero context names any of them.\<close>

definition serves :: "partition \<Rightarrow> address \<Rightarrow> entry_key \<Rightarrow> bool" where
  "serves p a k \<longleftrightarrow> fst k = addr_hash a \<and> fst (snd k) = p \<and>
     (context_is_zero (addr_context a) \<or> snd (snd k) = addr_context a)"

lemma run_slot_serves:
  assumes "context_is_zero (addr_context a)"
  shows "run_slot b p (addr_hash a) s \<longleftrightarrow> s < length (slots b) \<and> serves p a (key_of (slots b ! s))"
  using assms by (auto simp: run_slot_def in_partition_run_def serves_def key_of_def slots_nth)

lemma live_slot_iff: "s < length (slots b) \<Longrightarrow> live_slot b s \<longleftrightarrow> live (e_data (slots b ! s))"
  by (simp add: live_slot_def is_obliterated_def live_def slots_nth)

lemma copy_source_slot_spec:
  assumes ok: "bucket_ok b"
  shows "case copy_source_slot b p a of
      None \<Rightarrow> \<forall>e \<in> set (slots b). serves p a (key_of e) \<longrightarrow> \<not> live (e_data e)
    | Some s \<Rightarrow> s < length (slots b) \<and> serves p a (key_of (slots b ! s)) \<and> live (e_data (slots b ! s))
        \<and> (pack_file (e_data (slots b ! s)) \<noteq> 0 \<or>
           (\<forall>e \<in> set (slots b). serves p a (key_of e) \<longrightarrow> live (e_data e) \<longrightarrow> pack_file (e_data e) = 0))"
proof (cases "context_is_zero (addr_context a)")
  case True
  note run = run_slot_serves [OF True, of b p]
  have src: "source_slot b s \<longleftrightarrow> live (e_data (slots b ! s)) \<and> pack_file (e_data (slots b ! s)) \<noteq> 0"
    if "s < length (slots b)" for s
    using that by (simp add: source_slot_def live_slot_iff slots_nth)
  have all: "(\<forall>e \<in> set (slots b). serves p a (key_of e) \<longrightarrow> P e) \<longleftrightarrow> (\<forall>s. run_slot b p (addr_hash a) s \<longrightarrow> P (slots b ! s))" for P
    unfolding run all_set_conv_all_nth by blast
  show ?thesis
    using copy_source_zero_context [OF ok True, of p] unfolding all source_found_def
    by (cases "copy_source_slot b p a") (auto simp: run src live_slot_iff)
next
  case False
  obtain m ins made where lk: "lookup b p a MatchFull = (m, ins, made)" by (metis prod.exhaust)
  have none: "\<not> serves p a (key_of e)" if "made \<noteq> MatchFull" "e \<in> set (slots b)" for e
  proof
    assume "serves p a (key_of e)"
    then have "key_of e = key p a" using False by (auto simp: serves_def prod_eq_iff)
    then show False
      using lookup_cases(1) [OF ok lk] that assoc_Some_iff [OF ok, of "key p a"] by auto
  qed
  show ?thesis
  proof (cases "made = MatchFull")
    case no: False
    with none show ?thesis using False by (simp add: copy_source_slot_def lk)
  next
    case full: True
    then have lk': "lookup b p a MatchFull = (m, ins, MatchFull)" using lk by simp
    note m = lookup_full [OF ok lk']
    have only: "e = slots b ! m" if "e \<in> set (slots b)" "serves p a (key_of e)" for e
    proof -
      have "key_of e = key_of (slots b ! m)" using that(2) False m(2) by (auto simp: serves_def prod_eq_iff)
      moreover have "slots b ! m \<in> set (slots b)" using m(1) by simp
      moreover have "inj_on key_of (set (slots b))" using distinct_keys [OF ok] by (simp add: distinct_map)
      ultimately show ?thesis using that(1) by (blast dest: inj_onD)
    qed
    have "serves p a (key_of (slots b ! m))" by (simp add: m(2) serves_def)
    moreover have "live (e_data (slots b ! m)) \<longleftrightarrow> \<not> is_obliterated b m"
      using m(1) by (simp add: live_slot_iff [symmetric] live_slot_def)
    ultimately show ?thesis
      using only m(1) False full by (auto simp: copy_source_slot_def lk dest!: only)
  qed
qed

text \<open>
  C23. The source a copy reads from. \<open>copy_source_slot\<close> answers with a live association of the
  source partition that the source address names, and with one that holds the payload whenever any
  of them does; it answers with none only when the partition holds no live association to copy.
\<close>

theorem copy_source_slot_finds_payload:
  assumes "bucket_ok b"
  shows "case copy_source_slot b p a of
      None \<Rightarrow> \<forall>e \<in> set (slots b). serves p a (key_of e) \<longrightarrow> \<not> live (e_data e)
    | Some s \<Rightarrow> s < length (slots b) \<and> serves p a (key_of (slots b ! s)) \<and> live (e_data (slots b ! s))
        \<and> (pack_file (e_data (slots b ! s)) \<noteq> 0 \<or>
           (\<forall>e \<in> set (slots b). serves p a (key_of e) \<longrightarrow> live (e_data e) \<longrightarrow> pack_file (e_data e) = 0))"
  by (rule copy_source_slot_spec [OF assms])

theorem copy_source_slot_finds_payload_witness:
  "case copy_source_slot (sample_bucket 0 3) (Partition 1) (sample_address 0) of
      None \<Rightarrow> False
    | Some s \<Rightarrow> s = 1 \<and> live (e_data (slots (sample_bucket 0 3) ! s))"
proof -
  have "copy_source_slot (sample_bucket 0 3) (Partition 1) (sample_address 0) = Some 1"
    by (simp add: copy_source_slot_def lookup_def lookup_loop.simps copy_walk.simps is_copy_source_def
        is_obliterated_def sample_simps Let_def context_is_zero_def flag_simps)
  with copy_source_slot_finds_payload [OF bucket_ok_sample, of 0 3 "Partition 1" "sample_address 0"]
  show ?thesis by simp
qed

section \<open>Copies\<close>

lemma durable_assign:
  "d_flags (assign_deduplicated_payload d s) AND PayloadStoredDurable = d_flags d AND PayloadStoredDurable"
  by (simp add: assign_deduplicated_payload_def stored_flags_def Let_def flag_simps bit.conj_disj_distrib2 and.assoc)

lemma durable_merge:
  "d_flags (merge_from_copy_source d s durable) AND PayloadStoredDurable =
     (if durable then PayloadStoredDurable else d_flags d AND PayloadStoredDurable)"
  by (simp add: merge_from_copy_source_def Let_def durable_assign bit.conj_disj_distrib2)

lemma or_durable_not_stored: "(x OR PayloadStoredDurable) AND NOT PayloadStored = x AND NOT PayloadStored"
  by (simp add: bit.conj_disj_distrib2) (simp add: flag_simps)

lemma merge_fields [simp]:
  "pack_file (merge_from_copy_source d s durable) = pack_file s"
  "pack_offset (merge_from_copy_source d s durable) = pack_offset s"
  "d_size_payload (merge_from_copy_source d s durable) = d_size_payload s"
  "d_size_content (merge_from_copy_source d s durable) = d_size_content s"
  "d_flags (merge_from_copy_source d s durable) AND NOT PayloadStored = d_flags s AND NOT PayloadStored"
  by (simp_all add: merge_from_copy_source_def assign_deduplicated_payload_def Let_def or_durable_not_stored)

text \<open>The data of a destination after a copy: all of the source but where it is stored durably.\<close>

definition copied_from :: "immutable_data \<Rightarrow> immutable_data \<Rightarrow> bool" where
  "copied_from s d \<longleftrightarrow> same_location d s \<and> d_size_payload d = d_size_payload s \<and> d_size_content d = d_size_content s \<and>
     d_flags d AND NOT PayloadStored = d_flags s AND NOT PayloadStored"

definition is_durable :: "immutable_data \<Rightarrow> bool" where
  "is_durable d \<longleftrightarrow> d_flags d AND PayloadStoredDurable \<noteq> 0"

lemma copied_merge:
  "copied_from s (merge_from_copy_source d s durable)"
  "copied_from s (merge_from_copy_source d s durable \<lparr>last_access := now\<rparr>)"
  by (simp_all add: copied_from_def same_location_def)

lemma durable_merge_iff:
  "is_durable (merge_from_copy_source d s durable) \<longleftrightarrow> durable \<or> is_durable d"
  "is_durable (merge_from_copy_source d s durable \<lparr>last_access := now\<rparr>) \<longleftrightarrow> durable \<or> is_durable d"
  by (simp_all add: is_durable_def durable_merge) (simp_all add: flag_simps)

lemma copy_entry_effect:
  assumes ok: "bucket_ok b" "length (entry b) < 2 ^ 32"
    and cp: "copy_entry now b sp sa dp dc durable = Inr (b', fl)"
  obtains s d where "copy_source_slot b sp sa = Some s" "bucket_ok b'"
    "assoc b' = (assoc b)((addr_hash sa, dp, dc) \<mapsto> d)" "copied_from (e_data (slot_entry b s)) d" "local_ok d"
    "is_durable d \<longleftrightarrow> durable \<or> (\<exists>old. assoc b (addr_hash sa, dp, dc) = Some old \<and> is_durable old)"
proof -
  let ?a = "Address (addr_hash sa) dc"
  obtain s where s: "copy_source_slot b sp sa = Some s"
    using cp by (auto simp: copy_entry_def Let_def split: option.splits)
  let ?src = "e_data (slot_entry b s)"
  obtain m ins made where lk: "lookup b dp ?a MatchFull = (m, ins, made)" by (metis prod.exhaust)
  show thesis
  proof (cases "made = MatchFull")
    case True
    with lk have lk': "lookup b dp ?a MatchFull = (m, ins, MatchFull)" by simp
    note full = lookup_full [OF ok(1) lk']
    let ?old = "e_data (slot_entry b m)"
    define new where "new = merge_from_copy_source ?old ?src durable"
    define d where "d = (if new \<noteq> ?old then new \<lparr>last_access := now\<rparr> else new)"
    have b': "b' = (if new \<noteq> ?old then set_data (slot_index b m) d b \<lparr>dirty := True\<rparr> else b)"
      using cp by (auto simp: copy_entry_def s lk' Let_def new_def d_def)
    have "assoc b' = (assoc b)(key dp ?a \<mapsto> d)"
      using assoc_set_data [OF ok(1) full(1,2), of d] full(3) unfolding b' by (auto simp: d_def)
    moreover have "bucket_ok b'"
      using bucket_ok_set_data [OF ok(1) full(1), of d] ok(1) unfolding b' by simp
    moreover have "d = new \<or> d = new \<lparr>last_access := now\<rparr>" by (simp add: d_def)
    then have "copied_from ?src d" "local_ok d" "is_durable d \<longleftrightarrow> durable \<or> is_durable ?old"
      using copied_merge durable_merge_iff local_ok_merge unfolding new_def by auto
    ultimately show thesis using s full(3) by (intro that [of s d]) simp_all
  next
    case False
    define d where "d = merge_from_copy_source immutable_data_default ?src durable \<lparr>last_access := now\<rparr>"
    define e where "e = \<lparr>e_address = ?a, e_partition = dp, e_data = d\<rparr>"
    have b': "b' = inject ins e b \<lparr>dirty := True\<rparr>"
      using cp False by (simp add: copy_entry_def s lk Let_def e_def d_def)
    note inj = bucket_ok_inject [OF ok lk False, of e]
    have k: "key_of e = key dp ?a" by (simp add: e_def key_of_def)
    have "assoc b (key dp ?a) = None" using lookup_cases(1) [OF ok(1) lk] False by simp
    moreover have "copied_from ?src d" "local_ok d" "is_durable d \<longleftrightarrow> durable \<or> is_durable immutable_data_default"
      unfolding d_def by (simp_all add: copied_merge durable_merge_iff local_ok_merge)
    moreover have "\<not> is_durable immutable_data_default" by (simp add: is_durable_def immutable_data_default_def)
    ultimately show thesis
      using s inj(1,3) [OF k] by (intro that [of s d]) (simp_all add: b' e_def)
  qed
qed

text \<open>
  C24. What a copy does. When \<open>copy\<close> succeeds, exactly one association changes, the destination. It
  then points at the payload of a live association the source address names and has its sizes and
  representation. It is durable when the caller asserts it or when it was before: the durability of
  the source never propagates. The bucket remains in order and its flags agree with its payloads.
\<close>

theorem copy_entry_effects:
  assumes "bucket_ok b" "bucket_local b" "length (entry b) < 2 ^ 32"
    "copy_entry now b source_partition source_address destination_partition destination_context durable = Inr (b', fl)"
  shows "bucket_ok b' \<and> bucket_local b' \<and>
    (\<exists>e \<in> set (slots b). \<exists>d. serves source_partition source_address (key_of e) \<and> live (e_data e)
      \<and> copied_from (e_data e) d
      \<and> assoc b' = (assoc b)((addr_hash source_address, destination_partition, destination_context) \<mapsto> d)
      \<and> (is_durable d \<longleftrightarrow> durable \<or>
           (\<exists>old. assoc b (addr_hash source_address, destination_partition, destination_context) = Some old
              \<and> is_durable old)))"
proof -
  from copy_entry_effect [OF assms(1,3,4)] obtain s d where
    eff: "copy_source_slot b source_partition source_address = Some s" "bucket_ok b'"
      "assoc b' = (assoc b)((addr_hash source_address, destination_partition, destination_context) \<mapsto> d)"
      "copied_from (e_data (slot_entry b s)) d" "local_ok d"
      "is_durable d \<longleftrightarrow> durable \<or>
         (\<exists>old. assoc b (addr_hash source_address, destination_partition, destination_context) = Some old \<and> is_durable old)"
    by blast
  have src: "s < length (slots b)" "serves source_partition source_address (key_of (slots b ! s))" "live (e_data (slots b ! s))"
    using copy_source_slot_spec [OF assms(1), of source_partition source_address] by (simp_all add: eff(1))
  have "bucket_local b'"
    using assms(2) eff(5) unfolding bucket_local_def eff(3) by (auto simp: ran_def)
  moreover have "slots b ! s \<in> set (slots b)" using src(1) by (rule nth_mem)
  moreover have "copied_from (e_data (slots b ! s)) d" using src(1) eff(4) by (simp add: slots_nth)
  ultimately show ?thesis using eff(2,3,6) src(2,3) by blast
qed

theorem copy_entry_effects_witness:
  "\<exists>b' fl d. copy_entry 7 (sample_bucket 3 0) (Partition 1) (sample_address 1) (Partition 1) (Context 3) False =
      Inr (b', fl) \<and> bucket_ok b' \<and> bucket_local b' \<and> assoc b' (Hash 5, Partition 1, Context 3) = Some d \<and> \<not> is_durable d"
proof -
  have lk: "lookup (sample_bucket 3 0) (Partition 1) (Address (addr_hash (sample_address 1)) (Context 3)) MatchFull
      = (1, 2, MatchPartition)"
    using lookup_sample(3) [of 3 0] by (simp add: sample_address_def)
  have "copy_source_slot (sample_bucket 3 0) (Partition 1) (sample_address 1) = Some 0"
    by (simp add: copy_source_slot_def lookup_sample) (simp add: is_obliterated_def sample_simps context_is_zero_def flag_simps)
  then obtain b' fl where cp: "copy_entry 7 (sample_bucket 3 0) (Partition 1) (sample_address 1) (Partition 1) (Context 3) False =
      Inr (b', fl)"
    by (simp add: copy_entry_def lk Let_def)
  have "length (entry (sample_bucket 3 0)) < 2 ^ 32" by (simp add: sample_bucket_def)
  from copy_entry_effects [OF bucket_ok_sample bucket_local_sample this cp] cp show ?thesis
    by (auto simp: sample_address_def assoc_sample)
qed

text \<open>
  C25. Storing a payload over an association that already exists does not give it to the others. The
  search answers a full match with the start of its last interval as the insertion slot, and the
  loops that point every other entry of the hash at the stored payload run from that slot, so they
  miss entries. In a bucket with two live associations of a hash, neither with a payload, storing
  the payload for the second leaves the first without one.
\<close>

theorem store_entry_leaves_association_without_payload:
  "bucket_ok (sample_bucket 0 0) \<and> bucket_local (sample_bucket 0 0) \<and>
    (\<exists>b' new. store_entry 7 (sample_bucket 0 0) (Partition 1) (sample_address 2) sample_fragment
        (Written \<lparr>ref_id = 4, ref_offset = 0\<rparr>) False = Inr (b', Stored 0 4) \<and>
      bucket_ok b' \<and> assoc b' (Hash 5, Partition 1, Context 2) = Some new \<and> pack_file new = 4 \<and>
      assoc b' (Hash 5, Partition 1, Context 1) = Some (sample_data 0) \<and> live (sample_data 0))"
proof -
  let ?new = "\<lparr>d_flags = PayloadStoredLocal, d_size_payload = 10, d_size_content = 10, pack_offset = 0, pack_file = 4, last_access = 7\<rparr>"
  let ?b = "set_data 1 ?new (sample_bucket 0 0) \<lparr>dirty := True\<rparr>"
  have st: "store_entry 7 (sample_bucket 0 0) (Partition 1) (sample_address 2) sample_fragment
        (Written \<lparr>ref_id = 4, ref_offset = 0\<rparr>) False = Inr (?b, Stored 0 4)"
    by (simp add: store_entry_def lookup_sample Let_def)
       (simp add: sample_simps flag_simps store_data_def update_up.simps update_slot_def set_data_def stored_flags_def Let_def)
  have lk: "lookup (sample_bucket 0 0) (Partition 1) (sample_address 2) MatchFull = (1, 0, MatchFull)" by (rule lookup_sample)
  note full = lookup_full [OF bucket_ok_sample lk]
  have one: "slot_index (sample_bucket 0 0) 1 = 1" by (simp add: sample_bucket_def)
  have "bucket_ok ?b" "assoc ?b = (assoc (sample_bucket 0 0))((Hash 5, Partition 1, Context 2) \<mapsto> ?new)"
    using bucket_ok_set_data [OF bucket_ok_sample full(1), of ?new] assoc_set_data [OF bucket_ok_sample full(1,2), of ?new]
    unfolding one by (simp_all add: sample_address_def)
  with st show ?thesis
    by (intro conjI bucket_ok_sample bucket_local_sample exI [of _ ?b] exI [of _ ?new])
       (simp_all add: assoc_sample live_def sample_data_def)
qed

end
