(* ===== verification/Pack_Store_Laws.thy ===== *)
theory Pack_Store_Laws
  imports Pack_Store
begin

text \<open>
  What the packstore promises. Its packfiles are numbered by position and the ones that take writes
  are in order; a payload it has stored stays where it was written until its packfile is truncated
  or its range is zeroed, through any of the operations that open, close, sync, fill and discard
  packfiles; a store returns; and a load finds what a store wrote.
\<close>

declare upt_Suc [simp del]

section \<open>Positional writes\<close>

lemma length_write_bytes [simp]: "length (write_bytes off p b) = max (length b) (off + length p)"
  by (simp add: write_bytes_def)

lemma slice_write_bytes_same [simp]: "slice_of off (off + length p) (write_bytes off p b) = p"
  by (simp add: write_bytes_def slice_of_def)

lemma slice_write_bytes_before: "y \<le> off \<Longrightarrow> y \<le> length b \<Longrightarrow> slice_of x y (write_bytes off p b) = slice_of x y b"
proof -
  assume le: "y \<le> off" "y \<le> length b"
  have "take y (write_bytes off p b) = take y b" using le by (simp add: write_bytes_def min_absorb1)
  moreover have "slice_of x y l = drop x (take y l)" for l :: bytes by (simp add: slice_of_def drop_take)
  ultimately show ?thesis by simp
qed

lemma slice_write_bytes_after: "off + length p \<le> x \<Longrightarrow> y \<le> length b \<Longrightarrow> slice_of x y (write_bytes off p b) = slice_of x y b"
  by (cases "x \<le> length b") (auto simp: write_bytes_def slice_of_def)

lemmas slice_write_bytes_other = slice_write_bytes_before slice_write_bytes_after

section \<open>The invariant, and what a packstore holds\<close>

definition pack_ok :: "pack_store \<Rightarrow> bool" where
  "pack_ok s \<longleftrightarrow>
     map pf_id (ps_files s) = [1..<Suc (length (ps_files s))] \<and>
     sorted_wrt (<) (ps_writeable s) \<and> set (ps_writeable s) \<subseteq> {1..length (ps_files s)} \<and>
     (\<forall>f \<in> set (ps_files s). pf_file f = ps_path s \<and> (\<not> ps_path s \<longrightarrow> pf_size f = length (pf_buffer f)))"

definition content :: "pack_store \<Rightarrow> nat \<Rightarrow> bytes" where
  "content s i = (if ps_path s then file_bytes s i
     else if 1 \<le> i \<and> i - 1 < length (ps_files s) then pf_buffer (ps_files s ! (i - 1)) else [])"

text \<open>
  A payload is held at an offset of a packfile: its bytes are there, and below the size reserved in
  the packfile, so that no later reservation covers them.
\<close>

definition held :: "pack_store \<Rightarrow> nat \<Rightarrow> nat \<Rightarrow> bytes \<Rightarrow> bool" where
  "held s i off p \<longleftrightarrow> p \<noteq> [] \<and> 1 \<le> i \<and> off + length p \<le> length (content s i) \<and>
     slice_of off (off + length p) (content s i) = p \<and>
     (ps_files s \<noteq> [] \<longrightarrow> i \<le> length (ps_files s) \<and> off + length p \<le> pf_size (ps_files s ! (i - 1)))"

definition keeps :: "pack_store \<Rightarrow> pack_store \<Rightarrow> bool" where
  "keeps s s' \<longleftrightarrow> ps_path s' = ps_path s \<and> ps_min_count s' = ps_min_count s \<and>
     (pack_ok s \<longrightarrow> pack_ok s' \<and> (\<forall>i off p. held s i off p \<longrightarrow> held s' i off p))"

text \<open>The packfiles are loaded, or there are none with content to load.\<close>

definition all_loaded :: "pack_store \<Rightarrow> bool" where
  "all_loaded s \<longleftrightarrow> ps_files s \<noteq> [] \<or> (\<forall>i off p. \<not> held s i off p)"

lemma keeps_refl [simp]: "keeps s s"
  by (simp add: keeps_def)

lemma keeps_trans [trans]: "keeps s s' \<Longrightarrow> keeps s' s'' \<Longrightarrow> keeps s s''"
  by (auto simp: keeps_def)

lemma keepsD:
  assumes "keeps s s'"
  shows "ps_path s' = ps_path s" "ps_min_count s' = ps_min_count s"
    and "pack_ok s \<Longrightarrow> pack_ok s'" "pack_ok s \<Longrightarrow> held s i off p \<Longrightarrow> held s' i off p"
  using assms by (auto simp: keeps_def)

lemma pack_ok_id:
  assumes "pack_ok s" "index < length (ps_files s)"
  shows "pf_id (ps_files s ! index) = Suc index"
proof -
  have "map pf_id (ps_files s) ! index = [1..<Suc (length (ps_files s))] ! index" using assms by (simp add: pack_ok_def)
  with assms(2) show ?thesis by (simp)
qed

lemma pack_ok_file: "pack_ok s \<Longrightarrow> index < length (ps_files s) \<Longrightarrow> pf_file (ps_files s ! index) = ps_path s"
  by (simp add: pack_ok_def)

lemma pack_ok_writeable: "pack_ok s \<Longrightarrow> i \<in> set (ps_writeable s) \<Longrightarrow> 1 \<le> i \<and> i - 1 < length (ps_files s)"
  unfolding pack_ok_def by (elim conjE) (drule (1) subsetD, simp only: atLeastAtMost_iff, arith)

text \<open>The two predicates depend on the packfiles, those taking writes and the directory alone.\<close>

lemma pack_ok_cong:
  "ps_path s' = ps_path s \<Longrightarrow> ps_files s' = ps_files s \<Longrightarrow> ps_writeable s' = ps_writeable s \<Longrightarrow> pack_ok s' = pack_ok s"
  by (simp add: pack_ok_def)

lemma held_cong:
  "ps_path s' = ps_path s \<Longrightarrow> ps_files s' = ps_files s \<Longrightarrow> file_bytes s' = file_bytes s \<Longrightarrow> held s' = held s"
  by (simp add: held_def content_def fun_eq_iff)

lemma keeps_same:
  assumes "ps_path s' = ps_path s" "ps_min_count s' = ps_min_count s" "ps_files s' = ps_files s"
    "ps_writeable s' = ps_writeable s" "file_bytes s' = file_bytes s"
  shows "keeps s s'"
  using pack_ok_cong [of s' s] held_cong [of s' s] assms by (simp add: keeps_def)

lemma keeps_faults_used [simp]: "keeps s (faults_used s)"
  by (rule keeps_same) simp_all

lemma set_file_same [simp]: "file_bytes (set_file i (file_bytes s i) s) = file_bytes s"
  by simp

lemma file_bytes_update [simp]:
  "file_bytes (s \<lparr>ps_files := x1\<rparr>) = file_bytes s" "file_bytes (s \<lparr>ps_writeable := x2\<rparr>) = file_bytes s"
  "file_bytes (s \<lparr>ps_settling := x2\<rparr>) = file_bytes s" "file_bytes (s \<lparr>ps_released := x3\<rparr>) = file_bytes s"
  "file_bytes (s \<lparr>ps_gc := x4\<rparr>) = file_bytes s" "file_bytes (s \<lparr>ps_accounted := x5\<rparr>) = file_bytes s"
  "file_bytes (s \<lparr>ps_synced := x6\<rparr>) = file_bytes s" "file_bytes (s \<lparr>ps_dir_made := x7\<rparr>) = file_bytes s"
  by (simp_all add: file_bytes_def fun_eq_iff)

section \<open>Updates of one packfile\<close>

lemma update_packfile_simps [simp]:
  "ps_path (update_packfile k f s) = ps_path s" "ps_min_count (update_packfile k f s) = ps_min_count s"
  "length (ps_files (update_packfile k f s)) = length (ps_files s)"
  "ps_writeable (update_packfile k f s) = ps_writeable s" "ps_dir (update_packfile k f s) = ps_dir s"
  "ps_settling (update_packfile k f s) = ps_settling s" "ps_faults (update_packfile k f s) = ps_faults s"
  "file_bytes (update_packfile k f s) = file_bytes s" "ps_synced (update_packfile k f s) = ps_synced s"
  "ps_released (update_packfile k f s) = ps_released s" "ps_files (update_packfile k f s) = [] \<longleftrightarrow> ps_files s = []"
  by (simp_all add: update_packfile_def file_bytes_def fun_eq_iff)

lemma update_packfile_nth:
  "j < length (ps_files s) \<Longrightarrow> ps_files (update_packfile k f s) ! j = (if j = k then f (ps_files s ! k) else ps_files s ! j)"
  by (simp add: update_packfile_def nth_list_update)

lemma update_packfile_nth_same [simp]:
  "k < length (ps_files s) \<Longrightarrow> ps_files (update_packfile k f s) ! k = f (ps_files s ! k)"
  by (simp add: update_packfile_nth)

lemma pack_ok_update:
  assumes "pack_ok s" "k < length (ps_files s)" "pf_id (f (ps_files s ! k)) = pf_id (ps_files s ! k)"
    "pf_file (f (ps_files s ! k)) = pf_file (ps_files s ! k)"
    "\<not> ps_path s \<Longrightarrow> pf_size (f (ps_files s ! k)) = length (pf_buffer (f (ps_files s ! k)))"
  shows "pack_ok (update_packfile k f s)"
proof -
  have "map pf_id ((ps_files s)[k := f (ps_files s ! k)]) = map pf_id (ps_files s)"
    using assms(2,3) by (simp add: map_update list_update_same_conv)
  then show ?thesis
    using assms by (auto simp: pack_ok_def update_packfile_def dest!: set_update_subset_insert [THEN subsetD])
qed

section \<open>Opening packfiles\<close>

lemma open_packfile_keeps:
  assumes "open_packfile i s = (r, s')"
  shows "file_bytes s' = file_bytes s" "ps_path s' = ps_path s" "ps_min_count s' = ps_min_count s"
    "ps_files s' = ps_files s" "ps_writeable s' = ps_writeable s" "ps_settling s' = ps_settling s"
    "ps_released s' = ps_released s" "ps_synced s' = ps_synced s"
    "r = Inr f \<Longrightarrow> f = new_packfile i True (length (file_bytes s i))"
    "ps_faults s = [] \<Longrightarrow> is_ok r \<and> ps_faults s' = []"
proof -
  show "file_bytes s' = file_bytes s" "ps_path s' = ps_path s" "ps_min_count s' = ps_min_count s"
    "ps_files s' = ps_files s" "ps_writeable s' = ps_writeable s" "ps_settling s' = ps_settling s"
    "ps_released s' = ps_released s" "ps_synced s' = ps_synced s"
    "r = Inr f \<Longrightarrow> f = new_packfile i True (length (file_bytes s i))"
    using assms by (auto elim!: open_packfile_cases)
  show "ps_faults s = [] \<Longrightarrow> is_ok r \<and> ps_faults s' = []"
    using assms by (auto simp: open_packfile_def io_op_def next_fault_def bind_op_def)
qed

text \<open>A packfile as it is when it is opened: as long as its file, or empty in memory.\<close>

definition fresh :: "pack_store \<Rightarrow> pack_file_state \<Rightarrow> bool" where
  "fresh s f \<longleftrightarrow> f = new_packfile (pf_id f) (ps_path s) (if ps_path s then length (file_bytes s (pf_id f)) else 0)"

lemma fresh_cong: "ps_path s' = ps_path s \<Longrightarrow> file_bytes s' = file_bytes s \<Longrightarrow> fresh s' = fresh s"
  by (simp add: fresh_def fun_eq_iff)

lemma new_packfile_fields:
  "f = new_packfile i b n \<Longrightarrow> pf_file f = b \<and> pf_size f = n \<and> pf_buffer f = [] \<and> pf_opened f = saturate_u32 n"
  by (simp add: new_packfile_def)

lemma fresh_fields:
  assumes "fresh s f"
  shows "pf_file f = ps_path s" "pf_size f = (if ps_path s then length (file_bytes s (pf_id f)) else 0)" "pf_buffer f = []"
  using new_packfile_fields [OF assms [unfolded fresh_def]] by simp_all

abbreviation small :: "pack_file_state \<Rightarrow> bool" where
  "small f \<equiv> pf_size f < PACKSTORE_SIZE_LIMIT"

definition fill_shape :: "pack_store \<Rightarrow> unit result \<Rightarrow> pack_store \<Rightarrow> bool" where
  "fill_shape s r s' \<longleftrightarrow>
     ps_path s' = ps_path s \<and> ps_min_count s' = ps_min_count s \<and> file_bytes s' = file_bytes s \<and>
     ps_settling s' = ps_settling s \<and> ps_released s' = ps_released s \<and> ps_synced s' = ps_synced s \<and>
     (\<exists>new. ps_files s' = ps_files s @ new \<and> list_all (fresh s) new \<and>
        map pf_id new = [Suc (length (ps_files s))..<Suc (length (ps_files s) + length new)] \<and>
        ps_writeable s' = ps_writeable s @ map pf_id (filter small new)) \<and>
     (is_ok r \<longrightarrow> ps_min_count s \<le> length (ps_writeable s')) \<and>
     (ps_faults s = [] \<longrightarrow> is_ok r \<and> ps_faults s' = [])"

lemma fill_shape_step:
  assumes f: "fresh s f" "pf_id f = Suc (length (ps_files s))"
    and s1: "ps_path s1 = ps_path s" "ps_min_count s1 = ps_min_count s" "file_bytes s1 = file_bytes s"
      "ps_settling s1 = ps_settling s" "ps_released s1 = ps_released s" "ps_synced s1 = ps_synced s"
      "ps_files s1 = ps_files s @ [f]" "ps_writeable s1 = ps_writeable s @ map pf_id (filter small [f])"
      "ps_faults s = [] \<Longrightarrow> ps_faults s1 = []"
    and rest: "fill_shape s1 r s'"
  shows "fill_shape s r s'"
proof -
  obtain new where new: "ps_files s' = ps_files s1 @ new" "list_all (fresh s1) new"
      "map pf_id new = [Suc (length (ps_files s1))..<Suc (length (ps_files s1) + length new)]"
      "ps_writeable s' = ps_writeable s1 @ map pf_id (filter small new)"
    using rest by (auto simp: fill_shape_def)
  have "map pf_id (f # new) = [Suc (length (ps_files s))..<Suc (length (ps_files s) + length (f # new))]"
    using f(2) new(3) s1(7) by (simp add: upt_conv_Cons)
  moreover have "list_all (fresh s) (f # new)" using f(1) new(2) fresh_cong [of s1 s] s1(1,3) by simp
  moreover have "ps_files s' = ps_files s @ (f # new)"
    "ps_writeable s' = ps_writeable s @ map pf_id (filter small (f # new))" using new(1,4) s1(7,8) by simp_all
  ultimately have "\<exists>new. ps_files s' = ps_files s @ new \<and> list_all (fresh s) new \<and>
      map pf_id new = [Suc (length (ps_files s))..<Suc (length (ps_files s) + length new)] \<and>
      ps_writeable s' = ps_writeable s @ map pf_id (filter small new)" by blast
  with rest s1 show ?thesis unfolding fill_shape_def by simp
qed

lemma fill_writeable_shape: "fill_writeable s = (r, s') \<Longrightarrow> fill_shape s r s'"
proof (induction s arbitrary: r s' rule: fill_writeable.induct)
  case (1 s)
  let ?i = "length (ps_files s) + 1"
  have same: "fill_shape s (Inr ()) s" if "\<not> length (ps_writeable s) < ps_min_count s"
    using that by (auto simp: fill_shape_def)
  show ?case
  proof (cases "length (ps_writeable s) < ps_min_count s")
    case False
    with 1(2) same show ?thesis by (simp add: fill_writeable.simps [of s])
  next
    case less: True
    obtain q s1 where op: "(if ps_path s then open_packfile ?i s else (Inr (new_packfile ?i False 0), s)) = (q, s1)"
      by (metis prod.exhaust)
    have s1: "file_bytes s1 = file_bytes s" "ps_path s1 = ps_path s" "ps_min_count s1 = ps_min_count s"
      "ps_files s1 = ps_files s" "ps_writeable s1 = ps_writeable s" "ps_settling s1 = ps_settling s"
      "ps_released s1 = ps_released s" "ps_synced s1 = ps_synced s" "ps_faults s = [] \<Longrightarrow> is_ok q \<and> ps_faults s1 = []"
      using op open_packfile_keeps [of ?i s q s1] by (auto split: if_splits)
    show ?thesis
    proof (cases q)
      case (Inl e)
      with 1(2) less have "r = Inl e" "s' = s1" unfolding fill_writeable.simps [of s] Let_def op by simp_all
      with s1 Inl show ?thesis by (auto simp: fill_shape_def)
    next
      case (Inr f)
      let ?s2 = "s1 \<lparr>ps_files := ps_files s1 @ [f],
        ps_writeable := (if small f then ps_writeable s1 @ [?i] else ps_writeable s1)\<rparr>"
      have f: "f = new_packfile ?i (ps_path s) (if ps_path s then length (file_bytes s ?i) else 0)"
        using op Inr open_packfile_keeps(9) [of ?i s q s1 f] by (auto split: if_splits)
      have id: "pf_id f = ?i" by (simp add: f new_packfile_def)
      have "fill_writeable ?s2 = (r, s')"
        using 1(2) less Inr unfolding fill_writeable.simps [of s] Let_def op by simp
      from 1(1) [OF less refl op [symmetric] Inr this] have "fill_shape ?s2 r s'" .
      moreover have "fresh s f" unfolding fresh_def id by (rule f)
      ultimately show ?thesis using id s1 by (intro fill_shape_step [of s f ?s2]) simp_all
    qed
  qed
qed

lemma fill_shape_keeps:
  assumes sh: "fill_shape s r s'" and ld: "all_loaded s"
  shows "keeps s s'"
proof -
  obtain new where new: "ps_files s' = ps_files s @ new" "list_all (fresh s) new"
      "map pf_id new = [Suc (length (ps_files s))..<Suc (length (ps_files s) + length new)]"
      "ps_writeable s' = ps_writeable s @ map pf_id (filter small new)"
    and same: "ps_path s' = ps_path s" "ps_min_count s' = ps_min_count s" "file_bytes s' = file_bytes s"
    using sh by (auto simp: fill_shape_def)
  have ids: "set (map pf_id new) = {Suc (length (ps_files s))..length (ps_files s')}"
    using new(1,3) by (simp del: set_map) auto
  have ok': "pack_ok s'" if ok: "pack_ok s"
  proof -
    have "map pf_id (ps_files s') = [1..<Suc (length (ps_files s'))]"
      using ok new(1,3) upt_add_eq_append [of 1 "Suc (length (ps_files s))" "length new"]
      by (simp add: pack_ok_def)
    note ids' = this
    have "sorted_wrt (<) (map pf_id new)" unfolding new(3) by (rule sorted_wrt_upt)
    then have "sorted_wrt (<) (map pf_id (filter small new))"
      by (simp add: sorted_wrt_map sorted_wrt_filter)
    moreover have "x < y" if "x \<in> set (ps_writeable s)" "y \<in> set (map pf_id (filter small new))" for x y
    proof -
      have "x \<le> length (ps_files s)" using ok that(1) by (auto simp: pack_ok_def)
      moreover have "y \<in> set (map pf_id new)" using that(2) by auto
      then have "Suc (length (ps_files s)) \<le> y" using ids by simp
      ultimately show ?thesis by simp
    qed
    ultimately have "sorted_wrt (<) (ps_writeable s')"
      using ok unfolding pack_ok_def new(4) sorted_wrt_append by blast
    moreover note ids'
    moreover have "set (ps_writeable s') \<subseteq> {1..length (ps_files s')}"
    proof -
      have "set (map pf_id (filter small new)) \<subseteq> set (map pf_id new)" by auto
      also have "\<dots> \<subseteq> {1..length (ps_files s')}" unfolding ids by auto
      finally show ?thesis using ok new(1,4) by (auto simp: pack_ok_def)
    qed
    moreover have "\<forall>f \<in> set new. pf_file f = ps_path s \<and> (\<not> ps_path s \<longrightarrow> pf_size f = length (pf_buffer f))"
      using new(2) fresh_fields by (auto simp: list_all_iff)
    ultimately show ?thesis using ok new(1) same(1) by (auto simp: pack_ok_def)
  qed
  moreover have "held s' i off p" if h: "held s i off p" for i off p
  proof -
    have "ps_files s \<noteq> []" using ld h by (auto simp: all_loaded_def)
    with h have i: "1 \<le> i" "i \<le> length (ps_files s)" by (simp_all add: held_def)
    then have nth: "ps_files s' ! (i - 1) = ps_files s ! (i - 1)" by (simp add: new(1) nth_append)
    have "i - 1 < length (ps_files s)" "i - 1 < length (ps_files s')" using i by (auto simp: new(1))
    then have "content s' i = content s i" using same(1,3) nth unfolding content_def by simp
    with h i(2) nth new(1) \<open>ps_files s \<noteq> []\<close> show ?thesis unfolding held_def by simp
  qed
  ultimately show ?thesis unfolding keeps_def using same by blast
qed

lemma fill_shape_loaded:
  assumes "fill_shape s r s'" "all_loaded s"
  shows "all_loaded s'"
proof -
  obtain new where "ps_files s' = ps_files s @ new" "ps_path s' = ps_path s" "file_bytes s' = file_bytes s"
    using assms(1) by (auto simp: fill_shape_def)
  with assms(2) held_cong [of s' s] show ?thesis by (cases "new = []") (auto simp: all_loaded_def)
qed

lemma fill_writeable_keeps: "all_loaded s \<Longrightarrow> keeps s (snd (fill_writeable s))"
  using fill_writeable_shape [of s] fill_shape_keeps by (metis prod.collapse)

section \<open>Loading\<close>

text \<open>What an operation on the directory alone leaves as it was.\<close>

definition idle :: "pack_store \<Rightarrow> pack_store \<Rightarrow> bool" where
  "idle s s' \<longleftrightarrow> ps_path s' = ps_path s \<and> ps_min_count s' = ps_min_count s \<and> ps_files s' = ps_files s \<and>
     ps_writeable s' = ps_writeable s \<and> file_bytes s' = file_bytes s \<and> ps_settling s' = ps_settling s \<and>
     ps_released s' = ps_released s \<and> ps_synced s' = ps_synced s \<and> (ps_faults s = [] \<longrightarrow> ps_faults s' = [])"

lemma idle_refl: "idle s s"
  by (simp add: idle_def)

lemma idle_trans: "idle s s' \<Longrightarrow> idle s' s'' \<Longrightarrow> idle s s''"
  by (simp add: idle_def)

lemma idle_keeps: "idle s s' \<Longrightarrow> keeps s s'"
  by (rule keeps_same) (simp_all add: idle_def)

lemma idle_faults_used: "idle s (faults_used s)"
  by (simp add: idle_def) (simp add: faults_used_def)

lemma idle_io: "io_op what s = (r, s') \<Longrightarrow> idle s s'"
  by (auto dest!: io_op_state simp: idle_faults_used)

lemma idle_open: "open_packfile i s = (r, s') \<Longrightarrow> idle s s'"
  using open_packfile_keeps [of i s r s'] by (simp add: idle_def)

lemma idle_bind:
  assumes "bind_op m f s = (r, s')" "\<And>q t. m s = (q, t) \<Longrightarrow> idle s t" "\<And>x t. f x t = (r, s') \<Longrightarrow> idle t s'"
  shows "idle s s'"
  using assms(1) by (cases rule: bind_op_cases) (auto intro: assms(2) idle_trans [OF assms(2) assms(3)])

lemma scan_entries_idle:
  "scan_entries ids n s = (r, s') \<Longrightarrow> idle s s' \<and> (\<forall>m. r = Inr m \<longrightarrow> n \<le> m \<and> (\<forall>i \<in> set ids. i \<le> m))"
proof (induction ids arbitrary: n s)
  case Nil
  then show ?case by (auto simp: idle_refl)
next
  case (Cons a ids)
  from Cons.prems show ?case
    by (auto elim!: bind_op_cases dest!: idle_io Cons.IH intro: idle_trans)
qed

lemma open_packfiles_eq:
  "open_packfiles ids acc s = (r, s') \<Longrightarrow>
     idle s s' \<and> (\<forall>fs. r = Inr fs \<longrightarrow> fs = acc @ map (\<lambda>i. new_packfile i True (length (file_bytes s i))) ids)"
proof (induction ids arbitrary: acc s)
  case Nil
  then show ?case by (auto simp: idle_refl)
next
  case (Cons a ids)
  from Cons.prems have "bind_op (open_packfile a) (\<lambda>f. open_packfiles ids (acc @ [f])) s = (r, s')" by simp
  then show ?case
  proof (cases rule: bind_op_cases)
    case (failed e)
    then show ?thesis by (auto dest: idle_open)
  next
    case (went f t)
    note t = open_packfile_keeps [OF went(1)] idle_open [OF went(1)]
    from Cons.IH [OF went(2)] have "idle t s'"
      "\<forall>fs. r = Inr fs \<longrightarrow> fs = (acc @ [f]) @ map (\<lambda>i. new_packfile i True (length (file_bytes t i))) ids" by blast+
    with t(11) t(1) t(9) [OF refl] show ?thesis by (auto intro: idle_trans)
  qed
qed

lemma load_packfiles_result:
  assumes "load_packfiles s = (r, s')"
  shows "idle s s' \<and> (\<forall>fs w n. r = Inr (fs, w, n) \<longrightarrow>
    (\<exists>count. fs = map (\<lambda>i. new_packfile i True (length (file_bytes s i))) [1..<Suc count] \<and>
      w = map pf_id (filter small fs) \<and> (\<forall>i. file_bytes s i \<noteq> [] \<longrightarrow> i \<le> count)))"
proof -
  have made: "idle t t'" if "(if ps_dir_made t then (Inr (), t)
      else bind_op (io_op w) (\<lambda>_. modify_op (\<lambda>s. s \<lparr>ps_dir_made := True\<rparr>)) t) = (q, t')" for w t q t'
    using that by (auto split: if_splits elim!: bind_op_cases dest!: idle_io simp: idle_refl) (auto simp: idle_def)
  show ?thesis
  proof (cases r)
    case (Inl e)
    with assms show ?thesis unfolding load_packfiles_def
      by (auto elim!: bind_op_cases dest!: idle_io made scan_entries_idle open_packfiles_eq) (meson idle_trans)+
  next
    case (Inr x)
    from assms Inr obtain w1 w2 w3 t1 t2 t3 t4 count fs where
      "io_op w1 s = (Inr (), t1)"
      "(if ps_dir_made t1 then (Inr (), t1)
        else bind_op (io_op w2) (\<lambda>_. modify_op (\<lambda>s. s \<lparr>ps_dir_made := True\<rparr>)) t1) = (Inr (), t2)"
      "io_op w3 t2 = (Inr (), t3)" "scan_entries (sorted_list_of_fset (fmdom (ps_dir t3))) 0 t3 = (Inr count, t4)"
      "open_packfiles [1..<count + 1] [] t4 = (Inr fs, s')"
      and x: "x = (fs, map pf_id (filter small fs), sum_list (map pf_size fs))"
      unfolding load_packfiles_def by (elim bind_op_cases) simp_all
    note * = this(1,2,3,4,5)
    have st: "idle s t3" "idle s t4" "idle s s'"
      using *(1,3,4,5) made [OF *(2)] by (meson idle_io idle_trans scan_entries_idle open_packfiles_eq)+
    have "i \<le> count" if "file_bytes s i \<noteq> []" for i
    proof -
      have "file_bytes t3 i \<noteq> []" using that st(1) by (simp add: idle_def)
      then have "i |\<in>| fmdom (ps_dir t3)" by (auto simp: file_bytes_def fmdomI split: option.splits)
      then show ?thesis using scan_entries_idle [OF *(4)] by simp
    qed
    moreover have "fs = map (\<lambda>i. new_packfile i True (length (file_bytes s i))) [1..<Suc count]"
      using open_packfiles_eq [OF *(5)] st(2) by (simp add: idle_def)
    ultimately show ?thesis using st(3) Inr x by blast
  qed
qed

text \<open>The fields of a packfile that say what it holds.\<close>

definition core :: "pack_file_state \<Rightarrow> nat \<times> bool \<times> nat \<times> bytes" where
  "core f = (pf_id f, pf_file f, pf_size f, pf_buffer f)"

lemma core_nth:
  assumes "map core fs' = map core fs" "k < length fs"
  shows "pf_id (fs' ! k) = pf_id (fs ! k)" "pf_file (fs' ! k) = pf_file (fs ! k)"
    "pf_size (fs' ! k) = pf_size (fs ! k)" "pf_buffer (fs' ! k) = pf_buffer (fs ! k)"
proof -
  have "length fs' = length fs" using assms(1) by (rule map_eq_imp_length_eq)
  with assms have "core (fs' ! k) = core (fs ! k)" by (metis nth_map)
  then show "pf_id (fs' ! k) = pf_id (fs ! k)" "pf_file (fs' ! k) = pf_file (fs ! k)"
    "pf_size (fs' ! k) = pf_size (fs ! k)" "pf_buffer (fs' ! k) = pf_buffer (fs ! k)" by (simp_all add: core_def)
qed

lemma core_reopen: "map core (reopen_released c fs) = map core fs"
  by (rule nth_equalityI) (auto simp: reopen_released_def core_def nth_list_update)

lemma core_fold_reopen: "map core (fold reopen_released cs fs) = map core fs"
  by (induction cs arbitrary: fs) (simp_all add: core_reopen)

lemma pack_ok_core:
  assumes "map core (ps_files s') = map core (ps_files s)" "ps_path s' = ps_path s" "ps_writeable s' = ps_writeable s"
  shows "pack_ok s' = pack_ok s"
proof -
  have len: "length (ps_files s') = length (ps_files s)" using assms(1) by (rule map_eq_imp_length_eq)
  have "map pf_id (ps_files s') = map pf_id (ps_files s)"
    using core_nth(1) [OF assms(1)] len by (intro nth_equalityI) simp_all
  moreover have "(\<forall>f \<in> set (ps_files s'). pf_file f = b \<and> (\<not> b \<longrightarrow> pf_size f = length (pf_buffer f))) =
      (\<forall>f \<in> set (ps_files s). pf_file f = b \<and> (\<not> b \<longrightarrow> pf_size f = length (pf_buffer f)))" for b
    using core_nth [OF assms(1)] len by (simp add: all_set_conv_all_nth)
  ultimately show ?thesis unfolding pack_ok_def len assms(2,3) by simp
qed

lemma held_core:
  assumes "map core (ps_files s') = map core (ps_files s)" "ps_path s' = ps_path s" "file_bytes s' = file_bytes s"
  shows "held s' = held s"
proof -
  have len: "length (ps_files s') = length (ps_files s)" using assms(1) by (rule map_eq_imp_length_eq)
  then have e: "ps_files s' = [] \<longleftrightarrow> ps_files s = []" by (metis length_0_conv)
  have c: "content s' i = content s i" for i
    using core_nth(4) [OF assms(1), of "i - 1"] len assms(2,3) by (simp add: content_def)
  have "held s' i off p = held s i off p" for i off p
  proof (cases "ps_files s \<noteq> [] \<and> 1 \<le> i \<and> i \<le> length (ps_files s)")
    case True
    then have "i - 1 < length (ps_files s)" by auto
    from core_nth(3) [OF assms(1) this] show ?thesis using len e c by (simp add: held_def)
  next
    case False
    then show ?thesis using len e c by (auto simp: held_def)
  qed
  then show ?thesis by (simp add: fun_eq_iff)
qed

lemma keeps_core:
  assumes "map core (ps_files s') = map core (ps_files s)" "ps_path s' = ps_path s" "file_bytes s' = file_bytes s"
    "ps_writeable s' = ps_writeable s" "ps_min_count s' = ps_min_count s"
  shows "keeps s s'"
  using pack_ok_core [OF assms(1,2,4)] held_core [OF assms(1,2,3)] assms(2,5) by (simp add: keeps_def)

lemma all_loaded_core:
  assumes "map core (ps_files s') = map core (ps_files s)" "ps_path s' = ps_path s" "file_bytes s' = file_bytes s"
  shows "all_loaded s' = all_loaded s"
proof -
  have "ps_files s' = [] \<longleftrightarrow> ps_files s = []" using assms(1) by (metis map_is_Nil_conv)
  with held_core [OF assms] show ?thesis by (simp add: all_loaded_def)
qed

text \<open>The state once the packfiles of a directory are loaded.\<close>

lemma loaded_state:
  fixes s s' count fs
  defines "fs \<equiv> map (\<lambda>i. new_packfile i True (length (file_bytes s i))) [1..<Suc count]"
  assumes s: "ps_files s = []" "ps_path s"
    and count: "\<forall>i. file_bytes s i \<noteq> [] \<longrightarrow> i \<le> count"
    and s': "ps_path s' = ps_path s" "ps_min_count s' = ps_min_count s" "file_bytes s' = file_bytes s"
      "map core (ps_files s') = map core fs" "ps_writeable s' = map pf_id (filter small fs)"
  shows "keeps s s' \<and> all_loaded s'"
proof -
  define t where "t = s' \<lparr>ps_files := fs\<rparr>"
  have fs: "length fs = count" "\<And>k. k < count \<Longrightarrow> fs ! k = new_packfile (Suc k) True (length (file_bytes s (Suc k)))"
    by (simp_all add: fs_def nth_upt)
  have ids: "map pf_id fs = [1..<Suc count]" by (rule nth_equalityI) (simp_all add: fs new_packfile_def nth_upt)
  have "sorted_wrt (<) (map pf_id fs)" unfolding ids by (rule sorted_wrt_upt)
  then have "sorted_wrt (<) (map pf_id (filter small fs))" by (simp add: sorted_wrt_map sorted_wrt_filter)
  moreover have "set (map pf_id (filter small fs)) \<subseteq> set (map pf_id fs)" by auto
  then have "set (map pf_id (filter small fs)) \<subseteq> {1..count}" unfolding ids by auto
  moreover have "\<forall>f \<in> set fs. pf_file f" by (auto simp: fs_def new_packfile_def)
  ultimately have ok: "pack_ok t" using s(2) s'(1,5) ids fs(1) by (simp add: pack_ok_def t_def)
  have held: "held t i off p" if h: "held s i off p" for i off p
  proof -
    have c: "content s i = file_bytes s i" "content t i = file_bytes s i"
      using s(2) s'(1,3) by (simp_all add: content_def t_def)
    have "file_bytes s i \<noteq> []" using h c(1) by (auto simp: held_def)
    with count h have i: "1 \<le> i" "i \<le> count" by (auto simp: held_def)
    then have "pf_size (fs ! (i - 1)) = length (file_bytes s i)" using fs(2) [of "i - 1"] by (simp add: new_packfile_def)
    with h c i fs(1) show ?thesis by (simp add: held_def t_def)
  qed
  have core: "map core (ps_files s') = map core (ps_files t)" using s'(4) by (simp add: t_def)
  have st: "ps_path s' = ps_path t" "file_bytes s' = file_bytes t" "ps_writeable s' = ps_writeable t"
    by (simp_all add: t_def)
  have "all_loaded t"
  proof (cases "count = 0")
    case True
    then have "file_bytes s i = []" if "1 \<le> i" for i using count [rule_format, of i] that by (cases "file_bytes s i = []") auto
    then have "\<not> held t i off p" for i off p
      using s(2) s'(1,3) by (cases "1 \<le> i") (simp_all add: held_def content_def t_def)
    then show ?thesis by (simp add: all_loaded_def)
  next
    case False
    then show ?thesis using fs(1) by (auto simp: all_loaded_def t_def)
  qed
  with all_loaded_core [OF core st(1,2)] have "all_loaded s'" by simp
  moreover have "keeps s t" using ok held s'(1,2) by (simp add: keeps_def t_def)
  moreover have "keeps t s'" by (rule keeps_core) (use core st in \<open>simp_all add: t_def\<close>)
  ultimately show ?thesis using keeps_trans by blast
qed

lemma memory_all_loaded: "\<not> ps_path s \<Longrightarrow> all_loaded s"
  by (auto simp: all_loaded_def held_def content_def)

lemma reload_keeps:
  assumes "reload s = (r, s')"
  shows "keeps s s' \<and> (is_ok r \<longrightarrow> all_loaded s')"
proof (cases "ps_files s = [] \<and> ps_path s")
  case False
  then have "s' = s" using assms unfolding reload_def if_not_P [OF False] by simp
  then show ?thesis using False memory_all_loaded [of s] by (auto simp: all_loaded_def)
next
  case True
  show ?thesis using assms unfolding reload_def if_P [OF True]
  proof (cases rule: bind_op_cases)
    case (failed e)
    then show ?thesis using load_packfiles_result [OF failed(1)] by (simp add: idle_keeps)
  next
    case (went x u)
    obtain fs w n where x: "x = (fs, w, n)" by (metis prod.exhaust)
    from load_packfiles_result [OF went(1)] x obtain count where u: "idle s u"
      "fs = map (\<lambda>i. new_packfile i True (length (file_bytes s i))) [1..<Suc count]"
      "w = map pf_id (filter small fs)" "\<forall>i. file_bytes s i \<noteq> [] \<longrightarrow> i \<le> count" by auto
    have s': "ps_files s' = fold reopen_released (ps_released u) fs" "ps_writeable s' = w" "ps_path s' = ps_path u"
      "ps_min_count s' = ps_min_count u" "file_bytes s' = file_bytes u"
      using went(2) unfolding x by auto
    have "keeps s s' \<and> all_loaded s'"
      using u(1,4) True by (intro loaded_state [of s count]) (simp_all add: s' idle_def core_fold_reopen u(2,3))
    then show ?thesis by simp
  qed
qed

lemma resume_keeps:
  assumes "resume s = (r, s')"
  shows "keeps s s' \<and> (is_ok r \<longrightarrow> all_loaded s')"
  using assms unfolding resume_def
proof (cases rule: bind_op_cases)
  case (failed e)
  then show ?thesis using reload_keeps [OF failed(1)] by simp
next
  case (went x t)
  have l: "keeps s t" "all_loaded t" using reload_keeps [OF went(1)] by simp_all
  have "s' = snd (fill_writeable t)" using went(2) by simp
  then have sh: "fill_shape t (fst (fill_writeable t)) s'" by (intro fill_writeable_shape) simp
  show ?thesis using keeps_trans [OF l(1) fill_shape_keeps [OF sh l(2)]] fill_shape_loaded [OF sh l(2)] by simp
qed

lemma loaded_packfiles_keeps:
  "loaded_packfiles s = (r, s') \<Longrightarrow> keeps s s' \<and> (is_ok r \<longrightarrow> all_loaded s')"
  using resume_keeps [of s r s'] by (auto simp: loaded_packfiles_def all_loaded_def split: if_splits)

section \<open>Syncing, settling, closing\<close>

lemma core_fields [simp]:
  "core (f \<lparr>pf_dirty := x\<rparr>) = core f" "core (f \<lparr>pf_settled := x\<rparr>) = core f" "core (f \<lparr>pf_sync_failed := x\<rparr>) = core f"
  by (simp_all add: core_def)

lemma core_update:
  assumes "\<And>x. core (f x) = core x"
  shows "map core (ps_files (update_packfile k f s)) = map core (ps_files s)"
proof (rule nth_equalityI)
  fix i assume "i < length (map core (ps_files (update_packfile k f s)))"
  then show "map core (ps_files (update_packfile k f s)) ! i = map core (ps_files s) ! i"
    using update_packfile_nth [of i s k f] by (cases "i = k") (simp_all add: assms)
qed simp

lemma sorted_wrt_remove1: "sorted_wrt P xs \<Longrightarrow> sorted_wrt P (remove1 x xs)"
proof (induction xs)
  case (Cons y ys)
  then show ?case using set_remove1_subset [of x ys] by (simp add: subset_iff)
qed simp

lemma sync_packfile_cases:
  fixes s :: pack_store and k :: nat
  defines "pf \<equiv> ps_files s ! k"
  assumes "sync_packfile k s = (r, s')"
  obtains (broken) "pf_sync_failed pf" "s' = s" "\<not> is_ok r"
    | (clean) "\<not> pf_sync_failed pf" "\<not> pf_dirty pf" "s' = s" "is_ok r"
    | (memory) "\<not> pf_sync_failed pf" "\<not> pf_file pf" "s' = update_packfile k (\<lambda>f. f \<lparr>pf_dirty := False\<rparr>) s" "is_ok r"
    | (synced) "\<not> pf_sync_failed pf" "pf_file pf" "is_ok r"
        "s' = update_packfile k (\<lambda>f. f \<lparr>pf_dirty := False\<rparr>)
           (faults_used s \<lparr>ps_synced := (ps_synced s)(pf_id pf := length (file_bytes s (pf_id pf)))\<rparr>)"
    | (unsynced) "\<not> pf_sync_failed pf" "ps_faults s \<noteq> []" "\<not> is_ok r"
        "s' = update_packfile k (\<lambda>f. f \<lparr>pf_dirty := True, pf_sync_failed := True\<rparr>) (faults_used s)"
proof -
  have eq: "(r, s') = sync_packfile k s" using assms(2) by simp
  show thesis
  proof (cases "pf_sync_failed pf \<or> \<not> pf_dirty pf \<or> \<not> pf_file pf")
    case True
    then show ?thesis using eq broken clean memory by (auto simp: sync_packfile_def Let_def pf_def split: if_splits)
  next
    case False
    then show ?thesis using eq synced unsynced
      by (cases "ps_faults s"; cases "hd (ps_faults s)")
         (auto simp: sync_packfile_def Let_def pf_def next_fault_eq)
  qed
qed

lemma sync_packfile_core:
  assumes "sync_packfile k s = (r, s')"
  shows "map core (ps_files s') = map core (ps_files s)" "ps_path s' = ps_path s" "file_bytes s' = file_bytes s"
    "ps_writeable s' = ps_writeable s" "ps_min_count s' = ps_min_count s" "ps_settling s' = ps_settling s"
  using assms by (cases rule: sync_packfile_cases; simp add: core_update)+

lemma settling_keeps: "keeps t (t \<lparr>ps_settling := x\<rparr>)" "all_loaded (t \<lparr>ps_settling := x\<rparr>) = all_loaded t"
  by (rule keeps_same, simp_all) (simp add: all_loaded_def held_cong [of "t \<lparr>ps_settling := x\<rparr>" t])

text \<open>Taking packfiles off the list of those that take writes, then opening as many as are missing.\<close>

lemma restrict_writeable_keeps:
  assumes "all_loaded s" "sorted_wrt (<) (ps_writeable s) \<Longrightarrow> sorted_wrt (<) w" "set w \<subseteq> set (ps_writeable s)"
  shows "keeps s (snd (fill_writeable (s \<lparr>ps_writeable := w\<rparr>))) \<and> all_loaded (snd (fill_writeable (s \<lparr>ps_writeable := w\<rparr>)))"
proof -
  let ?s1 = "s \<lparr>ps_writeable := w\<rparr>"
  define s2 where "s2 = snd (fill_writeable ?s1)"
  have h: "held ?s1 = held s" by (rule held_cong) simp_all
  then have ld: "all_loaded ?s1" using assms(1) by (simp add: all_loaded_def)
  have "pack_ok s \<Longrightarrow> pack_ok ?s1" using assms(2,3) by (auto simp: pack_ok_def)
  then have k: "keeps s ?s1" using h by (simp add: keeps_def)
  have sh: "fill_shape ?s1 (fst (fill_writeable ?s1)) s2" by (rule fill_writeable_shape) (simp add: s2_def)
  show ?thesis
    using keeps_trans [OF k fill_shape_keeps [OF sh ld]] fill_shape_loaded [OF sh ld] unfolding s2_def by blast
qed

lemma mark_full_keeps:
  assumes "all_loaded s"
  shows "keeps s (mark_full i s)" "all_loaded (mark_full i s)"
proof -
  define t where "t = snd (fill_writeable (s \<lparr>ps_writeable := remove1 i (ps_writeable s)\<rparr>))"
  have t: "keeps s t \<and> all_loaded t" unfolding t_def
    by (rule restrict_writeable_keeps [OF assms]) (auto intro: sorted_wrt_remove1 dest: set_remove1_subset [THEN subsetD])
  have m: "mark_full i s = t \<or> mark_full i s = t \<lparr>ps_settling := ps_settling t @ [i]\<rparr>"
    by (simp add: mark_full_def Let_def t_def)
  show "keeps s (mark_full i s)" using m t keeps_trans [OF _ settling_keeps(1)] by metis
  show "all_loaded (mark_full i s)" using m t settling_keeps(2) by metis
qed

lemma settle_keeps: "keeps s (settle i s)"
proof -
  define t where "t = s \<lparr>ps_settling := remove1 i (ps_settling s)\<rparr>"
  have t: "keeps s t" unfolding t_def by (rule settling_keeps)
  obtain r u where sy: "sync_packfile (i - 1) t = (r, u)" by (metis prod.exhaust)
  note c = sync_packfile_core [OF sy]
  have u: "keeps t u" by (rule keeps_core) (use c in simp_all)
  moreover have "keeps u (update_packfile (i - 1) (\<lambda>f. f \<lparr>pf_settled := True\<rparr>) u)"
    by (rule keeps_core) (simp_all add: core_update)
  ultimately have "keeps t (update_packfile (i - 1) (\<lambda>f. f \<lparr>pf_settled := True\<rparr>) u)" by (rule keeps_trans)
  with t u sy show ?thesis
    unfolding settle_def Let_def t_def [symmetric] by (auto split: sum.splits intro: keeps_trans)
qed

lemma closed_keeps:
  assumes "ps_path s" "ps_path s' = ps_path s" "ps_min_count s' = ps_min_count s" "file_bytes s' = file_bytes s"
    "ps_files s' = []" "ps_writeable s' = []"
  shows "keeps s s'"
  using assms by (auto simp: keeps_def pack_ok_def held_def content_def)

lemma release_files_keeps: "keeps s (snd (release_files b s))"
  by (cases "\<not> ps_path s \<or> b \<or> ps_files s = []") (auto simp: release_files_def intro: closed_keeps)

lemma forget_keeps: "ps_path s \<Longrightarrow> keeps s (forget s)"
  by (rule closed_keeps) (simp_all add: forget_def)

section \<open>Stopping and discarding packfiles\<close>

lemma stop_writes_keeps:
  assumes "stop_writes ids s = (r, s')"
  shows "keeps s s'"
proof (cases "ps_path s")
  case False
  then show ?thesis using assms by (simp add: stop_writes_def)
next
  case True
  then have "bind_op loaded_packfiles (\<lambda>_ s.
        if \<not> list_all (valid_id s) ids then (Inl (Internal ''Invalid packfile''), s)
        else (Inr (map (\<lambda>i. pf_size (ps_files s ! (i - 1))) ids),
              snd (fill_writeable (s \<lparr>ps_writeable := filter (\<lambda>i. i \<notin> set ids) (ps_writeable s)\<rparr>)))) s = (r, s')"
    using assms by (simp add: stop_writes_def)
  then show ?thesis
  proof (cases rule: bind_op_cases)
    case (failed e)
    then show ?thesis using loaded_packfiles_keeps [OF failed(1)] by simp
  next
    case (went x t)
    have t: "keeps s t" "all_loaded t" using loaded_packfiles_keeps [OF went(1)] by simp_all
    have "keeps t (snd (fill_writeable (t \<lparr>ps_writeable := filter (\<lambda>i. i \<notin> set ids) (ps_writeable t)\<rparr>)))"
      using restrict_writeable_keeps [OF t(2), of "filter (\<lambda>i. i \<notin> set ids) (ps_writeable t)"]
      by (auto intro: sorted_wrt_filter)
    with t(1) went(2) show ?thesis by (auto split: if_splits intro: keeps_trans)
  qed
qed

lemma remove_packfile_bytes: "j \<noteq> i \<Longrightarrow> file_bytes (remove_packfile i s) j = file_bytes s j"
  by (simp add: remove_packfile_def next_fault_eq file_bytes_def split: option.splits list.splits)

lemma discard_step_keeps:
  fixes s :: pack_store
  defines "n \<equiv> length (ps_files s)"
  assumes "ps_files s \<noteq> []" "pf_size (last (ps_files s)) = 0"
  shows "keeps s (remove_packfile n (s \<lparr>ps_writeable := filter (\<lambda>i. i \<noteq> n) (ps_writeable s), ps_files := butlast (ps_files s)\<rparr>))"
    (is "keeps s ?t")
proof -
  have nth: "butlast (ps_files s) ! k = ps_files s ! k" if "k < n - 1" for k using that by (simp add: nth_butlast n_def)
  have ok: "pack_ok ?t" if "pack_ok s"
  proof -
    have "map pf_id (butlast (ps_files s)) = butlast [1..<Suc n]" using that by (simp add: pack_ok_def map_butlast n_def)
    also have "\<dots> = [1..<n]" using assms(2) by (simp add: n_def upt_Suc)
    finally have "map pf_id (butlast (ps_files s)) = [1..<Suc (length (butlast (ps_files s)))]"
      using assms(2) by (simp add: n_def)
    moreover have "set (filter (\<lambda>i. i \<noteq> n) (ps_writeable s)) \<subseteq> {1..length (butlast (ps_files s))}"
      using that by (fastforce simp: pack_ok_def n_def)
    ultimately show ?thesis using that by (auto simp: pack_ok_def intro: sorted_wrt_filter dest: in_set_butlastD)
  qed
  have "held ?t i off p" if h: "held s i off p" for i off p
  proof -
    have i: "1 \<le> i" "i \<le> n" "off + length p \<le> pf_size (ps_files s ! (i - 1))" "p \<noteq> []"
      using h assms(2) by (auto simp: held_def n_def)
    have "i \<noteq> n" using i(3,4) assms(2,3) by (auto simp: n_def last_conv_nth)
    then have lt: "i - 1 < n - 1" "i \<le> n - 1" "i - 1 < n" using i by auto
    have "content ?t i = content s i"
      using nth [OF lt(1)] lt \<open>i \<noteq> n\<close> by (simp add: content_def remove_packfile_bytes n_def)
    with h lt nth [OF lt(1)] assms(2) show ?thesis by (simp add: held_def n_def)
  qed
  with ok show ?thesis by (simp add: keeps_def)
qed

lemma discard_empty_tail_keeps:
  "0 < ps_min_count s \<Longrightarrow> ps_files s \<noteq> [] \<Longrightarrow> keeps s (discard_empty_tail s) \<and> ps_files (discard_empty_tail s) \<noteq> []"
proof (induction s rule: discard_empty_tail.induct)
  case (1 s)
  show ?case
  proof (cases "ps_min_count s < length (ps_files s) \<and> pf_size (last (ps_files s)) = 0")
    case False
    then show ?thesis using 1(3) unfolding discard_empty_tail.simps [of s] if_not_P [OF False] by simp
  next
    case True
    define t where "t = remove_packfile (length (ps_files s)) (s \<lparr>
      ps_writeable := filter (\<lambda>i. i \<noteq> length (ps_files s)) (ps_writeable s), ps_files := butlast (ps_files s)\<rparr>)"
    have eq: "discard_empty_tail s = discard_empty_tail t"
      unfolding discard_empty_tail.simps [of s] if_P [OF True] Let_def t_def ..
    have "0 < length (butlast (ps_files s))" unfolding length_butlast using 1(2) True by linarith
    then have "butlast (ps_files s) \<noteq> []" by (rule length_greater_0_conv [THEN iffD1])
    then have t: "0 < ps_min_count t" "ps_files t \<noteq> []" using 1(2) by (simp_all add: t_def)
    have "keeps s t" unfolding t_def using True 1(3) by (intro discard_step_keeps) simp_all
    then show ?thesis using 1(1) [OF True refl] t unfolding eq t_def [symmetric] by (auto intro: keeps_trans)
  qed
qed

lemma insert_writeable_ok:
  assumes "sorted_wrt (<) w" "set w \<subseteq> {1..n}" "1 \<le> i" "i \<le> n"
  shows "sorted_wrt (<) (insert_writeable i w)" "set (insert_writeable i w) \<subseteq> {1..n}"
proof -
  have "sorted w" "distinct w" using assms(1) strict_sorted_iff by blast+
  then have "i \<notin> set w \<Longrightarrow> sorted_wrt (<) (insort i w)"
    by (simp add: strict_sorted_iff sorted_insort distinct_insort)
  then show "sorted_wrt (<) (insert_writeable i w)" using assms(1) by (simp add: insert_writeable_def)
  show "set (insert_writeable i w) \<subseteq> {1..n}" using assms by (auto simp: insert_writeable_def set_insort_key)
qed

lemma insert_writeable_keeps:
  assumes "valid_id s i"
  shows "keeps s (s \<lparr>ps_writeable := insert_writeable i (ps_writeable s)\<rparr>)" (is "keeps s ?t")
proof -
  have "held ?t = held s" by (rule held_cong) simp_all
  moreover have "pack_ok ?t" if "pack_ok s"
  proof -
    have "1 \<le> i" "i \<le> length (ps_files s)" using assms by (auto simp: valid_id_def)
    with that insert_writeable_ok [of "ps_writeable s" "length (ps_files s)" i] show ?thesis by (simp add: pack_ok_def)
  qed
  ultimately show ?thesis by (simp add: keeps_def)
qed

lemma restart_each_keeps: "keeps s (restart_each ids s) \<and> ps_files (restart_each ids s) = ps_files s"
proof (induction ids arbitrary: s)
  case (Cons i ids)
  let ?t = "if \<not> valid_id s i then s
        else if pf_size (ps_files s ! (i - 1)) \<ge> PACKSTORE_SIZE_LIMIT \<or> pf_sync_failed (ps_files s ! (i - 1)) then s
        else s \<lparr>ps_writeable := insert_writeable i (ps_writeable s)\<rparr>"
  have "keeps s ?t" "ps_files ?t = ps_files s" using insert_writeable_keeps [of s i] by auto
  with Cons.IH [of ?t] show ?case by (auto intro: keeps_trans)
qed simp

lemma restart_writes_keeps:
  assumes "0 < ps_min_count s"
  shows "keeps s (restart_writes ids s)"
proof (cases "ps_files s = []")
  case True
  then show ?thesis by (simp add: restart_writes_def)
next
  case False
  define t where "t = restart_each ids s"
  have t: "keeps s t" "ps_files t \<noteq> []" using restart_each_keeps [of s ids] False by (simp_all add: t_def)
  have "0 < ps_min_count t" using keepsD(2) [OF t(1)] assms by simp
  note d = discard_empty_tail_keeps [OF this t(2)]
  have "keeps (discard_empty_tail t) (snd (fill_writeable (discard_empty_tail t)))"
    using d by (intro fill_writeable_keeps) (simp add: all_loaded_def)
  with t(1) d False show ?thesis unfolding restart_writes_def t_def [symmetric] by (auto intro: keeps_trans)
qed

section \<open>Changing one packfile\<close>

text \<open>What an operation keeps of everything outside a region of the packfiles.\<close>

definition keeps_outside :: "(nat \<Rightarrow> nat \<Rightarrow> nat \<Rightarrow> bool) \<Rightarrow> pack_store \<Rightarrow> pack_store \<Rightarrow> bool" where
  "keeps_outside region s s' \<longleftrightarrow> ps_path s' = ps_path s \<and> ps_min_count s' = ps_min_count s \<and>
     (pack_ok s \<longrightarrow> pack_ok s' \<and> (\<forall>i off p. held s i off p \<longrightarrow> \<not> region i off (length p) \<longrightarrow> held s' i off p))"

lemma keeps_keeps_outside: "keeps s s' \<Longrightarrow> keeps_outside region s s'"
  by (simp add: keeps_def keeps_outside_def)

lemma keeps_outside_trans: "keeps_outside region s s' \<Longrightarrow> keeps_outside region s' s'' \<Longrightarrow> keeps_outside region s s''"
  by (auto simp: keeps_outside_def)

text \<open>A change to one packfile alone keeps every other.\<close>

lemma change_keeps_others:
  assumes k: "k < length (ps_files s)"
    and same: "ps_path s' = ps_path s" "ps_min_count s' = ps_min_count s" "ps_writeable s' = ps_writeable s"
      "length (ps_files s') = length (ps_files s)"
      "\<And>j. j < length (ps_files s) \<Longrightarrow> j \<noteq> k \<Longrightarrow> ps_files s' ! j = ps_files s ! j"
      "pf_id (ps_files s' ! k) = pf_id (ps_files s ! k)" "pf_file (ps_files s' ! k) = pf_file (ps_files s ! k)"
    and mem: "\<not> ps_path s \<Longrightarrow> pack_ok s \<Longrightarrow> pf_size (ps_files s' ! k) = length (pf_buffer (ps_files s' ! k))"
    and bytes: "\<And>i. i \<noteq> Suc k \<Longrightarrow> file_bytes s' i = file_bytes s i"
    and part: "\<And>off p. pack_ok s \<Longrightarrow> held s (Suc k) off p \<Longrightarrow> \<not> region (Suc k) off (length p) \<Longrightarrow> held s' (Suc k) off p"
  shows "keeps_outside region s s'"
proof -
  have id: "pf_id (ps_files s' ! j) = pf_id (ps_files s ! j)" "pf_file (ps_files s' ! j) = pf_file (ps_files s ! j)"
    if "j < length (ps_files s)" for j using same(5-7) that by (cases "j = k"; simp)+
  have ids: "map pf_id (ps_files s') = map pf_id (ps_files s)" by (rule nth_equalityI) (simp_all add: same(4) id(1))
  have ok': "pack_ok s'" if ok: "pack_ok s"
  proof -
    have "\<forall>f \<in> set (ps_files s'). pf_file f = ps_path s \<and> (\<not> ps_path s \<longrightarrow> pf_size f = length (pf_buffer f))"
      unfolding all_set_conv_all_nth same(4)
    proof (intro allI impI)
      fix j assume j: "j < length (ps_files s)"
      show "pf_file (ps_files s' ! j) = ps_path s \<and> (\<not> ps_path s \<longrightarrow> pf_size (ps_files s' ! j) = length (pf_buffer (ps_files s' ! j)))"
        using ok j same(5) [OF j] mem [OF _ ok] id(2) [OF j] by (cases "j = k") (auto simp: pack_ok_def)
    qed
    then show ?thesis using ok ids same(1,3,4) by (simp add: pack_ok_def)
  qed
  have "held s' i off p" if "pack_ok s" and h: "held s i off p" and r: "\<not> region i off (length p)" for i off p
  proof (cases "i = Suc k")
    case True
    with that part show ?thesis by simp
  next
    case False
    have ne: "ps_files s \<noteq> []" "ps_files s' \<noteq> []" using k same(4) by auto
    have i: "1 \<le> i" "i \<le> length (ps_files s)" using h ne(1) by (simp_all add: held_def)
    then have nth: "ps_files s' ! (i - 1) = ps_files s ! (i - 1)" using False by (intro same(5)) auto
    then have "content s' i = content s i" using bytes [OF False] same(1,4) by (simp add: content_def)
    with h nth same(4) ne show ?thesis by (simp add: held_def)
  qed
  with ok' show ?thesis using same(1,2) unfolding keeps_outside_def by blast
qed

section \<open>Appending\<close>

text \<open>A packfile that only grows past the bytes reserved in it keeps what the packstore holds.\<close>

lemma append_keeps:
  assumes ok: "pack_ok s" and k: "k < length (ps_files s)"
    and same: "ps_path s' = ps_path s" "ps_min_count s' = ps_min_count s" "ps_writeable s' = ps_writeable s"
      "length (ps_files s') = length (ps_files s)"
      "\<And>j. j < length (ps_files s) \<Longrightarrow> j \<noteq> k \<Longrightarrow> ps_files s' ! j = ps_files s ! j"
      "pf_id (ps_files s' ! k) = pf_id (ps_files s ! k)" "pf_file (ps_files s' ! k) = pf_file (ps_files s ! k)"
    and grown: "pf_size (ps_files s ! k) \<le> pf_size (ps_files s' ! k)"
      "\<not> ps_path s \<Longrightarrow> pf_size (ps_files s' ! k) = length (pf_buffer (ps_files s' ! k))"
    and bytes: "\<And>i. i \<noteq> Suc k \<Longrightarrow> file_bytes s' i = file_bytes s i"
      "length (content s (Suc k)) \<le> length (content s' (Suc k))"
      "\<And>x y. y \<le> pf_size (ps_files s ! k) \<Longrightarrow> y \<le> length (content s (Suc k)) \<Longrightarrow>
         slice_of x y (content s' (Suc k)) = slice_of x y (content s (Suc k))"
  shows "keeps s s'"
proof -
  have "held s' (Suc k) off p" if h: "held s (Suc k) off p" for off p
  proof -
    have ne: "ps_files s \<noteq> []" "ps_files s' \<noteq> []" using k same(4) by auto
    then have "off + length p \<le> pf_size (ps_files s ! k)" using h by (simp add: held_def)
    with h k grown(1) bytes(2) bytes(3) [of "off + length p" off] ne same(4) show ?thesis by (simp add: held_def)
  qed
  then have "keeps_outside (\<lambda>_ _ _. False) s s'" by (intro change_keeps_others [OF k same]) (use grown(2) bytes(1) in auto)
  then show ?thesis by (simp add: keeps_outside_def keeps_def)
qed

lemma write_at_file:
  assumes "pack_ok s" "k < length (ps_files s)" "ps_path s" "write_at k off p s = (r, s')"
  obtains q where "s' = set_file (Suc k) (write_bytes off q (file_bytes s (Suc k))) (faults_used s)"
    "is_ok r \<Longrightarrow> q = p" "length q \<le> length p" "ps_faults s = [] \<Longrightarrow> is_ok r \<and> ps_faults s' = []"
proof -
  have f: "pf_file (ps_files s ! k)" "pf_id (ps_files s ! k) = Suc k"
    using pack_ok_file [OF assms(1,2)] pack_ok_id [OF assms(1,2)] assms(3) by simp_all
  show thesis
  proof (cases "fst (next_fault s)")
    case None
    then show thesis using assms(4) f
      by (intro that [of p]) (auto simp: write_at_def next_fault_eq Let_def, auto simp: faults_used_def)
  next
    case (Some m)
    then show thesis using assms(4) f
      by (intro that [of "take m p"]) (auto simp: write_at_def next_fault_eq Let_def split: list.splits)
  qed
qed

lemma land_file_keeps:
  fixes s :: pack_store and k :: nat
  defines "offset \<equiv> pf_size (ps_files s ! k)"
  assumes ok: "pack_ok s" and k: "k < length (ps_files s)" and path: "ps_path s" and p: "p \<noteq> []"
    and land: "land_file k offset p (update_packfile k (\<lambda>f. f \<lparr>pf_size := offset + length p\<rparr>) s) = (r, s')"
  shows "keeps s s'" "ps_files s' \<noteq> []" "is_ok r \<Longrightarrow> held s' (Suc k) offset p"
    "ps_faults s = [] \<Longrightarrow> is_ok r \<and> ps_faults s' = []"
proof -
  define s1 where "s1 = update_packfile k (\<lambda>f. f \<lparr>pf_size := offset + length p\<rparr>) s"
  have ok1: "pack_ok s1" unfolding s1_def using ok k path by (intro pack_ok_update) simp_all
  obtain q s2 where w: "write_at k offset p s1 = (q, s2)" by (metis prod.exhaust)
  obtain b where s2: "s2 = set_file (Suc k) (write_bytes offset b (file_bytes s1 (Suc k))) (faults_used s1)"
    and b: "is_ok q \<Longrightarrow> b = p" "length b \<le> length p" "ps_faults s1 = [] \<Longrightarrow> is_ok q \<and> ps_faults s2 = []"
    using write_at_file [OF ok1 _ _ w] k path by (auto simp: s1_def)
  have res: "is_ok r = is_ok q" "s' = (if is_ok q then update_packfile k (\<lambda>f. f \<lparr>pf_dirty := True\<rparr>) s2
      else update_packfile k (\<lambda>f. f \<lparr>pf_size := offset\<rparr>) s2)"
    using land w k unfolding s1_def [symmetric] land_file_def
    by (auto split: sum.splits if_splits simp: s2) (simp_all add: s1_def)
  have files: "ps_files s' = (ps_files s)[k := (ps_files s ! k) \<lparr>pf_size := (if is_ok q then offset + length p else offset),
      pf_dirty := (if is_ok q then True else pf_dirty (ps_files s ! k))\<rparr>]"
    using k by (simp add: res(2) s2 s1_def update_packfile_def offset_def)
  have disk: "file_bytes s' = (file_bytes s)(Suc k := write_bytes offset b (file_bytes s (Suc k)))"
    by (simp add: res(2) s2 s1_def)
  have same: "ps_path s' = ps_path s" "ps_min_count s' = ps_min_count s" "ps_writeable s' = ps_writeable s"
    by (simp_all add: res(2) s2 s1_def)
  show "keeps s s'"
  proof (rule append_keeps [OF ok k same])
    show "slice_of x y (content s' (Suc k)) = slice_of x y (content s (Suc k))"
      if "y \<le> pf_size (ps_files s ! k)" "y \<le> length (content s (Suc k))" for x y
      using that path same(1) by (simp add: content_def disk slice_write_bytes_before offset_def)
  qed (use k path same(1) in \<open>simp_all add: files content_def disk offset_def\<close>)
  show "ps_files s' \<noteq> []" using k files by auto
  show "held s' (Suc k) offset p" if "is_ok r"
  proof -
    have "is_ok q" "b = p" using that res(1) b(1) by simp_all
    then show ?thesis using k p path same(1) by (simp add: held_def content_def disk files)
  qed
  show "ps_faults s = [] \<Longrightarrow> is_ok r \<and> ps_faults s' = []" using b(3) res by (simp add: s1_def)
qed

lemma land_memory_keeps:
  fixes s :: pack_store and k :: nat
  defines "offset \<equiv> pf_size (ps_files s ! k)"
  assumes ok: "pack_ok s" and k: "k < length (ps_files s)" and path: "\<not> ps_path s" and p: "p \<noteq> []"
  defines "s' \<equiv> land_memory k p (update_packfile k (\<lambda>f. f \<lparr>pf_size := offset + length p\<rparr>) s)"
  shows "keeps s s'" "ps_files s' \<noteq> []" "held s' (Suc k) offset p" "ps_faults s' = ps_faults s"
proof -
  have files: "ps_files s' = (ps_files s)[k := (ps_files s ! k) \<lparr>pf_size := offset + length p,
      pf_buffer := pf_buffer (ps_files s ! k) @ p, pf_dirty := True\<rparr>]"
    using k by (simp add: s'_def land_memory_def update_packfile_def offset_def)
  have same: "ps_path s' = ps_path s" "ps_min_count s' = ps_min_count s" "ps_writeable s' = ps_writeable s"
    by (simp_all add: s'_def land_memory_def)
  have disk: "file_bytes s' = file_bytes s" by (simp add: s'_def land_memory_def)
  have off: "offset = length (pf_buffer (ps_files s ! k))" using ok k path by (simp add: pack_ok_def offset_def)
  show "keeps s s'"
  proof (rule append_keeps [OF ok k same])
    show "slice_of x y (content s' (Suc k)) = slice_of x y (content s (Suc k))"
      if "y \<le> length (content s (Suc k))" for x y
      using that path same(1) k by (simp add: content_def files slice_of_def drop_take [symmetric] take_append)
  qed (use k path same(1) off in \<open>simp_all add: files disk content_def offset_def [symmetric]\<close>)
  show "ps_files s' \<noteq> []" using k files by auto
  show "held s' (Suc k) offset p" using k p path same(1) off by (simp add: held_def content_def files slice_of_def)
  show "ps_faults s' = ps_faults s" by (simp add: s'_def land_memory_def)
qed

section \<open>A store returns, and holds its payload\<close>

lemma io_op_ok: "ps_faults s = [] \<Longrightarrow> io_op w s = (Inr (), s)"
  by (simp add: io_op_def next_fault_def)

lemma scan_entries_ok: "ps_faults s = [] \<Longrightarrow> \<exists>m. scan_entries ids n s = (Inr m, s)"
  by (induction ids arbitrary: n) (simp_all add: io_op_ok)

lemma open_packfiles_ok: "ps_faults s = [] \<Longrightarrow> \<exists>fs s'. open_packfiles ids acc s = (Inr fs, s')"
proof (induction ids arbitrary: acc s)
  case (Cons i ids)
  obtain r t where o: "open_packfile i s = (r, t)" by (metis prod.exhaust)
  with open_packfile_keeps(10) [OF o Cons.prems] obtain f where "r = Inr f" "ps_faults t = []" by (auto simp: is_ok_iff)
  with o Cons.IH [of t "acc @ [f]"] show ?case by simp
qed simp

lemma load_packfiles_ok:
  assumes "ps_faults s = []"
  shows "\<exists>x s'. load_packfiles s = (Inr x, s') \<and> ps_faults s' = []"
proof -
  let ?t = "if ps_dir_made s then s else s \<lparr>ps_dir_made := True\<rparr>"
  have t: "ps_faults ?t = []" using assms by simp
  have mk: "(if ps_dir_made s then (Inr (), s)
      else bind_op (io_op w) (\<lambda>_. modify_op (\<lambda>s. s \<lparr>ps_dir_made := True\<rparr>)) s) = (Inr (), ?t)" for w
    using assms by (simp add: io_op_ok)
  obtain m where m: "scan_entries (sorted_list_of_fset (fmdom (ps_dir ?t))) 0 ?t = (Inr m, ?t)"
    using scan_entries_ok [OF t] by blast
  obtain fs u where u: "open_packfiles [1..<m + 1] [] ?t = (Inr fs, u)" using open_packfiles_ok [OF t] by blast
  have "ps_faults u = []" using open_packfiles_eq [OF u] t by (simp add: idle_def)
  moreover have "load_packfiles s = (Inr (fs, map pf_id (filter small fs), sum_list (map pf_size fs)), u)"
    unfolding load_packfiles_def using mk u m t assms by (simp add: io_op_ok)
  ultimately show ?thesis by blast
qed

lemma loaded_packfiles_ok:
  assumes "ps_faults s = []" "loaded_packfiles s = (r, s')"
  shows "is_ok r \<and> ps_faults s' = []"
proof (cases "ps_files s = []")
  case False
  with assms show ?thesis by (auto simp: loaded_packfiles_def)
next
  case True
  have rl: "\<exists>t. reload s = (Inr (), t) \<and> ps_faults t = []"
  proof (cases "ps_path s")
    case False
    then show ?thesis using assms(1) by (simp add: reload_def)
  next
    case True
    with load_packfiles_ok [OF assms(1)] \<open>ps_files s = []\<close> show ?thesis
      by (auto simp: reload_def bind_op_def split: prod.splits)
  qed
  then obtain t where t: "reload s = (Inr (), t)" "ps_faults t = []" by blast
  have "fill_shape t (fst (fill_writeable t)) (snd (fill_writeable t))" by (rule fill_writeable_shape) simp
  with t assms(2) True show ?thesis by (auto simp: loaded_packfiles_def resume_def fill_shape_def)
qed

text \<open>How many of the packfiles that take writes are full, and whether there is one at all.\<close>

definition full_ids :: "pack_store \<Rightarrow> nat list \<Rightarrow> nat list" where
  "full_ids s w = filter (\<lambda>i. \<not> small (ps_files s ! (i - 1))) w"

definition attempts_left :: "pack_store \<Rightarrow> nat" where
  "attempts_left s = 2 * length (full_ids s (ps_writeable s)) + (if ps_writeable s = [] then 1 else 0)"

lemma pack_ok_nth_id:
  assumes "pack_ok s" "f \<in> set (ps_files s)"
  shows "ps_files s ! (pf_id f - 1) = f"
  using assms pack_ok_id [OF assms(1)] by (metis in_set_conv_nth diff_Suc_1)

lemma fill_full_ids:
  assumes "fill_shape s r s'" "pack_ok s" "pack_ok s'"
  shows "full_ids s' (ps_writeable s') = full_ids s (ps_writeable s)"
proof -
  obtain new where new: "ps_files s' = ps_files s @ new" "ps_writeable s' = ps_writeable s @ map pf_id (filter small new)"
    using assms(1) by (auto simp: fill_shape_def)
  have "small (ps_files s' ! (pf_id f - 1))" if "f \<in> set new" "small f" for f
    using pack_ok_nth_id [OF assms(3), of f] that new(1) by simp
  then have "full_ids s' (map pf_id (filter small new)) = []" by (auto simp: full_ids_def filter_empty_conv)
  moreover have "full_ids s' (ps_writeable s) = full_ids s (ps_writeable s)"
    unfolding full_ids_def
  proof (rule filter_cong [OF refl])
    fix i assume "i \<in> set (ps_writeable s)"
    from pack_ok_writeable [OF assms(2) this] show "(\<not> small (ps_files s' ! (i - 1))) = (\<not> small (ps_files s ! (i - 1)))"
      by (simp add: new(1) nth_append)
  qed
  ultimately show ?thesis by (simp add: new(2) full_ids_def)
qed

lemma mark_full_attempts:
  assumes ok: "pack_ok s" and ne: "ps_files s \<noteq> []" and k: "Suc k \<in> set (ps_writeable s)" "\<not> small (ps_files s ! k)"
  shows "attempts_left (mark_full (Suc k) s) < attempts_left s" "ps_files (mark_full (Suc k) s) \<noteq> []"
    "ps_faults s = [] \<Longrightarrow> ps_faults (mark_full (Suc k) s) = []"
proof -
  let ?s1 = "s \<lparr>ps_writeable := remove1 (Suc k) (ps_writeable s)\<rparr>"
  define t where "t = snd (fill_writeable ?s1)"
  have sh: "fill_shape ?s1 (fst (fill_writeable ?s1)) t" by (rule fill_writeable_shape) (simp add: t_def)
  have ld: "all_loaded s" using ne by (simp add: all_loaded_def)
  have m: "mark_full (Suc k) s = t \<lparr>ps_settling := ps_settling t @ [Suc k]\<rparr>"
    using k(1) by (simp add: mark_full_def Let_def t_def)
  have ok1: "pack_ok ?s1" using ok set_remove1_subset [of "Suc k" "ps_writeable s"]
    by (auto simp: pack_ok_def intro: sorted_wrt_remove1)
  have "pack_ok t" using keepsD(3) [OF mark_full_keeps(1) [OF ld] ok, of "Suc k"] pack_ok_cong [of "mark_full (Suc k) s" t] m by simp
  then have "full_ids t (ps_writeable t) = full_ids ?s1 (ps_writeable ?s1)" by (rule fill_full_ids [OF sh ok1])
  also have "\<dots> = remove1 (Suc k) (full_ids s (ps_writeable s))" by (simp add: full_ids_def filter_remove1)
  finally have eq: "full_ids t (ps_writeable t) = remove1 (Suc k) (full_ids s (ps_writeable s))" .
  have mem: "Suc k \<in> set (full_ids s (ps_writeable s))" using k by (simp add: full_ids_def)
  have "length (full_ids t (ps_writeable t)) < length (full_ids s (ps_writeable s))"
    using length_pos_if_in_set [OF mem] mem unfolding eq length_remove1 by simp
  then show "attempts_left (mark_full (Suc k) s) < attempts_left s"
    using k(1) by (auto simp: m attempts_left_def full_ids_def)
  show "ps_files (mark_full (Suc k) s) \<noteq> []" using sh ne by (auto simp: m fill_shape_def)
  show "ps_faults s = [] \<Longrightarrow> ps_faults (mark_full (Suc k) s) = []" using sh by (simp add: m fill_shape_def)
qed

lemma finish_write_keeps:
  assumes "ps_files s \<noteq> []"
  shows "keeps s (finish_write i full s)" "ps_files (finish_write i full s) \<noteq> []"
    "ps_faults s = [] \<Longrightarrow> ps_faults (finish_write i full s) = []"
proof -
  define t where "t = snd (fill_writeable (s \<lparr>ps_writeable := remove1 i (ps_writeable s)\<rparr>))"
  have sh: "fill_shape (s \<lparr>ps_writeable := remove1 i (ps_writeable s)\<rparr>) (fst (fill_writeable (s \<lparr>ps_writeable := remove1 i (ps_writeable s)\<rparr>))) t"
    by (rule fill_writeable_shape) (simp add: t_def)
  have m: "mark_full i s = t \<or> mark_full i s = t \<lparr>ps_settling := ps_settling t @ [i]\<rparr>"
    by (simp add: mark_full_def Let_def t_def)
  show "keeps s (finish_write i full s)"
    using mark_full_keeps(1) [of s i] assms by (simp add: finish_write_def all_loaded_def)
  show "ps_files (finish_write i full s) \<noteq> []" using m sh assms by (auto simp: finish_write_def fill_shape_def)
  show "ps_faults s = [] \<Longrightarrow> ps_faults (finish_write i full s) = []"
    using m sh by (auto simp: finish_write_def fill_shape_def)
qed

lemma packfile_to_write_cases:
  assumes "pack_ok s"
  shows "case packfile_to_write locked spread s of None \<Rightarrow> ps_writeable s = []
    | Some k \<Rightarrow> k < length (ps_files s) \<and> Suc k \<in> set (ps_writeable s)"
proof -
  have "k < length (ps_files s) \<and> Suc k \<in> set (ps_writeable s)" if "i \<in> set (ps_writeable s)" "k = i - 1" for i k
    using pack_ok_writeable [OF assms that(1)] that by auto
  moreover have "ps_writeable s \<noteq> [] \<Longrightarrow> ps_writeable s ! (spread mod length (ps_writeable s)) \<in> set (ps_writeable s)" by simp
  ultimately show ?thesis
    by (auto simp: packfile_to_write_def find_Some_iff split: option.splits)
qed

text \<open>What a store answers with, from a state whose packfiles are loaded.\<close>

definition stored :: "pack_store \<Rightarrow> bytes \<Rightarrow> pack_store_ref result \<times> pack_store \<Rightarrow> bool" where
  "stored s p res \<longleftrightarrow> keeps s (snd res) \<and>
     (\<forall>ref. fst res = Inr ref \<longrightarrow> (\<exists>i off. ref = pack_ref i off \<and> off < PACKSTORE_SIZE_LIMIT \<and>
        i \<le> length (ps_files (snd res)) \<and> held (snd res) i off p)) \<and>
     (ps_faults s = [] \<longrightarrow> is_ok (fst res) \<and> ps_faults (snd res) = [])"

lemma stored_after:
  assumes "keeps s t" "ps_faults s = [] \<Longrightarrow> ps_faults t = []" "stored t p res"
  shows "stored s p res"
  using assms keeps_trans [of s t "snd res"] by (simp add: stored_def)

text \<open>One attempt that reserves a range: the write lands, or fails and leaves what was there.\<close>

lemma store_reserved:
  assumes ok: "pack_ok s" and k: "k < length (ps_files s)" "small (ps_files s ! k)" and p: "p \<noteq> []"
  defines "offset \<equiv> pf_size (ps_files s ! k)"
  shows "stored s p (write_reserved k offset full p (update_packfile k (\<lambda>f. f \<lparr>pf_size := offset + length p\<rparr>) s))"
    (is "stored s p (write_reserved k offset full p ?s2)")
proof -
  have f: "pf_id (ps_files ?s2 ! k) = Suc k" "pf_file (ps_files ?s2 ! k) = ps_path s"
    using pack_ok_id [OF ok k(1)] pack_ok_file [OF ok k(1)] k(1) by simp_all
  have fin: "stored s p (Inr (pack_ref (Suc k) offset), finish_write (Suc k) full t)"
    if t: "keeps s t" "ps_files t \<noteq> []" "held t (Suc k) offset p" "ps_faults s = [] \<Longrightarrow> ps_faults t = []" for t
  proof -
    note fw = finish_write_keeps [OF t(2), of "Suc k" full]
    have "pack_ok t" using keepsD(3) [OF t(1) ok] .
    then have h: "held (finish_write (Suc k) full t) (Suc k) offset p" by (rule keepsD(4) [OF fw(1) _ t(3)])
    then have "Suc k \<le> length (ps_files (finish_write (Suc k) full t))" using fw(2) by (simp add: held_def)
    then show ?thesis using h k(2) fw keeps_trans [OF t(1) fw(1)] t(4) by (auto simp: stored_def offset_def)
  qed
  show ?thesis
  proof (cases "ps_path s")
    case False
    with fin land_memory_keeps [OF ok k(1) False p] f show ?thesis by (simp add: write_reserved_def offset_def)
  next
    case True
    obtain r s3 where l: "land_file k offset p ?s2 = (r, s3)" by (metis prod.exhaust)
    note lk = land_file_keeps [OF ok k(1) True p l [unfolded offset_def]]
    from lk fin [of s3] l True f show ?thesis
      by (cases r) (auto simp: write_reserved_def stored_def offset_def)
  qed
qed

text \<open>A store that finds no packfile to write opens some, or fails.\<close>

lemma store_loop_refills:
  assumes ok: "pack_ok s" "ps_files s \<noteq> []" "0 < ps_min_count s"
    and none: "packfile_to_write (locked n) spread s = None" and p: "p \<noteq> []"
    and IH: "\<And>t. attempts_left t < attempts_left s \<Longrightarrow> pack_ok t \<Longrightarrow> ps_files t \<noteq> [] \<Longrightarrow> 0 < ps_min_count t \<Longrightarrow>
      \<exists>res. store_loop locked spread p (n + 1) t = Some res \<and> stored t p res"
  shows "\<exists>res. store_loop locked spread p n s = Some res \<and> stored s p res"
proof -
  have ld: "loaded_packfiles s = (Inr (), s)" "all_loaded s" using ok(2) by (simp_all add: loaded_packfiles_def all_loaded_def)
  have w: "ps_writeable s = []" using packfile_to_write_cases [OF ok(1), of "locked n" spread] none by simp
  obtain r t where t: "fill_writeable s = (r, t)" by (metis prod.exhaust)
  note sh = fill_writeable_shape [OF t]
  note kp = fill_shape_keeps [OF sh ld(2)]
  show ?thesis
  proof (cases r)
    case (Inl e)
    have "store_loop locked spread p n s = Some (Inl e, t)"
      by (subst store_loop.simps) (simp add: ld(1) none refill_def t Inl)
    moreover have "stored s p (Inl e, t)" using kp sh Inl by (simp add: stored_def fill_shape_def)
    ultimately show ?thesis by blast
  next
    case (Inr u)
    have ok': "pack_ok t" by (rule keepsD(3) [OF kp ok(1)])
    have t': "ps_files t \<noteq> []" "ps_writeable t \<noteq> []" "0 < ps_min_count t" "ps_faults s = [] \<Longrightarrow> ps_faults t = []"
      using sh Inr ok(2,3) by (auto simp: fill_shape_def)
    have "attempts_left t < attempts_left s"
      using fill_full_ids [OF sh ok(1) ok'] t'(2) w by (simp add: attempts_left_def full_ids_def)
    from IH [OF this ok' t'(1,3)] obtain res where
      res: "store_loop locked spread p (n + 1) t = Some res" "stored t p res" by blast
    have "store_loop locked spread p n s = Some res"
      by (subst store_loop.simps) (use ld(1) none t Inr res(1) in \<open>simp add: refill_def\<close>)
    then show ?thesis using stored_after [OF kp t'(4) res(2)] by blast
  qed
qed

lemma store_loop_loaded:
  assumes "pack_ok s" "ps_files s \<noteq> []" "0 < ps_min_count s" "p \<noteq> []"
  shows "\<exists>res. store_loop locked spread p n s = Some res \<and> stored s p res"
  using assms
proof (induction "attempts_left s" arbitrary: s n rule: less_induct)
  case less
  have ld: "loaded_packfiles s = (Inr (), s)" "all_loaded s"
    using less.prems(2) by (simp_all add: loaded_packfiles_def all_loaded_def)
  show ?case
  proof (cases "packfile_to_write (locked n) spread s")
    case None
    show ?thesis by (rule store_loop_refills [where locked = locked and n = n, OF less.prems(1-3) None less.prems(4)]) (rule less.hyps [OF _ _ _ _ less.prems(4)])
  next
    case (Some k)
    then have k: "k < length (ps_files s)" "Suc k \<in> set (ps_writeable s)"
      using packfile_to_write_cases [OF less.prems(1), of "locked n" spread] by simp_all
    have id: "pf_id (ps_files s ! k) = Suc k" using pack_ok_id [OF less.prems(1) k(1)] .
    show ?thesis
    proof (cases "small (ps_files s ! k)")
      case True
      let ?off = "pf_size (ps_files s ! k)"
      have "store_loop locked spread p n s = Some (write_reserved k ?off (?off + length p \<ge> PACKSTORE_SIZE_LIMIT) p
          (update_packfile k (\<lambda>f. f \<lparr>pf_size := ?off + length p\<rparr>) s))"
        by (subst store_loop.simps) (use True in \<open>simp add: ld(1) Some reserve_def PACKSTORE_SIZE_LIMIT_def Let_def\<close>)
      with store_reserved [OF less.prems(1) k(1) True less.prems(4)] show ?thesis by blast
    next
      case False
      note mf = mark_full_attempts [OF less.prems(1,2) k(2) False]
      note mk = mark_full_keeps(1) [OF ld(2), of "Suc k"]
      have "0 < ps_min_count (mark_full (Suc k) s)" using keepsD(2) [OF mk] less.prems(3) by simp
      from less.hyps [OF mf(1) keepsD(3) [OF mk less.prems(1)] mf(2) this less.prems(4)]
      obtain res where res: "store_loop locked spread p (n + 1) (mark_full (Suc k) s) = Some res" "stored (mark_full (Suc k) s) p res"
        by blast
      have "store_loop locked spread p n s = Some res"
        by (subst store_loop.simps) (use False res(1) in \<open>simp add: ld(1) Some reserve_def id\<close>)
      then show ?thesis using stored_after [OF mk mf(3) res(2)] by blast
    qed
  qed
qed

lemma store_loop_stored:
  assumes ok: "pack_ok s" and min: "0 < ps_min_count s" and p: "p \<noteq> []"
  shows "\<exists>res. store_loop locked spread p n s = Some res \<and> stored s p res"
proof -
  obtain r t where t: "loaded_packfiles s = (r, t)" by (metis prod.exhaust)
  note kp = loaded_packfiles_keeps [OF t]
  show ?thesis
  proof (cases r)
    case (Inl e)
    have "store_loop locked spread p n s = Some (Inl e, t)" by (subst store_loop.simps) (simp add: t Inl)
    moreover have "stored s p (Inl e, t)" using kp loaded_packfiles_ok [OF _ t] Inl by (auto simp: stored_def)
    ultimately show ?thesis by blast
  next
    case (Inr u)
    have t': "keeps s t" "all_loaded t" "pack_ok t" "0 < ps_min_count t" "ps_faults s = [] \<Longrightarrow> ps_faults t = []"
      using kp Inr keepsD(2,3) [of s t] ok min loaded_packfiles_ok [OF _ t] by simp_all
    show ?thesis
    proof (cases "ps_files t = []")
      case False
      have "store_loop locked spread p n s = store_loop locked spread p n t"
        by (subst (1 2) store_loop.simps) (simp add: t Inr loaded_packfiles_def [of t] False)
      then show ?thesis using store_loop_loaded [OF t'(3) False t'(4) p] stored_after [OF t'(1,5)] by metis
    next
      case True
      then have "packfile_to_write (locked n) spread t = None" using t'(3) by (simp add: pack_ok_def packfile_to_write_def)
      note none = this
      obtain q v where v: "fill_writeable t = (q, v)" by (metis prod.exhaust)
      note sh = fill_writeable_shape [OF v]
      note kv = keeps_trans [OF t'(1) fill_shape_keeps [OF sh t'(2)]]
      show ?thesis
      proof (cases q)
        case (Inl e)
        have "store_loop locked spread p n s = Some (Inl e, v)"
          by (subst store_loop.simps) (simp add: t Inr none refill_def v Inl)
        moreover have "stored s p (Inl e, v)" using kv sh Inl t'(5) by (auto simp: stored_def fill_shape_def)
        ultimately show ?thesis by blast
      next
        case (Inr w)
        have v': "ps_files v \<noteq> []" "0 < ps_min_count v" "ps_faults s = [] \<Longrightarrow> ps_faults v = []"
          using sh Inr t'(4,5) True t'(3) by (auto simp: fill_shape_def pack_ok_def)
        have "store_loop locked spread p n s = store_loop locked spread p (n + 1) v"
          by (subst store_loop.simps) (simp add: t \<open>r = Inr u\<close> none refill_def v Inr)
        then show ?thesis
          using store_loop_loaded [OF keepsD(3) [OF kv ok] v'(1,2) p] stored_after [OF kv v'(3)] by metis
      qed
    qed
  qed
qed

section \<open>Loading what is held\<close>

lemma packfile_read_result:
  assumes "packfile_read i off n s = (r, s')"
  shows "s' = faults_used s" "off + n \<le> length (file_bytes s i) \<Longrightarrow>
    r = Inr (slice_of off (off + n) (file_bytes s i)) \<or> \<not> is_ok r \<and> ps_faults s \<noteq> []"
proof -
  have "s' = faults_used s \<and> (off + n \<le> length (file_bytes s i) \<longrightarrow>
    r = Inr (slice_of off (off + n) (file_bytes s i)) \<or> \<not> is_ok r \<and> ps_faults s \<noteq> [])"
    using assms by (cases "ps_faults s"; cases "hd (ps_faults s)")
      (auto simp: packfile_read_def bind_op_def io_op_def next_fault_eq split: if_splits)
  then show "s' = faults_used s" "off + n \<le> length (file_bytes s i) \<Longrightarrow>
    r = Inr (slice_of off (off + n) (file_bytes s i)) \<or> \<not> is_ok r \<and> ps_faults s \<noteq> []" by auto
qed

lemma pack_load_held:
  assumes ok: "pack_ok s" and h: "held s (unat i) (unat off) p" "unat sz = length p"
    and load: "pack_load i off sz s = (r, s')"
  shows "keeps s s' \<and> (r = Inr p \<or> \<not> is_ok r \<and> ps_faults s \<noteq> [])"
proof -
  have nz: "sz \<noteq> 0" "i \<noteq> 0" using h by (auto simp: held_def)
  obtain q t where t: "loaded_packfiles s = (q, t)" by (metis prod.exhaust)
  note kp = loaded_packfiles_keeps [OF t] loaded_packfiles_ok [OF _ t]
  show ?thesis
  proof (cases q)
    case (Inl e)
    then have "r = Inl e" "s' = t" using load nz t by (simp_all add: pack_load_def bind_op_def Let_def)
    with kp Inl show ?thesis by auto
  next
    case (Inr u)
    have ht: "held t (unat i) (unat off) p" "pack_ok t" using keepsD(3,4) [of s t] kp(1) ok h(1) by blast+
    have ne: "ps_files t \<noteq> []" using kp(1) Inr ht(1) by (auto simp: all_loaded_def)
    let ?k = "unat i - 1"
    have k: "?k < length (ps_files t)" using ht(1) ne by (auto simp: held_def)
    have id: "pf_id (ps_files t ! ?k) = unat i" using pack_ok_id [OF ht(2) k] ht(1) by (simp add: held_def)
    have c: "content t (unat i) = (if ps_path t then file_bytes t (unat i) else pf_buffer (ps_files t ! ?k))"
      using ht(1) k by (simp add: content_def held_def)
    have eq: "(r, s') = (if ps_path t then packfile_read (unat i) (unat off) (length p) t else (Inr p, t))"
      using load nz t Inr k id pack_ok_file [OF ht(2) k] ht(1) h(2) c
      by (auto simp: pack_load_def bind_op_def Let_def held_def)
    show ?thesis
    proof (cases "ps_path t")
      case False
      then show ?thesis using eq kp(1) by simp
    next
      case True
      then have "packfile_read (unat i) (unat off) (length p) t = (r, s')" using eq by simp
      from packfile_read_result [OF this] have "s' = faults_used t" "r = Inr p \<or> \<not> is_ok r \<and> ps_faults t \<noteq> []"
        using ht(1) c True by (simp_all add: held_def)
      then show ?thesis using kp Inr keeps_trans [OF _ keeps_faults_used, of s t] by auto
    qed
  qed
qed

section \<open>Truncating and zeroing\<close>

lemma empty_packfile_cases:
  assumes ok: "pack_ok s" "k < length (ps_files s)" and em: "empty_packfile k s = (r, s')"
  obtains (failed) "s' = faults_used s" "\<not> is_ok r"
    | (emptied) "length (ps_files s') = length (ps_files s)"
        "\<And>j. j < length (ps_files s) \<Longrightarrow> j \<noteq> k \<Longrightarrow> ps_files s' ! j = ps_files s ! j"
        "pf_id (ps_files s' ! k) = pf_id (ps_files s ! k)" "pf_file (ps_files s' ! k) = pf_file (ps_files s ! k)"
        "pf_size (ps_files s' ! k) = 0" "pf_buffer (ps_files s' ! k) = []" "ps_path s' = ps_path s"
        "ps_min_count s' = ps_min_count s" "ps_writeable s' = ps_writeable s"
        "\<And>i. i \<noteq> Suc k \<Longrightarrow> file_bytes s' i = file_bytes s i"
proof -
  have id: "pf_id (ps_files s ! k) = Suc k" by (rule pack_ok_id [OF ok])
  define e where "e failed = update_packfile k (\<lambda>f. f \<lparr>pf_opened := 0, pf_settled := False,
             pf_sync_failed := failed, pf_dirty := False, pf_buffer := [], pf_size := 0\<rparr>)" for failed
  define t where "t = set_file (Suc k) [] (faults_used s) \<lparr>ps_synced := (ps_synced s)(Suc k := 0)\<rparr>"
  have t: "ps_files t = ps_files s" "ps_path t = ps_path s" "ps_min_count t = ps_min_count s" "ps_writeable t = ps_writeable s"
    "\<And>i. i \<noteq> Suc k \<Longrightarrow> file_bytes t i = file_bytes s i" by (simp_all add: t_def)
  consider "s' = faults_used s" "\<not> is_ok r" | failed where "s' = e failed s" | failed where "s' = e failed (faults_used t)"
    using em unfolding empty_packfile_def Let_def id e_def [symmetric] next_fault_eq
    by (auto simp: t_def split: if_splits option.splits)
  then show thesis
  proof cases
    case 1
    then show thesis by (rule failed)
  next
    case 2
    then show thesis by (intro emptied) (simp_all add: e_def update_packfile_nth ok(2))
  next
    case 3
    then show thesis by (intro emptied) (simp_all add: e_def update_packfile_nth ok(2) t)
  qed
qed

lemma truncate_keeps:
  assumes ok: "pack_ok s" "0 < ps_min_count s" and tr: "truncate i s = (r, s')"
  shows "keeps_outside (\<lambda>j _ _. j = i) s s'"
proof (cases "ps_path s \<and> i \<noteq> 0 \<and> i \<notin> set (ps_writeable s) \<and> i - 1 < length (ps_files s)")
  case False
  then have "s' = s" using tr by (auto simp: truncate_def split: if_splits)
  then show ?thesis by (simp add: keeps_keeps_outside)
next
  case True
  let ?k = "i - 1"
  have k: "?k < length (ps_files s)" "Suc ?k = i" using True by auto
  have "bind_op (empty_packfile ?k) (\<lambda>_ s1.
        let s2 = discard_empty_tail s1;
            s3 = (if i - 1 < length (ps_files s2) then s2 \<lparr>ps_writeable := insert_writeable i (ps_writeable s2)\<rparr> else s2)
        in (Inr (), snd (fill_writeable s3))) s = (r, s')"
    using tr True by (auto simp: truncate_def)
  then obtain q s1 where em: "empty_packfile ?k s = (q, s1)" and
    rest: "(\<not> is_ok q \<and> s' = s1) \<or> (is_ok q \<and> (let s2 = discard_empty_tail s1;
            s3 = (if i - 1 < length (ps_files s2) then s2 \<lparr>ps_writeable := insert_writeable i (ps_writeable s2)\<rparr> else s2)
        in s' = snd (fill_writeable s3)))"
    by (cases rule: bind_op_cases) (auto simp: Let_def)
  have s1: "keeps_outside (\<lambda>j _ _. j = i) s s1" "ps_files s1 \<noteq> []"
  proof -
    have "keeps_outside (\<lambda>j _ _. j = i) s s1 \<and> length (ps_files s1) = length (ps_files s)"
    proof (cases rule: empty_packfile_cases [OF ok(1) k(1) em, case_names failed emptied])
      case failed
      then show ?thesis by (simp add: keeps_keeps_outside)
    next
      case emptied
      have "keeps_outside (\<lambda>j _ _. j = i) s s1"
        by (rule change_keeps_others [OF k(1) emptied(7,8,9,1,2,3,4)]) (use emptied(5,6,10) k(2) in simp_all)
      then show ?thesis using emptied(1) by simp
    qed
    then show "keeps_outside (\<lambda>j _ _. j = i) s s1" "ps_files s1 \<noteq> []" using k(1) by auto
  qed
  show ?thesis
  proof (cases "is_ok q")
    case False
    then show ?thesis using rest s1(1) by simp
  next
    case okq: True
    define s2 where "s2 = discard_empty_tail s1"
    define s3 where "s3 = (if i - 1 < length (ps_files s2) then s2 \<lparr>ps_writeable := insert_writeable i (ps_writeable s2)\<rparr> else s2)"
    have "0 < ps_min_count s1" using s1(1) ok(2) by (simp add: keeps_outside_def)
    then have s2: "keeps s1 s2" "ps_files s2 \<noteq> []" using discard_empty_tail_keeps s1(2) unfolding s2_def by blast+
    have s3: "keeps s2 s3" "ps_files s3 \<noteq> []"
      using insert_writeable_keeps [of s2 i] s2(2) True by (auto simp: s3_def valid_id_def)
    have "keeps s3 s'" using rest okq fill_writeable_keeps [of s3] s3(2)
      unfolding Let_def s2_def [symmetric] s3_def [symmetric] by (simp add: all_loaded_def)
    then have "keeps s1 s'" using s2(1) s3(1) keeps_trans by blast
    then show ?thesis using keeps_outside_trans [OF s1(1) keeps_keeps_outside] by blast
  qed
qed

text \<open>The range an obliterate zeroes meets the range of a payload.\<close>

definition meets :: "nat \<Rightarrow> nat \<Rightarrow> nat \<Rightarrow> nat \<Rightarrow> nat \<Rightarrow> nat \<Rightarrow> bool" where
  "meets i off n j off' n' \<longleftrightarrow> i = j \<and> off < off' + n' \<and> off' < off + n"

lemma write_at_keeps_outside:
  assumes ok: "pack_ok s" "k < length (ps_files s)" "ps_path s" and w: "write_at k off p s = (r, s')"
  shows "keeps_outside (meets (Suc k) off (length p)) s s'" "ps_files s' = ps_files s"
proof -
  obtain q where s': "s' = set_file (Suc k) (write_bytes off q (file_bytes s (Suc k))) (faults_used s)"
    and q: "length q \<le> length p" using write_at_file [OF ok w] by metis
  have "held s' (Suc k) x y" if h: "held s (Suc k) x y" and m: "\<not> meets (Suc k) off (length p) (Suc k) x (length y)" for x y
  proof -
    have c: "content s (Suc k) = file_bytes s (Suc k)" "content s' (Suc k) = write_bytes off q (file_bytes s (Suc k))"
      using ok(3) by (simp_all add: content_def s')
    have "x + length y \<le> off \<or> off + length q \<le> x" using m q by (auto simp: meets_def)
    then have "slice_of x (x + length y) (content s' (Suc k)) = y"
      using h unfolding c by (auto simp: held_def c slice_write_bytes_other)
    with h show ?thesis using c by (simp add: held_def s' le_max_iff_disj)
  qed
  then show "keeps_outside (meets (Suc k) off (length p)) s s'"
    using ok(3) by (intro change_keeps_others [OF ok(2)]) (simp_all add: s')
  show "ps_files s' = ps_files s" by (simp add: s')
qed

lemma zero_range_keeps:
  assumes ok: "pack_ok s" "k < length (ps_files s)" "ps_path s" and z: "zero_range k off n s = (r, s')"
  shows "keeps_outside (meets (Suc k) off n) s s'"
proof -
  obtain q u where w: "write_at k off (replicate n 0) s = (q, u)" by (metis prod.exhaust)
  note wk = write_at_keeps_outside [OF ok w]
  define u1 where "u1 = update_packfile k (\<lambda>f. f \<lparr>pf_dirty := True\<rparr>) u"
  obtain q2 v where sy: "sync_packfile k u1 = (q2, v)" by (metis prod.exhaust)
  have u1: "keeps u u1" unfolding u1_def by (rule keeps_core) (simp_all add: core_update)
  have v: "keeps u1 v" by (rule keeps_core) (use sync_packfile_core [OF sy] in simp_all)
  have "length (ps_files v) = length (ps_files u1)" by (rule map_eq_imp_length_eq [OF sync_packfile_core(1) [OF sy]])
  then have "ps_files v \<noteq> []" using wk(2) ok(2) by (auto simp: u1_def)
  then have "keeps v (mark_full (k + 1) v)" by (intro mark_full_keeps) (simp add: all_loaded_def)
  moreover have "s' = u \<or> s' = v \<or> s' = mark_full (k + 1) v"
    using z unfolding zero_range_def w prod.case u1_def [symmetric] sy by (cases q; cases q2) simp_all
  ultimately have "keeps u s'" using u1 v keeps_trans keeps_refl by metis
  then show ?thesis using keeps_outside_trans [OF wk(1) keeps_keeps_outside] by simp
qed

lemma obliterate_loaded_keeps:
  assumes ok: "pack_ok s" and ob: "obliterate_loaded i off n s = (r, s')"
  shows "keeps_outside (meets (unat i) (unat off) (unat n)) s s'"
proof (cases "i = 0 \<or> unat i > length (ps_files s)")
  case True
  then have "s' = s" using ob unfolding obliterate_loaded_def if_P [OF True] by simp
  then show ?thesis by (simp add: keeps_keeps_outside)
next
  case False
  let ?k = "unat i - 1"
  have "0 < unat i" using False by (simp add: unat_gt_0)
  with False have k: "?k < length (ps_files s)" "Suc ?k = unat i" by auto
  have f: "pf_id (ps_files s ! ?k) = unat i" "pf_file (ps_files s ! ?k) = ps_path s"
    using pack_ok_id [OF ok k(1)] pack_ok_file [OF ok k(1)] k(2) by simp_all
  show ?thesis
  proof (cases "ps_path s")
    case True
    then have "zero_range ?k (unat off) (unat n) s = (r, s')"
      using ob f unfolding obliterate_loaded_def if_not_P [OF False] by simp
    from zero_range_keeps [OF ok k(1) True this] k(2) show ?thesis by simp
  next
    case path: False
    then have "s' = s" using ob f unfolding obliterate_loaded_def if_not_P [OF False] by simp
    then show ?thesis by (simp add: keeps_keeps_outside)
  qed
qed

lemma pack_obliterate_keeps:
  assumes ok: "pack_ok s" and ob: "pack_obliterate i off n s = (r, s')"
  shows "keeps_outside (meets (unat i) (unat off) (unat n)) s s'"
  using ob unfolding pack_obliterate_def
proof (cases rule: bind_op_cases)
  case (failed e)
  then show ?thesis using loaded_packfiles_keeps [OF failed(1)] by (simp add: keeps_keeps_outside)
next
  case (went x t)
  have t: "keeps s t" "pack_ok t" using loaded_packfiles_keeps [OF went(1)] keepsD(3) [of s t] ok by blast+
  show ?thesis by (rule keeps_outside_trans [OF keeps_keeps_outside [OF t(1)] obliterate_loaded_keeps [OF t(2) went(2)]])
qed

section \<open>Flushing\<close>

lemma stop_after_failed_sync_keeps:
  "all_loaded s \<Longrightarrow> keeps s (stop_writes_after_failed_sync ids s)"
  unfolding stop_writes_after_failed_sync_def
proof (induction ids arbitrary: s)
  case (Cons i ids)
  from Cons.IH [OF mark_full_keeps(2) [OF Cons.prems]] mark_full_keeps(1) [OF Cons.prems]
  show ?case by (auto intro: keeps_trans)
qed simp

lemma sync_packfile_keeps: "sync_packfile k s = (r, s') \<Longrightarrow> keeps s s'"
  by (rule keeps_core) (simp_all add: sync_packfile_core)

lemma sync_packfile_loaded:
  assumes "sync_packfile k s = (r, s')" "ps_files s \<noteq> []"
  shows "all_loaded s'"
proof -
  have "length (ps_files s') = length (ps_files s)" by (rule map_eq_imp_length_eq [OF sync_packfile_core(1) [OF assms(1)]])
  with assms(2) show ?thesis by (auto simp: all_loaded_def)
qed

lemma pack_flush_keeps: "pack_flush i b s = (r, s') \<Longrightarrow> keeps s s'"
proof -
  assume fl: "pack_flush i b s = (r, s')"
  obtain q t where sy: "sync_packfile (i - 1) s = (q, t)" by (metis prod.exhaust)
  have "s' = s \<or> s' = t \<or> (s' = stop_writes_after_failed_sync [i] t \<and> ps_files s \<noteq> [])"
    using fl sy by (auto simp: pack_flush_def split: if_splits sum.splits)
  then show ?thesis
    using sync_packfile_keeps [OF sy] sync_packfile_loaded [OF sy] stop_after_failed_sync_keeps [of t "[i]"]
      keeps_trans [of s t] keeps_refl [of s] by blast
qed

lemma sync_each_keeps:
  "sync_each ks s = (es, s') \<Longrightarrow> keeps s s' \<and> length (ps_files s') = length (ps_files s) \<and> (ks = [] \<longrightarrow> es = [])"
proof (induction ks arbitrary: s es s')
  case (Cons k ks)
  obtain r t where t: "sync_packfile k s = (r, t)" by (metis prod.exhaust)
  obtain es' u where u: "sync_each ks t = (es', u)" by (metis prod.exhaust)
  have "s' = u" using Cons.prems t u by simp
  with Cons.IH [OF u] sync_packfile_keeps [OF t] map_eq_imp_length_eq [OF sync_packfile_core(1) [OF t]]
  show ?case by (auto intro: keeps_trans)
qed simp

lemma pack_flush_all_keeps: "pack_flush_all b s = (r, s') \<Longrightarrow> keeps s s'"
proof -
  assume fl: "pack_flush_all b s = (r, s')"
  obtain q t where t: "(if ps_released s \<noteq> [] then resume s else (Inr (), s)) = (q, t)" by (metis prod.exhaust)
  obtain es u where u: "sync_each [0..<length (ps_files t)] t = (es, u)" by (metis prod.exhaust)
  have kt: "keeps s t" using t resume_keeps [of s q t] by (auto split: if_splits)
  note ku = sync_each_keeps [OF u]
  have "s' = s \<or> s' = t \<or> s' = u \<or> (s' = stop_writes_after_failed_sync (map fst es) u \<and> es \<noteq> [])"
    using fl t u by (auto simp: pack_flush_all_def bind_op_def split: if_splits sum.splits list.splits prod.splits)
  moreover have "keeps u (stop_writes_after_failed_sync (map fst es) u)" if "es \<noteq> []"
    using that ku by (intro stop_after_failed_sync_keeps) (auto simp: all_loaded_def)
  ultimately show ?thesis using kt ku keeps_trans [of s t u] keeps_trans [of s u] keeps_refl [of s] by blast
qed

end
