(* ===== verification/Pack_Store_Runs.thy ===== *)
theory Pack_Store_Runs
  imports Pack_Store_Laws
begin

text \<open>
  Runs of a packstore: its operations in any order, with any I/O failing. Every operation returns,
  the packstore stays well formed, and a payload a store answered for is what a load gives, until
  its packfile is truncated or its range zeroed.
\<close>

section \<open>Operations in any order\<close>

datatype pack_event =
    StorePayload "nat \<Rightarrow> nat \<Rightarrow> bool" nat bytes
  | LoadPayload u32 u32 u32
  | LoadInto u32 u32 u32 bytes
  | Resume
  | Release bool
  | Settle nat
  | Flush nat bool
  | FlushAll bool
  | StopWrites "nat list"
  | RestartWrites "nat list"
  | Truncate nat
  | Obliterate u32 u32 u32

fun run_event :: "pack_event \<Rightarrow> pack_store \<Rightarrow> pack_store option" where
  "run_event (StorePayload locked spread p) s = map_option snd (pack_store_payload locked spread p s)"
| "run_event (LoadPayload i off n) s = Some (snd (pack_load i off n s))"
| "run_event (LoadInto i off n dst) s = Some (snd (pack_load_into i off n dst s))"
| "run_event Resume s = Some (snd (resume s))"
| "run_event (Release h) s = Some (snd (release_files h s))"
| "run_event (Settle i) s = Some (settle i s)"
| "run_event (Flush i b) s = Some (snd (pack_flush i b s))"
| "run_event (FlushAll b) s = Some (snd (pack_flush_all b s))"
| "run_event (StopWrites ids) s = Some (snd (stop_writes ids s))"
| "run_event (RestartWrites ids) s = Some (restart_writes ids s)"
| "run_event (Truncate i) s = Some (snd (truncate i s))"
| "run_event (Obliterate i off n) s = Some (snd (pack_obliterate i off n s))"

primrec run_events :: "pack_event list \<Rightarrow> pack_store \<Rightarrow> pack_store option" where
  "run_events [] s = Some s"
| "run_events (e # es) s = Option.bind (run_event e s) (run_events es)"

text \<open>The operations that may take back a payload: a truncate of its packfile, zeros over its range.\<close>

fun spares :: "nat \<Rightarrow> nat \<Rightarrow> nat \<Rightarrow> pack_event \<Rightarrow> bool" where
  "spares i off n (Truncate j) \<longleftrightarrow> j \<noteq> i"
| "spares i off n (Obliterate j off' n') \<longleftrightarrow> \<not> meets (unat j) (unat off') (unat n') i off n"
| "spares i off n _ \<longleftrightarrow> True"

lemma read_into_state: "packfile_read_into i off dst n s = (r, s') \<Longrightarrow> s' = faults_used s"
  by (cases "ps_faults s"; cases "hd (ps_faults s)")
     (auto simp: packfile_read_into_def bind_op_def io_op_def next_fault_eq split: if_splits)

lemma loaded_then_keeps:
  assumes "bind_op loaded_packfiles (\<lambda>_. f) s = (r, s')" "\<And>t q u. f t = (q, u) \<Longrightarrow> u = t \<or> u = faults_used t"
  shows "keeps s s'"
  using assms(1)
proof (cases rule: bind_op_cases)
  case (failed e)
  then show ?thesis using loaded_packfiles_keeps [OF failed(1)] by simp
next
  case (went x t)
  have "keeps s t" using loaded_packfiles_keeps [OF went(1)] by simp
  moreover have "keeps t s'" using assms(2) [OF went(2)] by auto
  ultimately show ?thesis by (rule keeps_trans)
qed

lemma pack_load_keeps:
  assumes "pack_load i off n s = (r, s')"
  shows "keeps s s'"
proof (cases "n = 0 \<or> i = 0")
  case True
  then have "s' = s" using assms by (auto simp: pack_load_def split: if_splits)
  then show ?thesis by simp
next
  case False
  with assms show ?thesis unfolding pack_load_def Let_def
    by (simp, elim loaded_then_keeps) (auto split: if_splits dest: packfile_read_result(1))
qed

lemma pack_load_into_keeps:
  assumes "pack_load_into i off n dst s = (r, s')"
  shows "keeps s s'"
proof (cases "n = 0 \<or> i = 0 \<or> unat n > length dst")
  case True
  then have "s' = s" using assms by (auto simp: pack_load_into_def split: if_splits)
  then show ?thesis by simp
next
  case False
  with assms show ?thesis unfolding pack_load_into_def Let_def
    by (simp, elim loaded_then_keeps) (auto split: if_splits dest: read_into_state)
qed

lemma pack_store_stored:
  assumes "pack_ok s" "0 < ps_min_count s"
  shows "\<exists>res. pack_store_payload locked spread p s = Some res \<and> keeps s (snd res) \<and> (p \<noteq> [] \<longrightarrow> stored s p res)"
  using store_loop_stored [OF assms, of p locked spread 0] by (auto simp: pack_store_payload_def stored_def)

lemma snd_keeps: "(\<And>r s'. f s = (r, s') \<Longrightarrow> keeps s s') \<Longrightarrow> keeps s (snd (f s))"
  by (cases "f s") auto

lemma run_event_keeps_all:
  assumes ok: "pack_ok s" "0 < ps_min_count s" and e: "\<forall>i. e \<noteq> Truncate i" "\<forall>i off n. e \<noteq> Obliterate i off n"
  shows "\<exists>s'. run_event e s = Some s' \<and> keeps s s'"
proof (cases e)
  case (StorePayload locked spread p)
  with pack_store_stored [OF ok, of locked spread p] show ?thesis by auto
next
  case Resume
  then show ?thesis using snd_keeps [of resume s] resume_keeps [of s] by auto
next
  case (LoadPayload i off n)
  then show ?thesis using snd_keeps [of "pack_load i off n" s] pack_load_keeps by auto
next
  case (LoadInto i off n dst)
  then show ?thesis using snd_keeps [of "pack_load_into i off n dst" s] pack_load_into_keeps by auto
next
  case (Flush i b)
  then show ?thesis using snd_keeps [of "pack_flush i b" s] pack_flush_keeps by auto
next
  case (FlushAll b)
  then show ?thesis using snd_keeps [of "pack_flush_all b" s] pack_flush_all_keeps by auto
next
  case (StopWrites ids)
  then show ?thesis using snd_keeps [of "stop_writes ids" s] stop_writes_keeps by auto
qed (use e ok in \<open>simp_all add: release_files_keeps settle_keeps restart_writes_keeps\<close>)

lemma run_event_keeps:
  assumes ok: "pack_ok s" "0 < ps_min_count s"
  shows "\<exists>s'. run_event e s = Some s' \<and> keeps_outside (\<lambda>i off n. \<not> spares i off n e) s s'"
proof -
  consider i where "e = Truncate i" | i off n where "e = Obliterate i off n"
    | "\<forall>i. e \<noteq> Truncate i" "\<forall>i off n. e \<noteq> Obliterate i off n" by blast
  then show ?thesis
  proof cases
    case (1 i)
    obtain r s' where t: "truncate i s = (r, s')" by (metis prod.exhaust)
    from truncate_keeps [OF ok t] show ?thesis by (simp add: 1 t eq_commute [of i])
  next
    case (2 i off n)
    obtain r s' where t: "pack_obliterate i off n s = (r, s')" by (metis prod.exhaust)
    have "(\<lambda>j off' n'. \<not> spares j off' n' e) = meets (unat i) (unat off) (unat n)" by (simp add: 2 fun_eq_iff)
    with pack_obliterate_keeps [OF ok(1) t] show ?thesis by (simp add: 2 t)
  next
    case 3
    from run_event_keeps_all [OF ok this] show ?thesis using keeps_keeps_outside by blast
  qed
qed

lemma run_events_keeps:
  assumes "pack_ok s" "0 < ps_min_count s"
  shows "\<exists>s'. run_events es s = Some s' \<and> pack_ok s' \<and> ps_min_count s' = ps_min_count s \<and>
    (\<forall>i off p. held s i off p \<longrightarrow> list_all (spares i off (length p)) es \<longrightarrow> held s' i off p)"
  using assms
proof (induction es arbitrary: s)
  case (Cons e es)
  from run_event_keeps [OF Cons.prems, of e] obtain t where t: "run_event e s = Some t"
    "keeps_outside (\<lambda>i off n. \<not> spares i off n e) s t" by blast
  then have t': "pack_ok t" "ps_min_count t = ps_min_count s"
    "\<And>i off p. held s i off p \<Longrightarrow> spares i off (length p) e \<Longrightarrow> held t i off p"
    using Cons.prems(1) by (simp_all add: keeps_outside_def)
  obtain u where "run_events es t = Some u" "pack_ok u" "ps_min_count u = ps_min_count t"
    "\<forall>i off p. held t i off p \<longrightarrow> list_all (spares i off (length p)) es \<longrightarrow> held u i off p"
    using Cons.IH [OF t'(1)] t'(2) Cons.prems(2) by auto
  with t(1) t'(2,3) show ?case by simp
qed simp

lemma pack_ok_new: "pack_ok (new_pack_store path n gc disk made faults)"
  by (simp add: pack_ok_def new_pack_store_def)

lemma stored_ref:
  assumes "stored s p (Inr ref, s')" "length (ps_files s') < 2 ^ 32"
  shows "held s' (unat (ref_id ref)) (unat (ref_offset ref)) p"
proof -
  obtain i off where ref: "ref = pack_ref i off" "off < PACKSTORE_SIZE_LIMIT" "i \<le> length (ps_files s')" "held s' i off p"
    using assms(1) by (auto simp: stored_def)
  then have "unat (ref_id ref) = i" "unat (ref_offset ref) = off"
    using assms(2) by (simp_all add: pack_ref_def unat_word_of_nat PACKSTORE_SIZE_LIMIT_def)
  with ref(4) show ?thesis by simp
qed

section \<open>What a packstore guarantees\<close>

definition sample_store :: pack_store where
  "sample_store = new_pack_store False 1 None fmempty False []"

definition sample_filled :: pack_store where
  "sample_filled = sample_store \<lparr>ps_files := [new_packfile 1 False 0], ps_writeable := [1]\<rparr>"

lemma fill_sample: "fill_writeable sample_store = (Inr (), sample_filled)"
  by (subst fill_writeable.simps, simp add: sample_store_def new_pack_store_def new_packfile_def PACKSTORE_SIZE_LIMIT_def)
     (subst fill_writeable.simps, simp add: sample_filled_def sample_store_def new_pack_store_def new_packfile_def PACKSTORE_SIZE_LIMIT_def)

lemma loaded_sample: "loaded_packfiles sample_store = (Inr (), sample_filled)"
  by (simp add: loaded_packfiles_def resume_def reload_def bind_op_def fill_sample)
     (simp add: sample_store_def new_pack_store_def)

lemma sample_store_stores:
  "\<exists>s'. pack_store_payload (\<lambda>_ _. False) 0 [7] sample_store = Some (Inr (pack_ref 1 0), s') \<and>
    length (ps_files s') = 1 \<and> ps_faults s' = []"
  unfolding pack_store_payload_def store_loop.simps [of _ _ _ _ sample_store] loaded_sample
  by (simp add: sample_filled_def sample_store_def new_pack_store_def new_packfile_def
       packfile_to_write_def reserve_def write_reserved_def land_memory_def
       finish_write_def update_packfile_def PACKSTORE_SIZE_LIMIT_def)

text \<open>
  C29. Every run of a packstore stays well formed. From a new packstore, on disk or in memory, through
  any sequence of its operations and any I/O failures: each packfile stands at the place its id
  names, those that take writes are listed in strictly ascending order and all exist, every packfile
  has a file exactly when the store is on disk, and one in memory has as many bytes as are reserved.
\<close>

theorem pack_runs_stay_well_formed:
  assumes "0 < min_count" "run_events events (new_pack_store path min_count gc disk made faults) = Some s"
  shows "map pf_id (ps_files s) = [1..<Suc (length (ps_files s))] \<and>
    sorted_wrt (<) (ps_writeable s) \<and> set (ps_writeable s) \<subseteq> {1..length (ps_files s)} \<and>
    list_all (\<lambda>f. pf_file f = ps_path s \<and> (pf_file f \<or> pf_size f = length (pf_buffer f))) (ps_files s)"
proof -
  let ?s0 = "new_pack_store path min_count gc disk made faults"
  have "0 < ps_min_count ?s0" using assms(1) by (simp add: new_pack_store_def)
  from run_events_keeps [OF pack_ok_new this, of events] have "pack_ok s" using assms(2) by auto
  then show ?thesis by (auto simp: pack_ok_def list_all_iff)
qed

theorem pack_runs_stay_well_formed_witness:
  "\<exists>s. run_events [StorePayload (\<lambda>_ _. False) 0 [7]] (new_pack_store False 1 None fmempty False []) = Some s \<and>
    map pf_id (ps_files s) = [1..<Suc (length (ps_files s))]"
proof -
  obtain s where s: "run_events [StorePayload (\<lambda>_ _. False) 0 [7]] (new_pack_store False 1 None fmempty False []) = Some s"
    using sample_store_stores by (auto simp: sample_store_def)
  from pack_runs_stay_well_formed [OF _ this] s show ?thesis by simp
qed

text \<open>
  C27. Every operation returns. The loop of a store comes back for another packfile whenever the one
  it is given is full, and for the ones it opens when none takes writes; a packstore kept at one
  packfile or more ends it, whichever locks are held and whatever I/O fails, and so does every
  sequence of operations.
\<close>

theorem pack_operations_return:
  assumes "pack_ok s" "0 < ps_min_count s"
  shows "\<exists>s'. run_events events s = Some s'"
  using run_events_keeps [OF assms] by blast

theorem pack_operations_return_witness:
  "\<exists>s'. run_events [StorePayload (\<lambda>_ _. True) 3 [7, 8], Release False, FlushAll True]
    (new_pack_store True 1 None (fmupd 4 [1] fmempty) True [None, Some 2]) = Some s'"
  by (rule pack_operations_return [OF pack_ok_new]) (simp add: new_pack_store_def)

text \<open>
  C28. A store succeeds while its I/O does. With no I/O failing, storing a payload that is not empty
  answers with a reference, whatever packfiles are full, closed or locked.
\<close>

theorem pack_store_succeeds:
  assumes "pack_ok s" "0 < ps_min_count s" "ps_faults s = []" "payload \<noteq> []"
  shows "\<exists>ref s'. pack_store_payload locked spread payload s = Some (Inr ref, s')"
  using pack_store_stored [OF assms(1,2), of locked spread payload] assms(3,4)
  by (auto simp: stored_def is_ok_iff)

theorem pack_store_succeeds_witness:
  "\<exists>ref s'. pack_store_payload (\<lambda>_ _. True) 5 [1, 2]
    (new_pack_store True 2 None (fmupd 1 [9] fmempty) True []) = Some (Inr ref, s')"
  by (rule pack_store_succeeds [OF pack_ok_new]) (simp_all add: new_pack_store_def)

text \<open>
  C26. A stored payload loads back. Once a store has answered with a reference, any sequence of other
  operations, stores that fail half way included, leaves its bytes in place, unless the packfile is
  truncated or zeros are written over the range: a load at the reference then gives the payload.
\<close>

theorem stored_payload_survives:
  assumes "pack_ok s" "0 < ps_min_count s"
    "pack_store_payload locked spread payload s = Some (Inr ref, s1)" "length (ps_files s1) < 2 ^ 32"
    "length payload < 2 ^ 32" "run_events events s1 = Some s2" "ps_faults s2 = []"
    "list_all (spares (unat (ref_id ref)) (unat (ref_offset ref)) (length payload)) events"
  shows "fst (pack_load (ref_id ref) (ref_offset ref) (word_of_nat (length payload)) s2) = Inr payload"
proof -
  have ne: "payload \<noteq> []" using assms(3) by (auto simp: pack_store_payload_def)
  with assms(1-3) have st: "stored s payload (Inr ref, s1)" "keeps s s1"
    using pack_store_stored [OF assms(1,2), of locked spread payload] by auto
  have s1: "pack_ok s1" "0 < ps_min_count s1" using keepsD(2,3) [OF st(2)] assms(1,2) by simp_all
  have s2: "pack_ok s2" "held s2 (unat (ref_id ref)) (unat (ref_offset ref)) payload"
    using run_events_keeps [OF s1, of events] assms(6,8) stored_ref [OF st(1) assms(4)] by auto
  obtain r t where l: "pack_load (ref_id ref) (ref_offset ref) (word_of_nat (length payload)) s2 = (r, t)"
    by (metis prod.exhaust)
  have "unat (word_of_nat (length payload) :: u32) = length payload" using assms(5) by (simp add: unat_word_of_nat)
  from pack_load_held [OF s2 this l] assms(7) show ?thesis by (simp add: l)
qed

theorem stored_payload_survives_witness:
  "\<exists>s1 s2. pack_store_payload (\<lambda>_ _. False) 0 [7] sample_store = Some (Inr (pack_ref 1 0), s1) \<and>
    run_events [Truncate 2] s1 = Some s2 \<and> fst (pack_load 1 0 1 s2) = Inr [7]"
proof -
  obtain s1 where s1: "pack_store_payload (\<lambda>_ _. False) 0 [7] sample_store = Some (Inr (pack_ref 1 0), s1)"
    "length (ps_files s1) = 1" "ps_faults s1 = []" using sample_store_stores by blast
  have ok: "pack_ok sample_store" "0 < ps_min_count sample_store"
    by (simp_all add: pack_ok_new sample_store_def) (simp add: new_pack_store_def)
  have "keeps sample_store s1" using pack_store_stored [OF ok, of "\<lambda>_ _. False" 0 "[7]"] s1(1) by auto
  then have "\<not> ps_path s1" using keepsD(1) by (fastforce simp: sample_store_def new_pack_store_def)
  then have tr: "run_events [Truncate 2] s1 = Some s1" by (simp add: truncate_def)
  from stored_payload_survives [OF ok s1(1) _ _ tr s1(3)] s1 tr show ?thesis
    by (auto simp: pack_ref_def)
qed

end
