(* ===== verification/Store_Group_Laws.thy ===== *)
theory Store_Group_Laws
  imports Local_Store Content_Store Store_Index_Laws Pack_Store_Runs
begin

text \<open>
  What the operations of the local store do to one group. Every live association of its index stands for
  the content its hash names, and one that has a payload points at bytes of the packstore of the group
  that expand to that content.

  The lemmas on a group are of the form that an operation extends the group; they compose.
\<close>

section \<open>Packfiles are only added\<close>

lemma fill_writeable_grows: "length (ps_files s) \<le> length (ps_files (snd (fill_writeable s)))"
  using fill_writeable_shape [of s "fst (fill_writeable s)" "snd (fill_writeable s)"] by (auto simp: fill_shape_def)

lemma mark_full_grows: "length (ps_files s) \<le> length (ps_files (mark_full i s))"
  using fill_writeable_grows [of "s \<lparr>ps_writeable := remove1 i (ps_writeable s)\<rparr>"] by (simp add: mark_full_def Let_def)

lemma loaded_packfiles_grows: "loaded_packfiles s = (r, s') \<Longrightarrow> length (ps_files s) \<le> length (ps_files s')"
  by (auto simp: loaded_packfiles_def split: if_splits)

lemma write_at_files: "write_at i off p s = (r, s') \<Longrightarrow> length (ps_files s') = length (ps_files s)"
  by (auto simp: write_at_def Let_def next_fault_eq set_file_def split: if_splits option.splits)

lemma write_reserved_grows:
  "write_reserved i off full p s = (r, s') \<Longrightarrow> length (ps_files s) \<le> length (ps_files s')"
  using mark_full_grows [of "land_memory i p s" "pf_id (ps_files s ! i)"]
  by (auto simp: write_reserved_def Let_def finish_write_def land_memory_def land_file_def
      intro!: order_trans [OF _ mark_full_grows] split: if_splits prod.splits sum.splits dest!: write_at_files)

lemma store_loop_grows:
  assumes "store_loop locked spread p n s = Some res"
  shows "length (ps_files s) \<le> length (ps_files (snd res))"
proof (rule store_loop.raw_induct [OF _ assms, of "\<lambda>locked spread p n s res. length (ps_files s) \<le> length (ps_files (snd res))"])
  fix loop :: "(nat \<Rightarrow> nat \<Rightarrow> bool) \<Rightarrow> nat \<Rightarrow> bytes \<Rightarrow> nat \<Rightarrow> pack_store \<Rightarrow> (pack_store_ref result \<times> pack_store) option"
    and locked spread p n s res
  assume IH: "\<And>locked spread p n s res. loop locked spread p n s = Some res \<Longrightarrow> length (ps_files s) \<le> length (ps_files (snd res))"
    and body: "(case loaded_packfiles s of
        (Inl e, s1) \<Rightarrow> Some (Inl e, s1)
      | (Inr _, s1) \<Rightarrow>
         (case packfile_to_write (locked n) spread s1 of
            None \<Rightarrow> (case refill s1 of (Inl e, s2) \<Rightarrow> Some (Inl e, s2) | (Inr _, s2) \<Rightarrow> loop locked spread p (n + 1) s2)
          | Some index \<Rightarrow>
              (case reserve index (length p) s1 of
                 (None, s2) \<Rightarrow> loop locked spread p (n + 1) (mark_full (pf_id (ps_files s1 ! index)) s2)
               | (Some (offset, full), s2) \<Rightarrow> Some (write_reserved index offset full p s2)))) = Some res"
  obtain r1 s1 where l: "loaded_packfiles s = (r1, s1)" by (metis prod.exhaust)
  obtain r2 s2 where f: "refill s1 = (r2, s2)" by (metis prod.exhaust)
  have rs: "length (ps_files (snd (reserve index k s1))) = length (ps_files s1)" for index k
    by (simp add: reserve_def Let_def)
  have "length (ps_files s1) \<le> length (ps_files (snd res))"
  proof (cases "packfile_to_write (locked n) spread s1")
    case None
    have "length (ps_files s1) \<le> length (ps_files s2)" using fill_writeable_grows [of s1] f by (simp add: refill_def)
    then show ?thesis using body None f l IH [of locked spread p "n + 1" s2 res]
      by (auto split: sum.splits)
  next
    case (Some index)
    obtain q s3 where q: "reserve index (length p) s1 = (q, s3)" by (metis prod.exhaust)
    have s3: "length (ps_files s3) = length (ps_files s1)" using rs [of index "length p"] q by simp
    show ?thesis
    proof (cases r1)
      case (Inl e)
      then show ?thesis using body l by auto
    next
      case (Inr u)
      show ?thesis
      proof (cases q)
        case None
        then have "loop locked spread p (n + 1) (mark_full (pf_id (ps_files s1 ! index)) s3) = Some res"
          using body l Inr Some q by simp
        from IH [OF this] mark_full_grows [of s3 "pf_id (ps_files s1 ! index)"] s3 show ?thesis by simp
      next
        case (Some of')
        then obtain offset full where "write_reserved index offset full p s3 = res"
          using body l Inr \<open>packfile_to_write (locked n) spread s1 = Some index\<close> q by (cases of') auto
        with write_reserved_grows [of index offset full p s3 "fst res" "snd res"] s3 show ?thesis by simp
      qed
    qed
  qed
  with loaded_packfiles_grows [OF l] show "length (ps_files s) \<le> length (ps_files (snd res))" by simp
qed

lemma pack_store_grows:
  "pack_store_payload locked spread p s = Some (r, s') \<Longrightarrow> length (ps_files s) \<le> length (ps_files s')"
  using store_loop_grows by (fastforce simp: pack_store_payload_def split: if_splits)

lemma loaded_then_grows:
  assumes "bind_op loaded_packfiles (\<lambda>_. f) s = (r, s')" "\<And>t q u. f t = (q, u) \<Longrightarrow> u = t \<or> u = faults_used t"
  shows "length (ps_files s) \<le> length (ps_files s') \<and> (ps_faults s = [] \<longrightarrow> ps_faults s' = [])"
  using assms(1)
proof (cases rule: bind_op_cases)
  case (went x t)
  with assms(2) [OF went(2)] loaded_packfiles_grows [OF went(1)] loaded_packfiles_ok [OF _ went(1)]
  show ?thesis by (auto simp: faults_used_def)
qed (auto dest: loaded_packfiles_grows loaded_packfiles_ok)

lemma pack_load_grows:
  "pack_load i off n s = (r, s') \<Longrightarrow> length (ps_files s) \<le> length (ps_files s') \<and> (ps_faults s = [] \<longrightarrow> ps_faults s' = [])"
  unfolding pack_load_def Let_def
  by (simp split: if_splits, elim loaded_then_grows) (auto split: if_splits dest: packfile_read_result(1))

section \<open>Data that stands for content\<close>

definition fragment_of :: "immutable_data \<Rightarrow> fragment" where
  "fragment_of d = \<lparr>flags = d_flags d, size_payload = d_size_payload d, size_content = d_size_content d\<rparr>"

definition data_ok :: "store_env \<Rightarrow> content set \<Rightarrow> pack_store \<Rightarrow> hash \<Rightarrow> immutable_data \<Rightarrow> bool" where
  "data_ok env contents ps h d \<longleftrightarrow>
     (if live d then
        \<exists>c \<in> contents. env_hash env (content_bytes c) = h \<and> d_size_content d = content_size c \<and>
          (pack_file d \<noteq> 0 \<longrightarrow> (\<exists>payload. held ps (unat (pack_file d)) (unat (pack_offset d)) payload \<and>
             means (env_codecs env) (fragment_of d) payload c))
      else pack_file d = 0)"

definition readable_data :: "immutable_data \<Rightarrow> bool" where
  "readable_data d \<longleftrightarrow> live d \<and> pack_file d \<noteq> 0"

lemma not_stored_bits:
  assumes "x AND NOT PayloadStored = y AND NOT PayloadStored"
  shows "x AND REPRESENTATION = y AND REPRESENTATION" "x AND PayloadObliterated = y AND PayloadObliterated"
proof -
  have "z AND REPRESENTATION = (z AND NOT PayloadStored) AND REPRESENTATION"
    "z AND PayloadObliterated = (z AND NOT PayloadStored) AND PayloadObliterated" for z :: u32
    by (simp_all add: flag_simps REPRESENTATION_def and.assoc)
  then show "x AND REPRESENTATION = y AND REPRESENTATION" "x AND PayloadObliterated = y AND PayloadObliterated"
    using assms by metis+
qed

lemma data_ok_cong:
  assumes "d_flags d AND NOT PayloadStored = d_flags d' AND NOT PayloadStored" "same_location d d'"
    "d_size_payload d = d_size_payload d'" "d_size_content d = d_size_content d'"
  shows "data_ok env K ps h d \<longleftrightarrow> data_ok env K ps h d'" "readable_data d \<longleftrightarrow> readable_data d'"
proof -
  note bits = not_stored_bits [OF assms(1)]
  have live: "live d = live d'" by (simp add: live_def bits(2))
  have means: "means cd (fragment_of d) payload c \<longleftrightarrow> means cd (fragment_of d') payload c" for cd payload c
    by (rule means_cong) (simp_all add: fragment_of_def bits(1) assms(3,4))
  show "data_ok env K ps h d \<longleftrightarrow> data_ok env K ps h d'"
    using assms(2,4) by (simp add: data_ok_def live means same_location_def)
  show "readable_data d \<longleftrightarrow> readable_data d'"
    using assms(2) by (simp add: readable_data_def live same_location_def)
qed

lemma data_ok_held:
  assumes "data_ok env K ps h d" "readable_data d"
  obtains c payload where "c \<in> K" "env_hash env (content_bytes c) = h" "d_size_content d = content_size c"
    "held ps (unat (pack_file d)) (unat (pack_offset d)) payload" "means (env_codecs env) (fragment_of d) payload c"
  using assms by (auto simp: data_ok_def readable_data_def)

lemma data_ok_keeps: "pack_ok ps \<Longrightarrow> keeps ps ps' \<Longrightarrow> data_ok env K ps h d \<Longrightarrow> data_ok env K ps' h d"
  unfolding data_ok_def by (auto split: if_splits intro: keepsD(4))

text \<open>What a store is given: content of the set, with its payload where one was written.\<close>

definition given_ok :: "store_env \<Rightarrow> content set \<Rightarrow> pack_store \<Rightarrow> address \<Rightarrow> fragment \<Rightarrow> store_payload \<Rightarrow> bool" where
  "given_ok env contents ps a f payload \<longleftrightarrow> flags f AND PayloadObliterated = 0 \<and>
     (\<exists>c \<in> contents. env_hash env (content_bytes c) = addr_hash a \<and> size_content f = content_size c \<and>
        (\<forall>r. payload = Written r \<longrightarrow>
           (\<exists>bs. held ps (unat (ref_id r)) (unat (ref_offset r)) bs \<and> means (env_codecs env) f bs c)))"

lemma given_ok_Written: "given_ok env K ps a f payload \<Longrightarrow> payload \<noteq> Written r \<Longrightarrow> given_ok env K ps a f Unwritten"
  by (auto simp: given_ok_def)

lemma fresh_data_ok:
  assumes "given_ok env K ps a f (Written r)"
  shows "data_ok env K ps (addr_hash a) (fresh_data now f (Some r)) \<and> readable_data (fresh_data now f (Some r))"
proof -
  let ?d = "fresh_data now f (Some r)"
  obtain c bs where c: "c \<in> K" "env_hash env (content_bytes c) = addr_hash a" "size_content f = content_size c"
    "held ps (unat (ref_id r)) (unat (ref_offset r)) bs" "means (env_codecs env) f bs c"
    "flags f AND PayloadObliterated = 0"
    using assms by (auto simp: given_ok_def)
  have fl: "d_flags ?d AND NOT PayloadStored = flags f AND NOT PayloadStored"
    by (simp add: fresh_data_def Let_def)
  note bits = not_stored_bits [OF fl]
  have "ref_id r \<noteq> 0" using c(4) by (auto simp: held_def)
  moreover have "live ?d" using bits(2) c(6) by (simp add: live_def)
  moreover have "means (env_codecs env) (fragment_of ?d) bs c \<longleftrightarrow> means (env_codecs env) f bs c"
    by (rule means_cong) (use bits(1) in \<open>simp_all add: fragment_of_def fresh_data_def Let_def\<close>)
  ultimately show ?thesis
    using c by (auto simp: data_ok_def readable_data_def fresh_data_def Let_def)
qed

lemma stores_data_ok:
  assumes coh: "coherent (env_hash env) K" and given: "given_ok env K ps a f payload"
    and old: "\<And>k d. assoc b k = Some d \<Longrightarrow> data_ok env K ps (fst k) d"
    and st: "stores now b a f payload d" "payload \<noteq> Unwritten \<or> adopts b a f d"
  shows "data_ok env K ps (addr_hash a) d \<and> (payload \<noteq> Absent \<longrightarrow> readable_data d)"
proof -
  obtain c where c: "c \<in> K" "env_hash env (content_bytes c) = addr_hash a" "size_content f = content_size c"
    "flags f AND PayloadObliterated = 0"
    using given by (auto simp: given_ok_def)
  have size: "d_size_content d = size_content f" using st(1) by (simp add: stores_def)
  consider (adopts) "adopts b a f d" | (fresh) r where "payload = Written r" "d = fresh_data now f (Some r)"
    | (absent) "payload = Absent" "pack_file d = 0" "d_flags d = d_flags (fresh_data now f None)"
    using st by (auto simp: stores_def)
  then show ?thesis
  proof cases
    case adopts
    then obtain k d0 where d0: "assoc b k = Some d0" "fst k = addr_hash a" "pack_file d0 \<noteq> 0" "same_location d d0"
      "d_size_payload d = d_size_payload d0" "d_flags d AND NOT PayloadStored = d_flags d0 AND NOT PayloadStored"
      unfolding adopts_def by blast
    have ok: "data_ok env K ps (addr_hash a) d0" using old [OF d0(1)] d0(2) by simp
    then have rd: "readable_data d0" using d0(3) by (auto simp: data_ok_def readable_data_def split: if_splits)
    from data_ok_held [OF ok rd] obtain c0 where c0: "c0 \<in> K" "env_hash env (content_bytes c0) = addr_hash a"
      "d_size_content d0 = content_size c0" by metis
    with coherentD [OF coh c0(1) c(1)] c size have "d_size_content d = d_size_content d0" by simp
    from data_ok_cong [OF d0(6,4,5) this] ok rd show ?thesis by simp
  next
    case fresh
    with fresh_data_ok given show ?thesis by blast
  next
    case absent
    have "d_flags d AND NOT PayloadStored = flags f AND NOT PayloadStored"
      using absent(3) by (simp add: fresh_data_def Let_def)
    from not_stored_bits(2) [OF this] c(4) have "live d" by (simp add: live_def)
    with absent(1,2) c size show ?thesis by (auto simp: data_ok_def)
  qed
qed

lemma upgrade_data_ok:
  assumes coh: "coherent (env_hash env) K" and d: "data_ok env K ps h d" "pack_file d \<noteq> 0" and d': "data_ok env K ps h d'"
  shows "data_ok env K ps h (upgrade d d') \<and> (readable_data d' \<longrightarrow> readable_data (upgrade d d'))"
proof (cases "live d' \<and> \<not> same_location d' d")
  case True
  have rd: "readable_data d" using d by (auto simp: data_ok_def readable_data_def split: if_splits)
  from data_ok_held [OF d(1) rd] obtain c where c: "c \<in> K" "env_hash env (content_bytes c) = h" "d_size_content d = content_size c"
    by metis
  obtain c' where c': "c' \<in> K" "env_hash env (content_bytes c') = h" "d_size_content d' = content_size c'"
    using d' True by (auto simp: data_ok_def)
  let ?u = "assign_deduplicated_payload d' d"
  have "c' = c" by (rule coherentD [OF coh c'(1) c(1)]) (simp add: c(2) c'(2))
  then have "d_size_content ?u = d_size_content d" using c(3) c'(3) by (simp add: assign_deduplicated_payload_def)
  moreover have "d_flags ?u AND NOT PayloadStored = d_flags d AND NOT PayloadStored" "same_location ?u d"
    "d_size_payload ?u = d_size_payload d"
    by (simp_all add: assign_deduplicated_payload_def same_location_def)
  ultimately show ?thesis using data_ok_cong [of ?u d] d(1) rd True by (simp add: upgrade_def)
next
  case False
  with d' show ?thesis by (auto simp: upgrade_def)
qed

lemma kept_data_ok:
  "data_ok env K ps h (kept_data f d) = data_ok env K ps h d" "readable_data (kept_data f d) = readable_data d"
  by (intro data_ok_cong; simp add: kept_data_def same_location_def)+

lemma stamped_data_ok:
  "data_ok env K ps h (d \<lparr>last_access := t\<rparr>) = data_ok env K ps h d" "readable_data (d \<lparr>last_access := t\<rparr>) = readable_data d"
  by (intro data_ok_cong; simp add: same_location_def)+

section \<open>A group that keeps what it is given\<close>

definition group_ready :: "bool \<Rightarrow> immutable_store_group \<Rightarrow> bool" where
  "group_ready path g \<longleftrightarrow> (\<forall>h. let i = bucket_of h g; b = g_bucket g i
     in path \<longrightarrow> deserialized b \<or> (entry b = [] \<and> sorted_index b = [] \<and> fmlookup (gd_files (g_dir g)) (bucket_path i) = None))"

definition group_fits :: "immutable_store_group \<Rightarrow> bool" where
  "group_fits g \<longleftrightarrow> length (ps_files (packstore g)) < 2 ^ 32 \<and> (\<forall>i. length (entry (g_bucket g i)) < 2 ^ 32)"

definition group_ok :: "store_env \<Rightarrow> content set \<Rightarrow> immutable_store_group \<Rightarrow> bool" where
  "group_ok env contents g \<longleftrightarrow> pack_ok (packstore g) \<and> 0 < ps_min_count (packstore g) \<and>
     (\<forall>i. bucket_ok (g_bucket g i) \<and>
        (\<forall>k d. assoc (g_bucket g i) k = Some d \<longrightarrow> data_ok env contents (packstore g) (fst k) d))"

definition readable_in :: "immutable_store_group \<Rightarrow> nat \<Rightarrow> entry_key \<Rightarrow> bool" where
  "readable_in g i k \<longleftrightarrow> (\<exists>d. assoc (g_bucket g i) k = Some d \<and> readable_data d)"

text \<open>No input or output of the group is to fail.\<close>

definition quiet_group :: "immutable_store_group \<Rightarrow> bool" where
  "quiet_group g \<longleftrightarrow> ps_faults (packstore g) = [] \<and> gd_io (g_dir g) = []"

text \<open>One group extends another: nothing that was readable is lost, provided no counter wrapped.\<close>

definition extends :: "store_env \<Rightarrow> content set \<Rightarrow> bool \<Rightarrow> immutable_store_group \<Rightarrow> immutable_store_group \<Rightarrow> bool" where
  "extends env contents path g g' \<longleftrightarrow> (group_ready path g \<longrightarrow>
     group_ready path g' \<and> bucket_count g' = bucket_count g \<and> (group_fits g' \<longrightarrow> group_fits g) \<and>
     (group_ok env contents g \<longrightarrow> group_fits g' \<longrightarrow> group_ok env contents g' \<and>
        (quiet_group g \<longrightarrow> quiet_group g') \<and> (\<forall>i k. readable_in g i k \<longrightarrow> readable_in g' i k)))"

lemma extends_refl [simp]: "extends env K path g g"
  by (simp add: extends_def)

lemma extends_trans [trans]: "extends env K path g g' \<Longrightarrow> extends env K path g' g'' \<Longrightarrow> extends env K path g g''"
  unfolding extends_def by auto

lemma extendsD:
  assumes "extends env K path g g'" "group_ready path g"
  shows "group_ready path g'" "bucket_count g' = bucket_count g" "group_fits g' \<Longrightarrow> group_fits g"
    and "group_ok env K g \<Longrightarrow> group_fits g' \<Longrightarrow> group_ok env K g'"
    and "group_ok env K g \<Longrightarrow> group_fits g' \<Longrightarrow> quiet_group g \<Longrightarrow> quiet_group g'"
    and "group_ok env K g \<Longrightarrow> group_fits g' \<Longrightarrow> readable_in g i k \<Longrightarrow> readable_in g' i k"
  using assms by (auto simp: extends_def simp del: split_paired_All)

lemma extends_set_bucket:
  assumes ds: "path \<Longrightarrow> deserialized (g_bucket g i)" "deserialized b' = deserialized (g_bucket g i)"
    and len: "length (entry (g_bucket g i)) \<le> length (entry b')"
    and ok: "group_ok env K g \<Longrightarrow> length (entry b') < 2 ^ 32 \<Longrightarrow> bucket_ok b' \<and>
      (\<forall>k d. assoc b' k = Some d \<longrightarrow> data_ok env K (packstore g) (fst k) d) \<and>
      (\<forall>k. readable_in g i k \<longrightarrow> (\<exists>d. assoc b' k = Some d \<and> readable_data d))"
  shows "extends env K path g (set_bucket i b' g)"
proof -
  let ?g = "set_bucket i b' g"
  have b: "g_bucket ?g = (g_bucket g)(i := b')" "packstore ?g = packstore g" "bucket_count ?g = bucket_count g"
    "g_dir ?g = g_dir g" by (simp_all add: set_bucket_def)
  have "group_ready path ?g" if "group_ready path g"
    using that ds by (auto simp: group_ready_def b bucket_of_def Let_def)
  moreover have "group_fits g" if "group_fits ?g"
  proof -
    have all: "\<forall>j. length (entry (((g_bucket g)(i := b')) j)) < 2 ^ 32" using that by (simp only: group_fits_def b simp_thms)
    have "length (entry (g_bucket g j)) < 2 ^ 32" for j
      using len all [rule_format, of j] by (cases "j = i") simp_all
    with that show ?thesis by (simp only: group_fits_def b simp_thms)
  qed
  moreover have "group_ok env K ?g \<and> (\<forall>j k. readable_in g j k \<longrightarrow> readable_in ?g j k)" if "group_ok env K g" "group_fits ?g"
  proof -
    have "length (entry b') < 2 ^ 32" using that(2) by (auto simp: group_fits_def b split: if_splits)
    from ok [OF that(1) this] that(1) show ?thesis by (auto simp: group_ok_def readable_in_def b)
  qed
  moreover have "quiet_group ?g = quiet_group g" by (simp add: quiet_group_def b)
  ultimately show ?thesis by (auto simp: extends_def b)
qed

section \<open>Opening a bucket\<close>

lemma ps_gc_keeps: "keeps ps (ps \<lparr>ps_gc := x\<rparr>)" "held (ps \<lparr>ps_gc := x\<rparr>) = held ps"
  by (rule keeps_same) (simp_all add: fun_eq_iff held_def content_def file_bytes_def)

lemma deserialize_ready:
  assumes "fmlookup (gd_files (g_dir g)) (bucket_path i) = None" "\<not> deserialized (g_bucket g i)"
    "deserialize counted i g = (r, g')"
  shows "gd_files (g_dir g') = gd_files (g_dir g) \<and> bucket_count g' = bucket_count g \<and>
    keeps (packstore g) (packstore g') \<and> ps_files (packstore g') = ps_files (packstore g) \<and>
    ps_faults (packstore g') = ps_faults (packstore g) \<and> held (packstore g') = held (packstore g) \<and>
    (gd_io (g_dir g) = [] \<longrightarrow> gd_io (g_dir g') = [] \<and> r = Inr ()) \<and>
    (r = Inr () \<and> g_bucket g' = (g_bucket g)(i := g_bucket g i \<lparr>sorted_index := [], entry := [], upgrade_packfile := False, deserialized := True\<rparr>) \<or>
     (\<exists>e. r = Inl e) \<and> g_bucket g' = g_bucket g)"
proof -
  define look where "look = dir_query ''Failed to deserialize storage bucket'' (\<lambda>d. fmlookup (gd_files d) (bucket_path i))"
  obtain q d where d: "look (g_dir g) = (q, d)" by (cases "look (g_dir g)")
  have "gd_files d = gd_files (g_dir g) \<and> (q = Inr None \<or> (\<exists>e. q = Inl e)) \<and>
      (gd_io (g_dir g) = [] \<longrightarrow> gd_io d = [] \<and> q = Inr None)"
    using d assms(1) unfolding look_def dir_query_def
    by (cases "gd_io (g_dir g)") (auto simp: next_io_def split: io_answer.splits)
  then have files: "gd_files d = gd_files (g_dir g)" and q: "q = Inr None \<or> (\<exists>e. q = Inl e)"
    and io: "gd_io (g_dir g) = [] \<Longrightarrow> gd_io d = [] \<and> q = Inr None" by auto
  have ef: "bf_sizes empty_bucket_file = Unrecorded" "bf_entry empty_bucket_file = []" "bf_mark_dirty empty_bucket_file = False"
    by (simp_all add: empty_bucket_file_def)
  have lb: "load_bucket empty_bucket_file False b = b \<lparr>sorted_index := [], entry := [], upgrade_packfile := False, deserialized := True\<rparr>" for b
    by (cases b) (simp add: load_bucket_def empty_bucket_file_def)
  let ?g = "g \<lparr>g_dir := d\<rparr>"
  show ?thesis
  proof (cases q)
    case (Inl e)
    then have "deserialize counted i g = (Inl e, ?g)"
      using assms(2) by (simp add: deserialize_def bind_op_def on_dir_def deserialize_files_def look_def [symmetric] d)
    with assms(3) files io Inl show ?thesis by auto
  next
    case (Inr x)
    with q have x: "q = Inr None" by auto
    have "on_dir (deserialize_files i) g = (Inr empty_bucket_file, ?g)"
      by (simp add: on_dir_def deserialize_files_def bind_op_def look_def [symmetric] d x)
    moreover have "clear_lost_payloads empty_bucket_file ?g = (Inr (empty_bucket_file, False), ?g)"
      by (simp add: clear_lost_payloads_def payloads_lost_def ef bind_op_def return_op_def)
    ultimately have "deserialize counted i g = (Inr (),
        let t = set_bucket i (load_bucket empty_bucket_file False (g_bucket g i)) ?g in if counted then count_fragments 0 t else t)"
      using assms(2) by (simp add: deserialize_def bind_op_def modify_op_def ef Let_def)
    with assms(3) files io ps_gc_keeps show ?thesis
      by (auto simp: lb set_bucket_def count_fragments_def Let_def)
  qed
qed

lemma empty_bucket_assoc: "sorted_index b = [] \<Longrightarrow> assoc b = Map.empty"
  by (simp add: assoc_def slots_def)

lemma bucket_ok_entries_cong: "entry b' = entry b \<Longrightarrow> sorted_index b' = sorted_index b \<Longrightarrow> bucket_ok b' = bucket_ok b \<and> assoc b' = assoc b"
  by (simp add: bucket_ok_def index_ok_def bucket_sorted_def assoc_def slots_def)

lemma extends_same_entries:
  assumes "\<And>i. entry (g_bucket g' i) = entry (g_bucket g i) \<and> sorted_index (g_bucket g' i) = sorted_index (g_bucket g i)"
    "\<And>i. deserialized (g_bucket g i) \<Longrightarrow> deserialized (g_bucket g' i)"
    "bucket_count g' = bucket_count g" "gd_files (g_dir g') = gd_files (g_dir g)"
    "group_ok env K g \<Longrightarrow> keeps (packstore g) (packstore g')"
    "length (ps_files (packstore g)) \<le> length (ps_files (packstore g'))"
    "group_ok env K g \<Longrightarrow> quiet_group g \<Longrightarrow> quiet_group g'"
  shows "extends env K path g g'"
proof -
  have same: "bucket_ok (g_bucket g' i) = bucket_ok (g_bucket g i)" "assoc (g_bucket g' i) = assoc (g_bucket g i)" for i
    using bucket_ok_entries_cong assms(1) by blast+
  have "group_ready path g'" if "group_ready path g"
    unfolding group_ready_def Let_def
  proof (intro allI impI)
    fix h assume path
    let ?i = "bucket_of h g"
    have "bucket_of h g' = ?i" using assms(3) by (simp add: bucket_of_def)
    moreover have "deserialized (g_bucket g ?i) \<or>
        entry (g_bucket g ?i) = [] \<and> sorted_index (g_bucket g ?i) = [] \<and> fmlookup (gd_files (g_dir g)) (bucket_path ?i) = None"
      using that \<open>path\<close> by (simp add: group_ready_def Let_def)
    ultimately show "deserialized (g_bucket g' (bucket_of h g')) \<or>
        entry (g_bucket g' (bucket_of h g')) = [] \<and> sorted_index (g_bucket g' (bucket_of h g')) = [] \<and>
        fmlookup (gd_files (g_dir g')) (bucket_path (bucket_of h g')) = None"
      using assms(1,2) [of ?i] assms(4) by auto
  qed
  moreover have "group_fits g' \<Longrightarrow> group_fits g"
    using assms(1,6) by (simp add: group_fits_def)
  moreover have "group_ok env K g \<Longrightarrow> group_ok env K g'"
    using keepsD [OF assms(5)] data_ok_keeps [OF _ assms(5)] unfolding group_ok_def same by simp
  moreover have "readable_in g' i k = readable_in g i k" for i k
    by (simp add: readable_in_def same)
  ultimately show ?thesis
    using assms(3,7) by (simp add: extends_def)
qed

lemma open_bucket_cases:
  assumes "open_bucket path h g = (r, g')" "group_ready path g"
  shows "extends env K path g g'" "assoc (g_bucket g' j) = assoc (g_bucket g j)"
    "ps_faults (packstore g') = ps_faults (packstore g)" "bucket_count g' = bucket_count g"
    and "r = Inr i \<Longrightarrow> i = bucket_of h g \<and> (path \<longrightarrow> deserialized (g_bucket g' i))"
    and "quiet_group g \<Longrightarrow> r = Inr (bucket_of h g)"
    and "held (packstore g') = held (packstore g)"
proof -
  let ?i = "bucket_of h g"
  have "extends env K path g g' \<and> (\<forall>j. assoc (g_bucket g' j) = assoc (g_bucket g j)) \<and>
    ps_faults (packstore g') = ps_faults (packstore g) \<and> bucket_count g' = bucket_count g \<and>
    (\<forall>i. r = Inr i \<longrightarrow> i = ?i \<and> (path \<longrightarrow> deserialized (g_bucket g' i))) \<and> (quiet_group g \<longrightarrow> r = Inr ?i) \<and>
    held (packstore g') = held (packstore g)"
  proof (cases "\<not> deserialized (g_bucket g ?i) \<and> path")
    case False
    with assms(1) show ?thesis by (auto simp: open_bucket_def Let_def)
  next
    case True
    have empty: "entry (g_bucket g ?i) = []" "sorted_index (g_bucket g ?i) = []"
      "fmlookup (gd_files (g_dir g)) (bucket_path ?i) = None"
      using assms(2) True by (auto simp: group_ready_def Let_def)
    obtain q t where q: "deserialize True ?i g = (q, t)" by (cases "deserialize True ?i g")
    note ds = deserialize_ready [OF empty(3) conjunct1 [OF True] q]
    have g': "g' = t" "\<And>i. r = Inr i \<Longrightarrow> i = ?i \<and> q = Inr ()" "q = Inr () \<Longrightarrow> r = Inr ?i"
      using assms(1) True q by (cases q; auto simp: open_bucket_def bind_op_def return_op_def)+
    have ent: "entry (g_bucket t i) = entry (g_bucket g i) \<and> sorted_index (g_bucket t i) = sorted_index (g_bucket g i)" for i
      using ds True empty by (cases "i = ?i") auto
    have "extends env K path g t"
      by (rule extends_same_entries) (use ent ds True in \<open>auto simp: quiet_group_def\<close>)
    moreover have "assoc (g_bucket t j) = assoc (g_bucket g j)" for j
      using bucket_ok_entries_cong ent by blast
    moreover have "ps_faults (packstore t) = ps_faults (packstore g)" "bucket_count t = bucket_count g"
      "quiet_group g \<Longrightarrow> q = Inr ()" "held (packstore t) = held (packstore g)"
      using ds by (auto simp only: quiet_group_def)
    moreover have "deserialized (g_bucket t ?i)" if "q = Inr ()"
      using ds that by (elim conjE disjE) simp_all
    ultimately show ?thesis unfolding g'(1) using g'(2,3) by blast
  qed
  then show "extends env K path g g'" "assoc (g_bucket g' j) = assoc (g_bucket g j)"
    "ps_faults (packstore g') = ps_faults (packstore g)" "bucket_count g' = bucket_count g"
    "r = Inr i \<Longrightarrow> i = bucket_of h g \<and> (path \<longrightarrow> deserialized (g_bucket g' i))"
    "quiet_group g \<Longrightarrow> r = Inr (bucket_of h g)" "held (packstore g') = held (packstore g)"
    by blast+
qed

section \<open>Finding an entry\<close>

definition stamped :: "immutable_data \<Rightarrow> immutable_data \<Rightarrow> bool" where
  "stamped d d' \<longleftrightarrow> (\<exists>t. d' = d \<lparr>last_access := t\<rparr>)"

lemma stamped_refl [simp]: "stamped d d"
  unfolding stamped_def by (rule exI [of _ "last_access d"]) simp

lemma stampedD:
  assumes "stamped d d'"
  shows "data_ok env K ps h d' = data_ok env K ps h d" "readable_data d' = readable_data d" "live d' = live d"
  using assms stamped_data_ok by (auto simp: stamped_def live_def)

definition dead_data :: immutable_data where
  "dead_data = immutable_data_default \<lparr>d_flags := PayloadObliterated\<rparr>"

lemma obliterated_iff: "d_flags d AND PayloadObliterated = PayloadObliterated \<longleftrightarrow> \<not> live d"
proof -
  have "PayloadObliterated = 2 ^ 8" by (simp add: PayloadObliterated_def)
  then have bit8: "bit PayloadObliterated n \<longleftrightarrow> n = 8" for n
    unfolding \<open>PayloadObliterated = 2 ^ 8\<close> bit_exp_iff by auto
  show ?thesis
    unfolding live_def bit_eq_iff [of "d_flags d AND PayloadObliterated"] by (auto simp: bit_and_iff bit8 dest: spec [of _ "8 :: nat"])
qed

lemma stamp_last_access_effect:
  assumes "bucket_ok b" "m < length (sorted_index b)" "key_of (slots b ! m) = k" "assoc b k = Some d"
    "b' = stamp_last_access now reason (slot_index b m) b"
  shows "bucket_ok b' \<and> length (entry b') = length (entry b) \<and> deserialized b' = deserialized b \<and>
    (\<exists>t. assoc b' = (assoc b)(k \<mapsto> d \<lparr>last_access := t\<rparr>)) \<and> Some (e_data (entry b' ! slot_index b m)) = assoc b' k"
proof -
  let ?i = "slot_index b m"
  have d: "e_data (entry b ! ?i) = d"
    using assoc_nth [OF assms(1,2)] assms(2-4) by (simp add: slots_nth)
  let ?u = "d \<lparr>last_access := now\<rparr>" and ?c = "set_data ?i (d \<lparr>last_access := now\<rparr>) b"
  have i: "?i < length (entry b)" using assms(1,2) by (auto simp: bucket_ok_def index_ok_def)
  have same: "entry b' = entry ?c" "sorted_index b' = sorted_index ?c" "deserialized b' = deserialized ?c"
    unfolding assms(5) stamp_last_access_def Let_def d by (auto split: lookup_reason.split)
  from bucket_ok_entries_cong [OF same(1,2)] have "bucket_ok b' = bucket_ok ?c" "assoc b' = assoc ?c" by simp_all
  moreover have "entry ?c = (entry b)[?i := (entry b ! ?i) \<lparr>e_data := ?u\<rparr>]" "deserialized ?c = deserialized b"
    by (simp_all add: set_data_def)
  ultimately show ?thesis
    using same bucket_ok_set_data [OF assms(1,2)] assoc_set_data [OF assms(1-3)] i by auto
qed

lemma find_in_bucket_effect:
  assumes ok: "bucket_ok b" and found: "find_in_bucket stamps now gi p a reason b = (found, b')"
  shows "bucket_ok b' \<and> length (entry b') = length (entry b) \<and> deserialized b' = deserialized b \<and>
      (\<forall>k. rel_option stamped (assoc b k) (assoc b' k))"
    and "fr_group found = gi \<and> (fr_matching found = MatchFull \<longleftrightarrow> assoc b (key p a) \<noteq> None)"
    and "fr_matching found = MatchNone \<and> fr_data found = immutable_data_default \<or>
      fr_matching found \<noteq> MatchNone \<and> (\<exists>k d. assoc b' k = Some d \<and> match_level (key p a) k = fr_matching found \<and>
         fr_data found = (if live d then d else dead_data))"
proof -
  obtain m ins made where lk: "lookup b p a MatchFull = (m, ins, made)" by (metis prod.exhaust)
  note lc = lookup_cases [OF ok lk]
  have *: "(bucket_ok b' \<and> length (entry b') = length (entry b) \<and> deserialized b' = deserialized b \<and>
      (\<forall>k. rel_option stamped (assoc b k) (assoc b' k))) \<and> fr_group found = gi \<and> fr_matching found = made \<and>
      (made = MatchNone \<and> fr_data found = immutable_data_default \<or>
      made \<noteq> MatchNone \<and> (\<exists>k d. assoc b' k = Some d \<and> match_level (key p a) k = made \<and>
         fr_data found = (if live d then d else dead_data)))"
  proof (cases "made = MatchNone")
    case True
    with found ok show ?thesis by (auto simp: find_in_bucket_def lk option.rel_refl)
  next
    case False
    with lc(2) have m: "m < length (sorted_index b)" "match_level (key p a) (key_of (slots b ! m)) = made" by auto
    let ?k = "key_of (slots b ! m)" and ?e = "entry b ! slot_index b m"
    have d: "assoc b ?k = Some (e_data ?e)" using assoc_nth [OF ok m(1)] m(1) by (simp add: slots_nth)
    show ?thesis
    proof (cases "live (e_data ?e) \<and> stamps")
      case True
      then have b': "b' = stamp_last_access now reason (slot_index b m) b" and
        f: "fr_data found = e_data (entry b' ! slot_index b m)" "fr_group found = gi" "fr_matching found = made"
        using found False by (auto simp: find_in_bucket_def lk Let_def obliterated_iff)
      from stamp_last_access_effect [OF ok m(1) refl d b'] obtain t where
        e: "bucket_ok b'" "length (entry b') = length (entry b)" "deserialized b' = deserialized b"
          "assoc b' = (assoc b)(?k \<mapsto> e_data ?e \<lparr>last_access := t\<rparr>)" "Some (e_data (entry b' ! slot_index b m)) = assoc b' ?k"
        by blast
      have "rel_option stamped (assoc b k) (assoc b' k)" for k
        using d by (cases "k = ?k") (auto simp: e(4) stamped_def option.rel_refl)
      moreover have "live (e_data (entry b' ! slot_index b m))" using e(4,5) True by (simp add: live_def)
      moreover have "assoc b' ?k = Some (fr_data found)" using e(5) f(1) by simp
      ultimately show ?thesis using e(1-3) f m(2) False by (simp del: split_paired_All split_paired_Ex) metis
    next
      case not: False
      then have "b' = b" "fr_data found = (if live (e_data ?e) then e_data ?e else dead_data)" "fr_group found = gi"
        "fr_matching found = made"
        using found False by (auto simp: find_in_bucket_def lk Let_def obliterated_iff dead_data_def)
      with ok d m(2) False show ?thesis by (simp add: option.rel_refl del: split_paired_All split_paired_Ex) metis
    qed
  qed
  then show "bucket_ok b' \<and> length (entry b') = length (entry b) \<and> deserialized b' = deserialized b \<and>
      (\<forall>k. rel_option stamped (assoc b k) (assoc b' k))"
    "fr_group found = gi \<and> (fr_matching found = MatchFull \<longleftrightarrow> assoc b (key p a) \<noteq> None)"
    "fr_matching found = MatchNone \<and> fr_data found = immutable_data_default \<or>
      fr_matching found \<noteq> MatchNone \<and> (\<exists>k d. assoc b' k = Some d \<and> match_level (key p a) k = fr_matching found \<and>
         fr_data found = (if live d then d else dead_data))"
    using lc(1) by (simp_all only: simp_thms)
qed

section \<open>The shape of a bucket\<close>

text \<open>Entries are only added, and a bucket that was read stays read.\<close>

definition shaped :: "immutable_store_bucket \<Rightarrow> immutable_store_bucket \<Rightarrow> bool" where
  "shaped b b' \<longleftrightarrow> length (entry b) \<le> length (entry b') \<and> deserialized b' = deserialized b"

lemma shaped_refl [simp]: "shaped b b"
  by (simp add: shaped_def)

lemma shaped_trans: "shaped b b' \<Longrightarrow> shaped b' b'' \<Longrightarrow> shaped b b''"
  by (auto simp: shaped_def)

lemma shaped_simps [simp]:
  "shaped b (set_data i d b')  = shaped b b'" "shaped b (b' \<lparr>dirty := x\<rparr>) = shaped b b'"
  "shaped b (b' \<lparr>soft_dirty := x\<rparr>) = shaped b b'" "shaped b (inject m e b)"
  by (simp_all add: shaped_def set_data_def inject_def)

lemma shaped_find: "find_in_bucket stamps now gi p a reason b = (found, b') \<Longrightarrow> shaped b b'"
  by (auto simp: find_in_bucket_def stamp_last_access_def Let_def split: prod.splits if_splits lookup_reason.splits)

lemma shaped_update_slot: "update_slot h d b m = (b', go) \<Longrightarrow> shaped b b'"
  by (auto simp: update_slot_def Let_def split: if_splits)

lemma shaped_update_down: "shaped b (update_down h d m b)"
proof (induction m arbitrary: b)
  case (Suc m)
  obtain b' go where "update_slot h d b m = (b', go)" by fastforce
  with Suc [of b'] shaped_update_slot [OF this] show ?case by (auto intro: shaped_trans)
qed simp

lemma shaped_update_up: "shaped b (update_up h d m n b)"
proof (induction h d m n b rule: update_up.induct)
  case (1 h d m n b)
  obtain b' go where step: "update_slot h d b (m + 1) = (b', go)" by fastforce
  show ?case
    using 1 [OF _ step [symmetric]] shaped_update_slot [OF step]
    unfolding update_up.simps [of h d m n b] step by (auto intro: shaped_trans)
qed

lemma shaped_store_entry:
  assumes "store_entry now b p a f payload force = Inr (b', out)"
  shows "shaped b b'"
proof -
  have data: "shaped b (store_data b m ins made p a d)" for m ins made d
    unfolding store_data_def Let_def
    by (auto intro!: shaped_trans [OF _ shaped_update_up] shaped_trans [OF _ shaped_update_down])
  have kept: "shaped b (fst (keep_entry b i f))" for i
    by (simp add: keep_entry_def Let_def)
  obtain m ins made where lk: "lookup b p a MatchFull = (m, ins, made)" by (metis prod.exhaust)
  from assms have "(b', out) = keep_entry b (slot_index b m) f \<or> b' = b \<or> (\<exists>d. b' = store_data b m ins made p a d)"
    unfolding store_entry_def lk Let_def prod.case by (simp only: split: if_split_asm) auto
  with data kept [of "slot_index b m"] show ?thesis by (auto simp: prod_eq_iff)
qed

section \<open>Storing an entry\<close>

lemma store_entry_absent:
  assumes "bucket_ok b" "assoc b (key p a) \<noteq> None" "store_entry now b p a f Absent force = Inr (b', out)"
  shows "\<exists>c. out = Kept c"
proof -
  obtain m ins made where lk: "lookup b p a MatchFull = (m, ins, made)" by (metis prod.exhaust)
  with lookup_cases(1) [OF assms(1) lk] assms(2) have "made = MatchFull" by simp
  with assms(3) have "(b', out) = keep_entry b (slot_index b m) f"
    unfolding store_entry_def lk Let_def prod.case by (simp split: if_splits)
  then show ?thesis by (auto simp: keep_entry_def Let_def split: if_splits)
qed

lemma store_entry_keeps:
  assumes coh: "coherent (env_hash env) K" and b: "bucket_ok b" "length (entry b) < 2 ^ 32"
    and given: "given_ok env K ps a f payload"
    and all: "\<forall>k d. assoc b k = Some d \<longrightarrow> data_ok env K ps (fst k) d"
    and st: "store_entry now b p a f payload force = Inr (b', out)"
  shows "bucket_ok b'" "assoc b' k = Some d \<Longrightarrow> data_ok env K ps (fst k) d"
    and "assoc b k = Some d \<Longrightarrow> readable_data d \<Longrightarrow> \<exists>d'. assoc b' k = Some d' \<and> readable_data d'"
    and "payload \<noteq> Absent \<Longrightarrow> out \<noteq> NeedsPayload \<Longrightarrow> \<exists>d. assoc b' (key p a) = Some d \<and> readable_data d"
    and "out = NeedsPayload \<Longrightarrow> payload = Unwritten"
proof -
  have old: "data_ok env K ps (fst k) d" if "assoc b k = Some d" for k d using all that by blast
  note eff = store_entry_effect [OF b st]
  note new = stores_data_ok [OF coh given old]
  show "bucket_ok b'" using eff by blast
  show "assoc b' k = Some d \<Longrightarrow> data_ok env K ps (fst k) d"
    by (rule store_entry_ran [where P = "data_ok env K ps", OF b st])
      (use old kept_data_ok(1) upgrade_data_ok [OF coh] new in blast)+
  have "store_effect now b p a f payload force b' out" using eff by blast
  then consider (needs) "out = NeedsPayload" "b' = b" "payload = Unwritten"
    | (keep) c d0 where "out = Kept c" "assoc b (key p a) = Some d0" "assoc b' = (assoc b)(key p a \<mapsto> kept_data f d0)"
        "(\<not> force \<and> pack_file d0 \<noteq> 0) \<or> payload = Absent"
    | (store) fl d0 where "out = Stored fl (pack_file d0)" "stores now b a f payload d0" "payload \<noteq> Unwritten \<or> adopts b a f d0"
        "assoc b' (key p a) = Some d0" "others_upgraded (addr_hash a) d0 (key p a) (assoc b) (assoc b')"
    unfolding store_effect_def by blast
  note cases = this
  show "out = NeedsPayload \<Longrightarrow> payload = Unwritten" by (rule cases) simp_all
  show "\<exists>d. assoc b' (key p a) = Some d \<and> readable_data d" if "payload \<noteq> Absent" "out \<noteq> NeedsPayload"
  proof (rule cases)
    fix c d0 assume d0: "assoc b (key p a) = Some d0" "assoc b' = (assoc b)(key p a \<mapsto> kept_data f d0)"
      "(\<not> force \<and> pack_file d0 \<noteq> 0) \<or> payload = Absent"
    with that old [OF d0(1)] have "readable_data d0" by (auto simp: data_ok_def readable_data_def split: if_splits)
    with d0(2) kept_data_ok(2) show ?thesis by simp
  qed (use that new in auto)
  show "\<exists>d'. assoc b' k = Some d' \<and> readable_data d'" if d: "assoc b k = Some d" "readable_data d"
  proof (rule cases)
    fix c d0 assume "assoc b (key p a) = Some d0" "assoc b' = (assoc b)(key p a \<mapsto> kept_data f d0)"
    with d kept_data_ok(2) show ?thesis by (cases "k = key p a") simp_all
  next
    fix fl d0 assume d0: "out = Stored fl (pack_file d0)" "stores now b a f payload d0" "payload \<noteq> Unwritten \<or> adopts b a f d0"
        "assoc b' (key p a) = Some d0" "others_upgraded (addr_hash a) d0 (key p a) (assoc b) (assoc b')"
    note ok0 = new [OF _ d0(2,3)]
    show ?thesis
    proof (cases "k = key p a")
      case True
      with store_entry_absent [OF b(1)] st d0(1) d have "payload \<noteq> Absent" by fastforce
      with ok0 True d0(4) show ?thesis by blast
    next
      case False
      with d0(5) consider "assoc b' k = assoc b k"
        | "fst k = addr_hash a" "pack_file d0 \<noteq> 0" "assoc b' k = map_option (upgrade d0) (assoc b k)"
        unfolding others_upgraded_def by blast
      then show ?thesis
      proof cases
        case 2
        with upgrade_data_ok [OF coh, of ps "addr_hash a" d0 d] ok0 old [OF d(1)] d show ?thesis by simp
      qed (use d in simp)
    qed
  qed (use d in simp)
qed

lemma store_entry_succeeds:
  assumes coh: "coherent (env_hash env) K" and b: "bucket_ok b"
    and given: "given_ok env K ps a f payload" and payload: "payload \<noteq> Absent"
    and all: "\<forall>k d. assoc b k = Some d \<longrightarrow> data_ok env K ps (fst k) d"
  shows "\<exists>x. store_entry now b p a f payload force = Inr x"
proof -
  have old: "data_ok env K ps (fst k) d" if "assoc b k = Some d" for k d using all that by blast
  obtain m ins made where lk: "lookup b p a MatchFull = (m, ins, made)" by (metis prod.exhaust)
  let ?d = "e_data (slot_entry b m)"
  obtain c where c: "c \<in> K" "env_hash env (content_bytes c) = addr_hash a" "size_content f = content_size c"
    using given by (auto simp: given_ok_def)
  have "d_size_content ?d = size_content f" if "made \<noteq> MatchNone" "d_flags ?d AND PayloadObliterated = 0"
  proof -
    have m: "m < length (sorted_index b)" "fst (key_of (slots b ! m)) = addr_hash a"
      using lookup_cases(2) [OF b lk that(1)] that(1) by (auto simp: match_level_def split: if_splits)
    from old [OF assoc_nth [OF b m(1)]] m that(2) obtain c' where
      "c' \<in> K" "env_hash env (content_bytes c') = addr_hash a" "d_size_content ?d = content_size c'"
      by (auto simp: data_ok_def live_def slots_nth)
    with coherentD [OF coh _ c(1)] c show ?thesis by metis
  qed
  then have size: "\<not> (made \<noteq> MatchNone \<and> d_size_content ?d \<noteq> size_content f \<and> d_flags ?d AND PayloadObliterated = 0)" by blast
  show ?thesis
    unfolding store_entry_def lk Let_def prod.case using payload by (simp only: size simp_thms if_False) (simp split: if_split)
qed

end
