(* ===== verification/Local_Store_Laws.thy ===== *)
theory Local_Store_Laws
  imports Store_Group_Laws
begin

text \<open>
  The local store keeps the contract of \<open>Content_Store\<close>: each operation extends every group, so what was
  readable stays readable, a store of content makes it readable, and a read gives it back.
\<close>

section \<open>A store that keeps what it is given\<close>

definition store_ready :: "local_immutable_store \<Rightarrow> bool" where
  "store_ready s \<longleftrightarrow> (\<forall>i. group_ready (s_path s) (s_group s i))"

definition store_fits :: "local_immutable_store \<Rightarrow> bool" where
  "store_fits s \<longleftrightarrow> (\<forall>i. group_fits (s_group s i))"

definition store_ok :: "store_env \<Rightarrow> content set \<Rightarrow> local_immutable_store \<Rightarrow> bool" where
  "store_ok env contents s \<longleftrightarrow> (\<forall>i. group_ok env contents (s_group s i))"

definition quiet_store :: "local_immutable_store \<Rightarrow> bool" where
  "quiet_store s \<longleftrightarrow> (\<forall>i. quiet_group (s_group s i))"

text \<open>The bucket of an address, and whether its payload is there to be read.\<close>

definition bucket_at :: "local_immutable_store \<Rightarrow> hash \<Rightarrow> immutable_store_bucket" where
  "bucket_at s h = (let g = s_group s (group_index h) in g_bucket g (bucket_of h g))"

definition stored_at :: "local_immutable_store \<Rightarrow> partition \<Rightarrow> address \<Rightarrow> bool" where
  "stored_at s p a \<longleftrightarrow> (\<exists>d. assoc (bucket_at s (addr_hash a)) (key p a) = Some d \<and> readable_data d)"

definition store_extends :: "store_env \<Rightarrow> content set \<Rightarrow> local_immutable_store \<Rightarrow> local_immutable_store \<Rightarrow> bool" where
  "store_extends env contents s s' \<longleftrightarrow> s_path s' = s_path s \<and> s_settings s' = s_settings s \<and>
     (\<forall>i. extends env contents (s_path s) (s_group s i) (s_group s' i))"

lemma store_extends_refl [simp]: "store_extends env K s s"
  by (simp add: store_extends_def)

lemma store_extends_trans [trans]:
  "store_extends env K s s' \<Longrightarrow> store_extends env K s' s'' \<Longrightarrow> store_extends env K s s''"
  unfolding store_extends_def by (auto intro: extends_trans)

lemma store_extendsD:
  assumes "store_extends env K s s'" "store_ready s"
  shows "s_path s' = s_path s" "s_settings s' = s_settings s" "store_ready s'" "store_fits s' \<Longrightarrow> store_fits s"
    and "store_ok env K s \<Longrightarrow> store_fits s' \<Longrightarrow> store_ok env K s'"
    and "store_ok env K s \<Longrightarrow> store_fits s' \<Longrightarrow> quiet_store s \<Longrightarrow> quiet_store s'"
    and "store_ok env K s \<Longrightarrow> store_fits s' \<Longrightarrow> stored_at s p a \<Longrightarrow> stored_at s' p a"
proof -
  have e: "extends env K (s_path s) (s_group s i) (s_group s' i)" and r: "group_ready (s_path s) (s_group s i)" for i
    using assms by (simp_all add: store_extends_def store_ready_def)
  note d = extendsD [OF e r]
  show "s_path s' = s_path s" "s_settings s' = s_settings s" using assms(1) by (simp_all add: store_extends_def)
  then show "store_ready s'" using d(1) by (simp add: store_ready_def)
  show "store_fits s' \<Longrightarrow> store_fits s" using d(3) unfolding store_fits_def by blast
  show "store_ok env K s \<Longrightarrow> store_fits s' \<Longrightarrow> store_ok env K s'"
    using d(4) unfolding store_fits_def store_ok_def by blast
  show "store_ok env K s \<Longrightarrow> store_fits s' \<Longrightarrow> quiet_store s \<Longrightarrow> quiet_store s'"
    using d(5) unfolding store_fits_def store_ok_def quiet_store_def by blast
  show "stored_at s' p a" if "store_ok env K s" "store_fits s'" "stored_at s p a"
  proof -
    let ?g = "s_group s (group_index (addr_hash a))" and ?g' = "s_group s' (group_index (addr_hash a))"
    have "readable_in ?g (bucket_of (addr_hash a) ?g) (key p a)"
      using that(3) by (simp add: stored_at_def bucket_at_def readable_in_def Let_def)
    then have "readable_in ?g' (bucket_of (addr_hash a) ?g) (key p a)"
      using d(6) that(1,2) unfolding store_fits_def store_ok_def by blast
    then show ?thesis using d(2) by (simp add: stored_at_def bucket_at_def readable_in_def Let_def bucket_of_def)
  qed
qed

lemma store_extends_set_group:
  "extends env K (s_path s) (s_group s i) g \<Longrightarrow> store_extends env K s (set_group i g s)"
  by (simp add: store_extends_def set_group_def)

text \<open>A step that may replace one bucket.\<close>

definition bucket_step :: "store_env \<Rightarrow> content set \<Rightarrow> nat \<Rightarrow> immutable_store_group \<Rightarrow> immutable_store_group \<Rightarrow> bool" where
  "bucket_step env contents i g g' \<longleftrightarrow> g' = g \<or> (\<exists>b. g' = set_bucket i b g \<and> shaped (g_bucket g i) b \<and>
     (group_ok env contents g \<longrightarrow> length (entry b) < 2 ^ 32 \<longrightarrow> bucket_ok b \<and>
        (\<forall>k d. assoc b k = Some d \<longrightarrow> data_ok env contents (packstore g) (fst k) d) \<and>
        (\<forall>k. readable_in g i k \<longrightarrow> (\<exists>d. assoc b k = Some d \<and> readable_data d))))"

text \<open>An operation on the bucket of a hash, opened first.\<close>

lemma on_bucket:
  assumes run: "on_group (group_index h) (bind_op (open_bucket (s_path s) h) f) s = (r, s')" and ready: "store_ready s"
    and step: "\<And>g i. held (packstore g) = held (packstore (s_group s (group_index h))) \<Longrightarrow> bucket_step env K i g (snd (f i g))"
  shows "store_extends env K s s'"
    and "(\<exists>x. r = Inr x) \<or> quiet_store s \<Longrightarrow> \<exists>g. f (bucket_of h g) g = (r, s_group s' (group_index h)) \<and>
      bucket_of h (s_group s' (group_index h)) = bucket_of h g \<and>
      held (packstore g) = held (packstore (s_group s (group_index h))) \<and>
      (store_ok env K s \<longrightarrow> store_fits s' \<longrightarrow> group_ok env K g \<and> group_fits g)"
proof -
  let ?gi = "group_index h" and ?g0 = "s_group s (group_index h)"
  obtain g' where g': "bind_op (open_bucket (s_path s) h) f ?g0 = (r, g')" "s' = set_group ?gi g' s"
    using run by (auto simp: on_group_def split: prod.splits)
  obtain o1 g where o: "open_bucket (s_path s) h ?g0 = (o1, g)" by (metis prod.exhaust)
  have rd: "group_ready (s_path s) ?g0" using ready by (simp add: store_ready_def)
  note ob = open_bucket_cases [OF o rd]
  have sg: "s_group s' ?gi = g'" using g'(2) by (simp add: set_group_def)
  have i: "bucket_of h g = bucket_of h ?g0" using ob(4) by (simp add: bucket_of_def)
  have ran: "f (bucket_of h g) g = (r, g') \<and> extends env K (s_path s) g g'" if o1: "o1 = Inr j" for j
  proof -
    from o1 g'(1) o have fj: "f j g = (r, g')" by simp
    have j: "j = bucket_of h g" "s_path s \<longrightarrow> deserialized (g_bucket g j)" using ob(5) [OF o1] i by auto
    from step [OF ob(7), of j] fj consider "g' = g" | b where "g' = set_bucket j b g" "shaped (g_bucket g j) b"
      "group_ok env K g \<longrightarrow> length (entry b) < 2 ^ 32 \<longrightarrow> bucket_ok b \<and>
          (\<forall>k d. assoc b k = Some d \<longrightarrow> data_ok env K (packstore g) (fst k) d) \<and>
          (\<forall>k. readable_in g j k \<longrightarrow> (\<exists>d. assoc b k = Some d \<and> readable_data d))"
      unfolding bucket_step_def by auto
    then have "extends env K (s_path s) g g'"
    proof cases
      case (2 b)
      have b: "deserialized b = deserialized (g_bucket g j)" "length (entry (g_bucket g j)) \<le> length (entry b)"
        using 2(2) unfolding shaped_def by blast+
      show ?thesis unfolding 2(1)
        by (rule extends_set_bucket [OF _ b]) (use j(2) 2(3) in blast)+
    qed simp
    with fj j(1) show ?thesis by blast
  qed
  have ext: "extends env K (s_path s) g g'"
  proof (cases o1)
    case (Inl e)
    with g'(1) o show ?thesis by simp
  next
    case (Inr j)
    with ran show ?thesis by blast
  qed
  show all: "store_extends env K s s'"
    unfolding g'(2) by (rule store_extends_set_group) (rule extends_trans [OF ob(1) ext])
  have g: "group_ok env K g \<and> group_fits g" if "store_ok env K s" "store_fits s'"
    using that extendsD(4) [OF ob(1) rd] extendsD(3) [OF ext extendsD(1) [OF ob(1) rd]] sg
    by (auto simp: store_ok_def store_fits_def)
  have b: "bucket_of h g' = bucket_of h g"
    using extendsD(2) [OF ext extendsD(1) [OF ob(1) rd]] by (simp add: bucket_of_def)
  assume "(\<exists>x. r = Inr x) \<or> quiet_store s"
  then obtain j where "o1 = Inr j"
    using ob(6) g'(1) o by (cases o1) (auto simp: quiet_store_def)
  from ran [OF this] g b sg ob(7)
  show "\<exists>g. f (bucket_of h g) g = (r, s_group s' ?gi) \<and> bucket_of h (s_group s' ?gi) = bucket_of h g \<and>
      held (packstore g) = held (packstore ?g0) \<and>
      (store_ok env K s \<longrightarrow> store_fits s' \<longrightarrow> group_ok env K g \<and> group_fits g)" by blast
qed

section \<open>Finding\<close>

definition found_in :: "immutable_store_bucket \<Rightarrow> partition \<Rightarrow> address \<Rightarrow> find_result \<Rightarrow> bool" where
  "found_in b p a found \<longleftrightarrow> (fr_matching found = MatchFull \<longleftrightarrow> assoc b (key p a) \<noteq> None) \<and>
     (fr_matching found = MatchNone \<and> fr_data found = immutable_data_default \<or>
      fr_matching found \<noteq> MatchNone \<and> (\<exists>k d. assoc b k = Some d \<and> match_level (key p a) k = fr_matching found \<and>
        fr_data found = (if live d then d else dead_data)))"

lemma find_in_bucket_found:
  assumes "bucket_ok b" "find_in_bucket stamps now gi p a reason b = (found, b')"
  shows "found_in b' p a found" "fr_group found = gi"
proof -
  note e = find_in_bucket_effect [OF assms]
  have "rel_option stamped (assoc b (key p a)) (assoc b' (key p a))" using e(1) by blast
  then have "assoc b' (key p a) \<noteq> None \<longleftrightarrow> assoc b (key p a) \<noteq> None" by (auto simp: option_rel_Some1 option_rel_Some2 elim: option.rel_cases)
  with e(2,3) show "found_in b' p a found" "fr_group found = gi" unfolding found_in_def by blast+
qed

lemma stamped_associations:
  assumes "rel_option stamped (assoc b k) (assoc b' k)"
  shows "assoc b' k = Some d' \<Longrightarrow> \<exists>d. assoc b k = Some d \<and> stamped d d'"
    "assoc b k = Some d \<Longrightarrow> \<exists>d'. assoc b' k = Some d' \<and> stamped d d'"
  using assms by (auto elim: option.rel_cases)

lemma find_entry_effect:
  assumes run: "find_entry env p a reason s = (r, s')" and ready: "store_ready s"
  shows "store_extends env K s s'"
    and "r = Inr found \<Longrightarrow> store_ok env K s \<Longrightarrow> store_fits s' \<Longrightarrow>
      fr_group found = group_index (addr_hash a) \<and> found_in (bucket_at s' (addr_hash a)) p a found"
    and "quiet_store s \<Longrightarrow> \<exists>found. r = Inr found"
proof -
  let ?gi = "group_index (addr_hash a)"
  define f where "f = (\<lambda>i g. case find_in_bucket (atime (s_settings s)) (env_now env) ?gi p a reason (g_bucket g i) of
      (found, b) \<Rightarrow> (Inr found :: find_result result, set_bucket i b g))"
  have run': "on_group ?gi (bind_op (open_bucket (s_path s) (addr_hash a)) f) s = (r, s')"
    using run by (simp add: find_entry_def Let_def f_def)
  have step: "bucket_step env K i g (snd (f i g))" for g i
  proof -
    obtain fd b where fd: "find_in_bucket (atime (s_settings s)) (env_now env) ?gi p a reason (g_bucket g i) = (fd, b)" by fastforce
    then have g': "snd (f i g) = set_bucket i b g" by (simp add: f_def)
    have "bucket_ok b \<and> (\<forall>k d. assoc b k = Some d \<longrightarrow> data_ok env K (packstore g) (fst k) d) \<and>
          (\<forall>k. readable_in g i k \<longrightarrow> (\<exists>d. assoc b k = Some d \<and> readable_data d))" if ok: "group_ok env K g"
    proof -
      have bo: "bucket_ok (g_bucket g i)" and old: "\<And>k d. assoc (g_bucket g i) k = Some d \<Longrightarrow> data_ok env K (packstore g) (fst k) d"
        using ok unfolding group_ok_def by blast+
      note e = find_in_bucket_effect(1) [OF bo fd]
      have st: "rel_option stamped (assoc (g_bucket g i) k) (assoc b k)" for k using e by blast
      show ?thesis
        using e old stamped_associations [OF st] stampedD unfolding readable_in_def by meson
    qed
    with g' shaped_find [OF fd] show ?thesis unfolding bucket_step_def by blast
  qed
  note ob = on_bucket [OF run' ready step]
  show "store_extends env K s s'" by (rule ob(1))
  show "fr_group found = ?gi \<and> found_in (bucket_at s' (addr_hash a)) p a found"
    if r: "r = Inr found" "store_ok env K s" "store_fits s'"
  proof -
    obtain g where g: "f (bucket_of (addr_hash a) g) g = (r, s_group s' ?gi)"
      "bucket_of (addr_hash a) (s_group s' ?gi) = bucket_of (addr_hash a) g" "group_ok env K g"
      using ob(2) r by blast
    let ?i = "bucket_of (addr_hash a) g"
    obtain b where b: "find_in_bucket (atime (s_settings s)) (env_now env) ?gi p a reason (g_bucket g ?i) = (found, b)"
      "s_group s' ?gi = set_bucket ?i b g"
      using g(1) r(1) by (auto simp: f_def split: prod.splits)
    have "bucket_at s' (addr_hash a) = b"
      using g(2) b(2) by (simp add: bucket_at_def Let_def set_bucket_def)
    moreover have "bucket_ok (g_bucket g ?i)" using g(3) by (simp add: group_ok_def)
    ultimately show ?thesis using find_in_bucket_found b(1) by blast
  qed
  show "\<exists>found. r = Inr found" if quiet: "quiet_store s"
  proof -
    obtain g where "f (bucket_of (addr_hash a) g) g = (r, s_group s' ?gi)" using ob(2) quiet by blast
    then show ?thesis by (auto simp: f_def split: prod.split_asm)
  qed
qed

section \<open>Storing\<close>

lemma given_ok_held: "held ps = held ps' \<Longrightarrow> given_ok env K ps = given_ok env K ps'"
  by (simp add: given_ok_def fun_eq_iff)

lemma store_entry_of_effect:
  assumes coh: "coherent (env_hash env) K" and run: "store_entry_of env p a f payload force s = (r, s')"
    and ready: "store_ready s"
    and given: "given_ok env K (packstore (s_group s (group_index (addr_hash a)))) a f payload"
  shows "store_extends env K s s'"
    and "r = Inr out \<Longrightarrow> store_ok env K s \<Longrightarrow> store_fits s' \<Longrightarrow>
      (payload \<noteq> Absent \<longrightarrow> out \<noteq> NeedsPayload \<longrightarrow> stored_at s' p a) \<and> (out = NeedsPayload \<longrightarrow> payload = Unwritten)"
    and "quiet_store s \<Longrightarrow> store_ok env K s \<Longrightarrow> store_fits s' \<Longrightarrow> payload \<noteq> Absent \<Longrightarrow> \<exists>out. r = Inr out"
proof -
  let ?h = "addr_hash a" and ?gi = "group_index (addr_hash a)"
  define m where "m = (\<lambda>i g. case store_entry (env_now env) (g_bucket g i) p a f payload force of
         Inl e \<Rightarrow> (Inl e, g) | Inr (b, outcome) \<Rightarrow> (Inr outcome :: store_outcome result, set_bucket i b g))"
  have run': "on_group ?gi (bind_op (open_bucket (s_path s) ?h) m) s = (r, s')"
    using run by (simp add: store_entry_of_def m_def)
  have okD: "bucket_ok (g_bucket g i)" "\<forall>k d. assoc (g_bucket g i) k = Some d \<longrightarrow> data_ok env K (packstore g) (fst k) d"
    if "group_ok env K g" for g i using that unfolding group_ok_def by blast+
  have step: "bucket_step env K i g (snd (m i g))" if hd: "held (packstore g) = held (packstore (s_group s ?gi))" for g i
  proof (cases "store_entry (env_now env) (g_bucket g i) p a f payload force")
    case (Inl e)
    then show ?thesis by (simp add: m_def bucket_step_def)
  next
    case (Inr bo)
    then obtain b out where st: "store_entry (env_now env) (g_bucket g i) p a f payload force = Inr (b, out)" by (cases bo) simp
    have given': "given_ok env K (packstore g) a f payload" using given given_ok_held [OF hd] by simp
    have "bucket_ok b \<and> (\<forall>k d. assoc b k = Some d \<longrightarrow> data_ok env K (packstore g) (fst k) d) \<and>
        (\<forall>k. readable_in g i k \<longrightarrow> (\<exists>d. assoc b k = Some d \<and> readable_data d))"
      if ok: "group_ok env K g" "length (entry b) < 2 ^ 32"
    proof -
      have len: "length (entry (g_bucket g i)) < 2 ^ 32"
        using shaped_store_entry [OF st] ok(2) unfolding shaped_def by linarith
      note k = store_entry_keeps [OF coh okD(1) [OF ok(1)] len given' okD(2) [OF ok(1)] st]
      from k(1-3) show ?thesis unfolding readable_in_def by blast
    qed
    then show ?thesis
      unfolding bucket_step_def using shaped_store_entry [OF st] st by (auto simp: m_def)
  qed
  note ob = on_bucket [OF run' ready step]
  show "store_extends env K s s'" by (rule ob(1))
  show "(payload \<noteq> Absent \<longrightarrow> out \<noteq> NeedsPayload \<longrightarrow> stored_at s' p a) \<and> (out = NeedsPayload \<longrightarrow> payload = Unwritten)"
    if r: "r = Inr out" "store_ok env K s" "store_fits s'"
  proof -
    obtain g where g: "m (bucket_of ?h g) g = (r, s_group s' ?gi)" "bucket_of ?h (s_group s' ?gi) = bucket_of ?h g"
      "held (packstore g) = held (packstore (s_group s ?gi))" "group_ok env K g" "group_fits g"
      using ob(2) r by blast
    obtain b where b: "store_entry (env_now env) (g_bucket g (bucket_of ?h g)) p a f payload force = Inr (b, out)"
      "s_group s' ?gi = set_bucket (bucket_of ?h g) b g"
      using g(1) r(1) by (auto simp: m_def split: sum.split_asm)
    have at: "bucket_at s' ?h = b" using g(2) b(2) by (simp add: bucket_at_def Let_def set_bucket_def)
    have len: "length (entry (g_bucket g (bucket_of ?h g))) < 2 ^ 32" using g(5) unfolding group_fits_def by blast
    have given': "given_ok env K (packstore g) a f payload" using given given_ok_held [OF g(3)] by simp
    note k = store_entry_keeps [OF coh okD(1) [OF g(4)] len given' okD(2) [OF g(4)] b(1)]
    from k(4,5) show ?thesis unfolding stored_at_def at by blast
  qed
  show "\<exists>out. r = Inr out" if quiet: "quiet_store s" "store_ok env K s" "store_fits s'" "payload \<noteq> Absent"
  proof -
    obtain g where g: "m (bucket_of ?h g) g = (r, s_group s' ?gi)"
      "held (packstore g) = held (packstore (s_group s ?gi))" "group_ok env K g"
      using ob(2) quiet by blast
    have given': "given_ok env K (packstore g) a f payload" using given given_ok_held [OF g(2)] by simp
    from store_entry_succeeds [OF coh okD(1) [OF g(3)] given' quiet(4) okD(2) [OF g(3)]] g(1)
    show ?thesis by (auto simp: m_def split: sum.split_asm) (metis sum.distinct(1))
  qed
qed

end
