(* ===== verification/Spec2Isabelle.thy ===== *)
theory Spec2Isabelle
  imports Chunker Defragment Local_Store_Laws
begin

text \<open>
  A verification development of the storage layer of Lore, a version control system that keeps
  all content as content-addressed fragments.

  \<^bold>\<open>The program.\<close> Content is cut into chunks (lore-storage/src/chunker.rs, content.rs), each
  chunk is compressed (compress.rs) and put into an immutable store under the address formed by its
  hash and a context. Content of more than one chunk is named by a fragment list, itself stored
  as a fragment, and lists nest (fragment_engine.rs). A store checks what it is given
  (immutable_store.rs). The local store (local/immutable_store.rs) keeps one sorted index per
  bucket that says where the payload of an address lies; the payloads lie in the packfiles of
  a packstore (packstore.rs). Reading walks the fragment tree and puts the leaves together
  again (defragment.rs). The counters of maintenance.rs decide when a store is compacted or evicted.

  \<^bold>\<open>Theories.\<close> Each holds its definitions in the order of the code, then the lemmas on them.

  \<^item> Lore_Prelude: results, the operations on a state that may fail, and the lemmas on lists, options
    and words the rest shares.
  \<^item> Lore_Types (lore-base/src/types/mod.rs, typed_bytes.rs): identifiers, addresses, fragment headers
    and references, with their byte layouts and textual forms. Both forms read back.
  \<^item> Fragment_Flags (fragment_flags.rs, store_types.rs, verify_types.rs): the flag masks and the enumerations.
  \<^item> Fragment_Validation (lore-storage/src/immutable_store.rs): the checks on metadata, sizes and fragment
    lists. What they accept is characterised exactly, the two forms of the put gate agree, and what
    passes on the way in passes on the way out.
  \<^item> Chunker (chunker.rs, content.rs): FileChunker over any sequence of short reads. Streaming
    equals cutting the whole content, the chunks tile the content within the size limits, an error is final.
  \<^item> Compression (compress.rs): choice of mode and level, the two codecs, the pool of contexts as
    an interleaving of thread steps. Decompression undoes compression, the put gate is kept, and the pool
    never holds more contexts than its limit.
  \<^item> Fragment_Walk and Defragment (defragment.rs): the walk of a fragment tree, the two fetch pools, the
    ordered stream, the file sink and the recursive read. The leaves of any walk that succeeds tile the
    range asked for; on a tree that holds the content each of the readers returns it.
  \<^item> Store_Index and Store_Index_Laws (local/immutable_store.rs): the bucket as its entry and data arrays
    with the sorted index: search, store, copy, tombstone. The search gives the best match, every
    operation keeps the bucket well formed, a payload is given up only with its last live association. One
    theorem records that storing over a full match can leave another association without the payload.
  \<^item> Gc_Counters (maintenance.rs): the load counters and the passes they trigger, each at most once.
  \<^item> Pack_Store, Pack_Store_Laws and Pack_Store_Runs (packstore.rs): the packstore with its directory, open
    files, pending settle tasks and the outcome of each I/O call in the state. Every run is well formed and
    returns, a store succeeds if no I/O fails, and a stored payload is loaded back after any operations
    that neither truncate its packfile nor zero its range.

  \<^item> Fan_Out (local/fan_out.rs): the levels of a group, the names of its files, the level marker and the
    recovery of a change of level that was interrupted. Names and markers read back and do not collide.
  \<^item> Bucket_File (local/immutable_store.rs): bucket files of all versions. The locale of array layouts is
    interpreted for index slots, entries and packfile sizes. A written bucket reads back, a file cut short is
    noticed. One theorem records that files of the first version never give back an entry.
  \<^item> Store_Group (local/immutable_store.rs): a group with its buckets, directory and packstore; reading and
    writing buckets, fan-out, the two-phase commit, the flushes.
  \<^item> Store_Interface and Local_Store (store_types.rs, read.rs, local/immutable_store.rs): the expansion of a
    payload, and the operations of the store interface over the groups.
  \<^item> Content_Store and Local_Store_Laws: the content a payload stands for, and that the operations of a
    group keep every payload it can read.

  \<^bold>\<open>Effects.\<close> Code that fails returns a sum whose left side is the storage error. Code that changes
  a store is a function on its record. The order in which concurrent tasks complete, the locks held by
  others, the lengths of short reads and the outcomes of I/O calls are arguments or components of the
  state, and the theorems hold for all of them unless a hypothesis says otherwise. Machine integers are
  words of their width wherever the code can wrap or truncate.

  \<^bold>\<open>Parameters.\<close> The codecs, the cut function of the content-defined chunker and the fetch operation of
  a store are arguments. What a theorem needs of them is a hypothesis of that theorem, and its witness
  gives a concrete function for which it holds.

  \<^bold>\<open>Bounds.\<close> The walk recurses at most to the height limit of the code, 10 levels, which is an argument counted
  down as the code counts it. The loops of the packstore recurse on the number of packfiles still to be
  tried; a packstore that keeps no writeable packfile would retry for ever, so the theorems on stores ask for
  at least one.

  \<^bold>\<open>Not modelled.\<close> Random sampling and serde visitors; Oodle, scratch buffer pools and allocators; task
  scheduling, channels and memory budgets; the claim of a store directory, eviction, compaction and
  migrations of the local store; the orchestration over remote sessions in
  read.rs and write.rs; the mutable store. Everything above the storage layer (revisions, server, transport,
  clients, virtual file system, cloud adapters) is out of scope: it consists of network, database and kernel
  interfaces or uses the storage layer only through them.
\<close>

end
